(* ===== verification/Prelude.thy ===== *)
theory Prelude
  imports Main "HOL-Library.Word"
begin

text \<open>
  Shared vocabulary of the development: the machine integer types of the C sources, byte
  order conversions, bounds-checked accesses to C arrays (an access outside the array is
  \<open>None\<close>), and the lemma collections that the component theories extend.
\<close>

unbundle bit_operations_syntax

type_synonym u8 = "8 word"
type_synonym u16 = "16 word"
type_synonym u32 = "32 word"
type_synonym u64 = "64 word"

named_theorems crc_eval \<open>evaluation of checksums on concrete bytes\<close>
named_theorems layout_simps \<open>byte layouts of packed structures\<close>
named_theorems mem_simps \<open>reading memory after a write\<close>
named_theorems bound_simps \<open>sizes and bounds of arrays\<close>

section \<open>Byte order\<close>

text \<open>Little-endian bytes of a 16-bit and a 32-bit integer, as a packed C structure on the
  little-endian Cortex-M3 holds them.\<close>

definition bytesLe16 :: "u16 \<Rightarrow> u8 list" where
  "bytesLe16 w = [ucast w, ucast (drop_bit 8 w)]"

definition storeUint32Le :: "u32 \<Rightarrow> u8 list" where
  "storeUint32Le value =
     [ucast value, ucast (drop_bit 8 value), ucast (drop_bit 16 value), ucast (drop_bit 24 value)]"

definition wordLe16 :: "u8 \<Rightarrow> u8 \<Rightarrow> u16" where
  "wordLe16 b0 b1 = ucast b0 OR push_bit 8 (ucast b1)"

definition loadUint32Le :: "u8 list \<Rightarrow> u32" where
  "loadUint32Le source =
     ucast (source ! 0) OR push_bit 8 (ucast (source ! 1)) OR
     push_bit 16 (ucast (source ! 2)) OR push_bit 24 (ucast (source ! 3))"

lemma length_bytesLe16 [simp, layout_simps]: "length (bytesLe16 w) = 2"
  by (simp add: bytesLe16_def)

lemma length_storeUint32Le [simp, layout_simps]: "length (storeUint32Le w) = 4"
  by (simp add: storeUint32Le_def)

lemma bit_u8_beyond [simp]: "8 \<le> n \<Longrightarrow> \<not> bit (w :: u8) n"
  by (auto dest: bit_imp_le_length)

lemma loadUint32Le_storeUint32Le [simp]: "loadUint32Le (storeUint32Le w @ rest) = w"
proof (rule bit_word_eqI)
  fix n assume "n < LENGTH(32)"
  then consider "n < 8" | "8 \<le> n" "n < 16" | "16 \<le> n" "n < 24" | "24 \<le> n" "n < 32"
    by fastforce
  then show "bit (loadUint32Le (storeUint32Le w @ rest)) n = bit w n"
    by cases (auto simp: loadUint32Le_def storeUint32Le_def bit_simps)
qed

lemma storeUint32Le_loadUint32Le:
  assumes "length bs = 4"
  shows "storeUint32Le (loadUint32Le bs) = bs"
proof -
  from assms obtain a b c d where bs: "bs = [a, b, c, d]"
    by (auto simp: numeral_eq_Suc length_Suc_conv)
  show ?thesis unfolding bs
    by (auto intro!: bit_word_eqI simp: loadUint32Le_def storeUint32Le_def bit_simps)
qed

lemma wordLe16_bytesLe16 [simp]: "wordLe16 (bytesLe16 w ! 0) (bytesLe16 w ! 1) = w"
  by (rule bit_word_eqI) (auto simp: wordLe16_def bytesLe16_def bit_simps)

lemma wordLe16_split [simp]: "wordLe16 (ucast w) (ucast (drop_bit 8 w)) = w"
  using wordLe16_bytesLe16 [of w] by (simp add: bytesLe16_def)

lemma loadUint32Le_store [simp]: "loadUint32Le (storeUint32Le w) = w"
  using loadUint32Le_storeUint32Le [of w "[]"] by simp

lemma bytesLe16_wordLe16 [simp]: "bytesLe16 (wordLe16 a b) = [a, b]"
  by (auto intro!: bit_word_eqI simp: wordLe16_def bytesLe16_def bit_simps)

lemma loadUint32Le_append [simp]:
  "4 \<le> length bs \<Longrightarrow> loadUint32Le (bs @ rest) = loadUint32Le bs"
  by (cases bs) (auto simp: loadUint32Le_def nth_append)

section \<open>C arrays\<close>

text \<open>A store into an array and a load from it; \<open>None\<close> is an access outside the array.\<close>

definition store :: "'a list \<Rightarrow> nat \<Rightarrow> 'a \<Rightarrow> 'a list option" where
  "store xs i v = (if i < length xs then Some (xs[i := v]) else None)"

definition fetch :: "'a list \<Rightarrow> nat \<Rightarrow> 'a option" where
  "fetch xs i = (if i < length xs then Some (xs ! i) else None)"

lemma store_in [simp]: "i < length xs \<Longrightarrow> store xs i v = Some (xs[i := v])"
  by (simp add: store_def)

lemma fetch_in [simp]: "i < length xs \<Longrightarrow> fetch xs i = Some (xs ! i)"
  by (simp add: fetch_def)

lemma store_SomeD: "store xs i v = Some ys \<Longrightarrow> i < length xs \<and> ys = xs[i := v]"
  by (simp add: store_def split: if_splits)

lemma take_update_at: "i < length xs \<Longrightarrow> take (Suc i) (xs[i := v]) = take i xs @ [v]"
  by (simp add: take_Suc_conv_app_nth)

lemma update_append_middle [simp]:
  "i = length xs \<Longrightarrow> (xs @ y # ys)[i := v] = xs @ v # ys"
  by simp

text \<open>Copying a block into an array, as \<open>memcpy\<close> and the copy loops do.\<close>

definition memcpyTo :: "'a list \<Rightarrow> nat \<Rightarrow> 'a list \<Rightarrow> 'a list option" where
  "memcpyTo dst off src =
     (if off + length src \<le> length dst then Some (take off dst @ src @ drop (off + length src) dst) else None)"

lemma memcpyTo_in [simp]:
  "off + length src \<le> length dst \<Longrightarrow> memcpyTo dst off src = Some (take off dst @ src @ drop (off + length src) dst)"
  by (simp add: memcpyTo_def)

text \<open>Lists of a known length, element by element.\<close>

lemma replicate_numeral: "replicate (numeral k) x = x # replicate (pred_numeral k) x"
  by (simp add: numeral_eq_Suc)

lemma list_update_Cons_numeral: "(x # xs)[numeral k := y] = x # xs[pred_numeral k := y]"
  by (simp add: numeral_eq_Suc)

section \<open>Machine integers\<close>

lemma xor_right_cancel [simp]: "(a XOR c = b XOR c) = (a = (b :: 'a::len word))"
  by (metis xor.assoc xor_self_eq xor.right_neutral)

lemma xor_left_cancel [simp]: "(c XOR a = c XOR b) = (a = (b :: 'a::len word))"
  by (metis xor.commute xor_right_cancel)

lemma unat_u8_less [simp, bound_simps]: "unat (b :: u8) < 256"
  using unsigned_less [of b] by simp

lemma unat_u16_less [bound_simps]: "unat (b :: u16) < 65536"
  using unsigned_less [of b] by simp

lemma unat_u32_less [bound_simps]: "unat (b :: u32) < 4294967296"
  using unsigned_less [of b] by simp

lemma unat_u64_less [bound_simps]: "unat (b :: u64) < 18446744073709551616"
  using unsigned_less [of b] by simp

lemma unat_of_nat_less:
  assumes "n < 2 ^ LENGTH('a::len)"
  shows "unat (of_nat n :: 'a word) = n"
  using assms by (simp add: unat_of_nat)

lemma and_3_eq_0_iff: "(w :: 'a::len word) AND 3 = 0 \<longleftrightarrow> 4 dvd unat w"
proof -
  have "w AND 3 = take_bit 2 w"
    by (simp add: take_bit_eq_mask mask_eq_exp_minus_1)
  moreover have "take_bit 2 w = 0 \<longleftrightarrow> unat (take_bit 2 w) = 0" by (simp add: unat_eq_0)
  moreover have "unat (take_bit 2 w) = unat w mod 4"
    by (simp only: unsigned_take_bit_eq) (simp add: take_bit_eq_mod)
  ultimately show ?thesis by (simp add: dvd_eq_mod_eq_0)
qed
end
