(* ===== verification/Rts_Codec.thy ===== *)
theory Rts_Codec
  imports Prelude "HOL-Library.Monad_Syntax"
begin

text \<open>
  The handlers of the run-time library that restore initialised data: \<open>copy_zero_init.c\<close>, \<open>copy_decompress_lzss.c\<close>,
  \<open>copy_decompress_rle.c\<close> and \<open>copy_decompress_none.c\<close>, with the formats that the linker writes for them. Memory is bytes by
  address; load data and run data are in the same memory. A loop that reads a stream without an end sequence does not return,
  which is \<open>None\<close>. The locale \<open>image_handler\<close> is what a handler promises to its callers.
\<close>

type_synonym memory = "nat \<Rightarrow> u8"

definition readMem :: "memory \<Rightarrow> nat \<Rightarrow> nat \<Rightarrow> u8 list" where
  "readMem m p n = map m [p..<p + n]"

text \<open>\<open>memcpy\<close> and \<open>memset\<close> store a block.\<close>

definition writeMem :: "memory \<Rightarrow> nat \<Rightarrow> u8 list \<Rightarrow> memory" where
  "writeMem m p bs = (\<lambda>a. if p \<le> a \<and> a < p + length bs then bs ! (a - p) else m a)"

definition READSZ :: "memory \<Rightarrow> nat \<Rightarrow> nat" where
  "READSZ m p = unat (loadUint32Le (readMem m p 4))"

type_synonym handler = "nat \<Rightarrow> nat \<Rightarrow> memory \<Rightarrow> memory option"

section \<open>Handlers\<close>

fun zeroLoop :: "nat \<Rightarrow> nat \<Rightarrow> memory \<Rightarrow> memory" where
  "zeroLoop 0 outbuf m = m"
| "zeroLoop (Suc count) outbuf m = zeroLoop count (outbuf + 1) (m(outbuf := 0))"

definition zero_init_template :: "nat \<Rightarrow> nat \<Rightarrow> bool \<Rightarrow> memory \<Rightarrow> memory" where
  "zero_init_template inbuf outbuf USE_MEMSET m =
     (let count_p = inbuf + 3;
          count = READSZ m count_p in
      if USE_MEMSET then writeMem m outbuf (replicate count 0) else zeroLoop count outbuf m)"

definition zero_init :: "nat \<Rightarrow> nat \<Rightarrow> memory \<Rightarrow> memory option" where
  "zero_init inbuf outbuf m = Some (zero_init_template inbuf outbuf True m)"

definition zero_init_nomemset :: "nat \<Rightarrow> nat \<Rightarrow> memory \<Rightarrow> memory option" where
  "zero_init_nomemset inbuf outbuf m = Some (zero_init_template inbuf outbuf False m)"

definition decompress_none :: "nat \<Rightarrow> nat \<Rightarrow> memory \<Rightarrow> memory option" where
  "decompress_none inbuf outbuf m =
     (let count_p = inbuf + 3;
          count = READSZ m count_p;
          count_p = count_p + 4 in
      Some (writeMem m outbuf (readMem m count_p count)))"

definition LZSS_EOD :: u32 where "LZSS_EOD = 4095"

fun copyWindow :: "nat \<Rightarrow> nat \<Rightarrow> nat \<Rightarrow> memory \<Rightarrow> memory" where
  "copyWindow 0 pos outbuf m = m"
| "copyWindow (Suc len) pos outbuf m = copyWindow len (pos + 1) (outbuf + 1) (m(outbuf := m pos))"

text \<open>Offset, length and the input pointer after the match at \<open>inbuf\<close>.\<close>

definition readMatch :: "memory \<Rightarrow> nat \<Rightarrow> u32 \<times> u32 \<times> nat" where
  "readMatch m inbuf =
     (let offset = ucast (m inbuf) :: u32;
          len = ucast (m (inbuf + 1)) :: u32;
          inbuf = inbuf + 2;
          offset = push_bit 4 offset OR drop_bit 4 (len AND 0xF0);
          len = (len AND 0x0F) + 3 in
      if len = 18 then
        (let length2 = ucast (m inbuf) :: u32;
             inbuf = inbuf + 1 in
         if length2 AND 0x80 \<noteq> 0 then
           (let length3 = ucast (m inbuf) :: u32 in
            (offset, len + ((length2 AND 0x7F) OR push_bit 7 length3), inbuf + 1))
         else (offset, len + length2, inbuf))
      else (offset, len, inbuf))"

text \<open>The eight items behind a flag byte; \<open>Inl\<close> is the return at the end of the data.\<close>

fun lzssItems :: "nat \<Rightarrow> u8 \<Rightarrow> nat \<Rightarrow> nat \<Rightarrow> memory \<Rightarrow> memory + nat \<times> nat \<times> memory" where
  "lzssItems 0 fl inbuf outbuf m = Inr (inbuf, outbuf, m)"
| "lzssItems (Suc i) fl inbuf outbuf m =
     (if fl AND 1 \<noteq> 0 then lzssItems i (drop_bit 1 fl) (inbuf + 1) (outbuf + 1) (m(outbuf := m inbuf))
      else
        (case readMatch m inbuf of (offset, len, inbuf) \<Rightarrow>
           if offset = LZSS_EOD then Inl m
           else lzssItems i (drop_bit 1 fl) inbuf (outbuf + unat len)
                  (copyWindow (unat len) (outbuf - unat offset - 1) outbuf m)))"

partial_function (option) decompress_lzss :: "nat \<Rightarrow> nat \<Rightarrow> memory \<Rightarrow> memory option" where
  "decompress_lzss inbuf outbuf m =
     (case lzssItems 8 (m inbuf) (inbuf + 1) outbuf m of
        Inl m \<Rightarrow> Some m
      | Inr (inbuf, outbuf, m) \<Rightarrow> decompress_lzss inbuf outbuf m)"

text \<open>The run behind a delimiter: its length, its byte and the input pointer behind it; \<open>None\<close> is the end sequence.\<close>

definition rleRun :: "bool \<Rightarrow> u8 \<Rightarrow> memory \<Rightarrow> nat \<Rightarrow> (u32 \<times> u8 \<times> nat) option" where
  "rleRun is_rle24 delim m inbuf =
     (let run_len = ucast (m inbuf) :: u32;
          inbuf = inbuf + 1 in
      if run_len = 0 then
        (let run_len = push_bit 8 (ucast (m inbuf)) OR ucast (m (inbuf + 1));
             inbuf = inbuf + 2 in
         if run_len = 0 then None
         else if is_rle24 \<and> run_len \<le> 0xFF then
           (let run_len = push_bit 8 (push_bit 8 run_len OR ucast (m inbuf)) OR ucast (m (inbuf + 1));
                inbuf = inbuf + 2 in
            Some (run_len, m inbuf, inbuf + 1))
         else Some (run_len, m inbuf, inbuf + 1))
      else if run_len < 4 then Some (run_len, delim, inbuf)
      else Some (run_len, m inbuf, inbuf + 1))"

partial_function (option) rleLoop :: "bool \<Rightarrow> u8 \<Rightarrow> nat \<Rightarrow> nat \<Rightarrow> memory \<Rightarrow> memory option" where
  "rleLoop is_rle24 delim inbuf outbuf m =
     (let ch = m inbuf;
          inbuf = inbuf + 1 in
      if ch \<noteq> delim then rleLoop is_rle24 delim inbuf (outbuf + 1) (m(outbuf := ch))
      else
        (case rleRun is_rle24 delim m inbuf of
           None \<Rightarrow> Some m
         | Some (run_len, ch, inbuf) \<Rightarrow>
             rleLoop is_rle24 delim inbuf (outbuf + unat run_len) (writeMem m outbuf (replicate (unat run_len) ch))))"

definition decompress_rle_core :: "bool \<Rightarrow> nat \<Rightarrow> nat \<Rightarrow> memory \<Rightarrow> memory option" where
  "decompress_rle_core is_rle24 inbuf outbuf m = rleLoop is_rle24 (m inbuf) (inbuf + 1) outbuf m"

definition decompress_rle :: "nat \<Rightarrow> nat \<Rightarrow> memory \<Rightarrow> memory option" where
  "decompress_rle inbuf outbuf m = decompress_rle_core False inbuf outbuf m"

definition decompress_rle24 :: "nat \<Rightarrow> nat \<Rightarrow> memory \<Rightarrow> memory option" where
  "decompress_rle24 inbuf outbuf m = decompress_rle_core True inbuf outbuf m"

section \<open>Memory blocks\<close>

lemma length_readMem [simp]: "length (readMem m p n) = n"
  by (simp add: readMem_def)

lemma nth_readMem: "i < n \<Longrightarrow> readMem m p n ! i = m (p + i)"
  by (simp add: readMem_def)

lemma writeMem_at: "i < length bs \<Longrightarrow> writeMem m p bs (p + i) = bs ! i"
  by (simp add: writeMem_def)

lemma writeMem_out: "a < p \<or> p + length bs \<le> a \<Longrightarrow> writeMem m p bs a = m a"
  by (auto simp: writeMem_def)

lemma writeMem_Nil [simp]: "writeMem m p [] = m"
  by (rule ext) (auto simp: writeMem_def)

lemma writeMem_snoc: "(writeMem m p bs)(p + length bs := v) = writeMem m p (bs @ [v])"
  by (rule ext) (auto simp: writeMem_def nth_append)

lemma writeMem_Cons: "writeMem (m(p := v)) (Suc p) bs = writeMem m p (v # bs)"
  by (rule ext) (auto simp: writeMem_def nth_Cons')

lemma readMem_writeMem_same: "readMem (writeMem m p bs) p (length bs) = bs"
  by (rule nth_equalityI) (simp_all add: nth_readMem writeMem_at)

definition apart :: "nat \<Rightarrow> nat \<Rightarrow> nat \<Rightarrow> nat \<Rightarrow> bool" where
  "apart p k q n \<longleftrightarrow> p + k \<le> q \<or> q + n \<le> p"

lemma readMem_writeMem_apart: "apart p (length bs) q n \<Longrightarrow> readMem (writeMem m p bs) q n = readMem m q n"
  by (rule nth_equalityI) (auto simp: nth_readMem apart_def intro!: writeMem_out)

lemma zeroLoop_writeMem: "zeroLoop n p m = writeMem m p (replicate n 0)"
  by (induction n arbitrary: p m) (simp_all add: writeMem_Cons)

section \<open>The compressed format\<close>

datatype tok = Byte u8 | Match u32 u32

fun copyOut :: "nat \<Rightarrow> nat \<Rightarrow> u8 list \<Rightarrow> u8 list" where
  "copyOut off 0 out = out"
| "copyOut off (Suc n) out = copyOut off n (out @ [out ! (length out - off - 1)])"

primrec expandTok :: "u8 list \<Rightarrow> tok \<Rightarrow> u8 list" where
  "expandTok out (Byte b) = out @ [b]"
| "expandTok out (Match off len) = copyOut (unat off) (unat len) out"

definition expand :: "u8 list \<Rightarrow> tok list \<Rightarrow> u8 list" where
  "expand out ts = foldl expandTok out ts"

definition matchBytes :: "u32 \<Rightarrow> u32 \<Rightarrow> u8 list" where
  "matchBytes off len =
     (let e = len - 18 in
      [ucast (drop_bit 4 off), push_bit 4 (ucast off) OR (ucast (if len < 18 then len - 3 else 15) AND 15)] @
      (if len < 18 then [] else if e < 128 then [ucast e] else [(ucast e AND 127) OR 128, ucast (drop_bit 7 e)]))"

primrec tokBytes :: "tok \<Rightarrow> u8 list" where
  "tokBytes (Byte b) = [b]"
| "tokBytes (Match off len) = matchBytes off len"

definition endBytes :: "u8 list" where "endBytes = [0xFF, 0xF0]"

text \<open>The offset 4095 is the end mark, and a match reaches back into what has been written.\<close>

primrec tokOk :: "u8 list \<Rightarrow> tok \<Rightarrow> bool" where
  "tokOk out (Byte b) = True"
| "tokOk out (Match off len) = (unat off < length out \<and> off < 4095 \<and> 3 \<le> len \<and> len \<le> 32785)"

fun toksOk :: "u8 list \<Rightarrow> tok list \<Rightarrow> bool" where
  "toksOk out [] = True"
| "toksOk out (t # ts) = (tokOk out t \<and> toksOk (expandTok out t) ts)"

primrec flagByte :: "tok list \<Rightarrow> u8" where
  "flagByte [] = 0"
| "flagByte (t # ts) = (case t of Byte _ \<Rightarrow> 1 | Match _ _ \<Rightarrow> 0) OR push_bit 1 (flagByte ts)"

text \<open>Groups of eight items, each behind its flag byte; the end mark is one more item.\<close>

fun lzssStream :: "tok list \<Rightarrow> u8 list" where
  "lzssStream ts =
     (if length ts < 8 then flagByte ts # concat (map tokBytes ts) @ endBytes
      else flagByte (take 8 ts) # concat (map tokBytes (take 8 ts)) @ lzssStream (drop 8 ts))"

declare lzssStream.simps [simp del]

lemma masks: "(0xF0 :: u32) = push_bit 4 (mask 4)" "(0x0F :: u32) = mask 4" "(0x7F :: u32) = mask 7"
  "(15 :: u8) = mask 4" "(127 :: u8) = mask 7"
  by (simp_all add: mask_eq_exp_minus_1)

lemma bit_128: "bit (128 :: int) n \<longleftrightarrow> n = 7"
proof -
  have "(128 :: int) = 2 ^ 7" by simp
  then show ?thesis by (simp only: bit_exp_iff) auto
qed

lemma bit_u32_beyond: "unat (w :: u32) < 2 ^ k \<Longrightarrow> k \<le> n \<Longrightarrow> \<not> bit w n"
proof -
  assume a: "unat w < 2 ^ k" "k \<le> n"
  then have "take_bit k (unat w) = unat w" by (intro take_bit_nat_eq_self)
  then have "\<not> bit (unat w) n" using a(2) by (metis bit_take_bit_iff not_le)
  then show ?thesis by (auto simp: bit_unsigned_iff dest: bit_imp_le_length)
qed

lemma match_offset:
  assumes "unat off < 4096"
  shows "push_bit 4 (ucast (ucast (drop_bit 4 off) :: u8)) OR
    drop_bit 4 (ucast (push_bit 4 (ucast off) OR (l AND 15) :: u8) AND 0xF0) = (off :: u32)"
  unfolding masks
proof (rule bit_word_eqI)
  fix n assume n: "n < LENGTH(32)"
  have b: "\<not> bit off n" if "12 \<le> n" using bit_u32_beyond [of off 12 n] assms that by simp
  show "bit (push_bit 4 (ucast (ucast (drop_bit 4 off) :: u8)) OR
    drop_bit 4 (ucast (push_bit 4 (ucast off) OR (l AND mask 4) :: u8) AND push_bit 4 (mask 4)) :: u32) n = bit off n"
    using n b by (cases "n < 4"; cases "n < 12") (auto simp: bit_simps)
qed

lemma match_low:
  "ucast (push_bit 4 (ucast (off :: u32)) OR (l AND 15) :: u8) AND 0x0F = (ucast (l AND 15) :: u32)"
  unfolding masks by (rule bit_word_eqI) (auto simp: bit_simps)

lemma extended_length:
  assumes "unat e < 32768"
  shows "(ucast ((ucast e AND 127) OR 128 :: u8) AND 0x7F) OR push_bit 7 (ucast (ucast (drop_bit 7 e) :: u8)) = (e :: u32)"
  unfolding masks
proof (rule bit_word_eqI)
  fix n assume n: "n < LENGTH(32)"
  have b: "\<not> bit e n" if "15 \<le> n" using bit_u32_beyond [of e 15 n] assms that by simp
  show "bit ((ucast ((ucast e AND mask 7) OR 128 :: u8) AND mask 7) OR
      push_bit 7 (ucast (ucast (drop_bit 7 e) :: u8)) :: u32) n = bit e n"
    using n b by (cases "n < 7"; cases "n < 15") (auto simp: bit_simps bit_128)
qed

lemma extended_flag: "ucast ((x AND 127) OR 128 :: u8) AND (0x80 :: u32) \<noteq> 0"
proof -
  have "bit (ucast ((x AND 127) OR 128 :: u8) AND (128 :: u32)) 7" by (simp add: bit_simps bit_128)
  then show ?thesis by auto
qed

lemma short_flag:
  assumes "unat e < 128"
  shows "ucast (ucast (e :: u32) :: u8) AND (0x80 :: u32) = 0" "ucast (ucast e :: u8) = e"
proof -
  have b: "\<not> bit e n" if "7 \<le> n" for n using bit_u32_beyond [of e 7 n] assms that by simp
  show "ucast (ucast e :: u8) AND (0x80 :: u32) = 0"
    by (rule bit_word_eqI) (use b in \<open>auto simp: bit_simps bit_128\<close>)
  show "ucast (ucast e :: u8) = e"
  proof (rule bit_word_eqI)
    fix n assume "n < LENGTH(32)"
    then show "bit (ucast (ucast e :: u8) :: u32) n = bit e n" using b [of n] by (cases "n < 7") (auto simp: bit_simps)
  qed
qed

lemma low_length:
  assumes "unat l < 16"
  shows "ucast (ucast (l :: u32) AND 15 :: u8) = l"
  unfolding masks
proof (rule bit_word_eqI)
  fix n assume "n < LENGTH(32)"
  have b: "\<not> bit l n" if "4 \<le> n" using bit_u32_beyond [of l 4 n] assms that by simp
  then show "bit (ucast (ucast l AND mask 4 :: u8) :: u32) n = bit l n" by (cases "n < 4") (auto simp: bit_simps)
qed

lemma readMatch_bytes:
  assumes "readMem m p (length (matchBytes off len)) = matchBytes off len"
    and "unat off < 4096" "3 \<le> unat len" "unat len \<le> 32785"
  shows "readMatch m p = (off, len, p + length (matchBytes off len))"
proof -
  have at: "m (p + i) = matchBytes off len ! i" if "i < length (matchBytes off len)" for i
    using nth_readMem [of i _ m p] assms(1) that by metis
  let ?l = "if len < 18 then len - 3 else 15"
  have l: "unat ?l < 16" using assms(3) by (auto simp: unat_sub word_le_nat_alt word_less_nat_alt)
  have m0: "m p = ucast (drop_bit 4 off)" "m (Suc p) = push_bit 4 (ucast off) OR (ucast ?l AND 15)"
    using at [of 0] at [of 1] by (simp_all add: matchBytes_def Let_def)
  have off: "push_bit 4 (ucast (m p)) OR drop_bit 4 (ucast (m (Suc p)) AND 0xF0) = off"
    unfolding m0 by (rule match_offset [OF assms(2)])
  have low: "ucast (m (Suc p)) AND 0x0F = ?l" unfolding m0 match_low by (rule low_length [OF l])
  show ?thesis
  proof (cases "len < 18")
    case True
    then have "len - 3 + 3 \<noteq> 18" by auto
    with True off low show ?thesis by (simp add: readMatch_def Let_def matchBytes_def)
  next
    case False
    let ?e = "len - 18"
    have e: "unat ?e = unat len - 18" using False by (simp add: unat_sub word_le_nat_alt not_less)
    then have e2: "unat ?e < 32768" using assms(4) by simp
    show ?thesis
    proof (cases "?e < 128")
      case True
      then have e3: "unat ?e < 128" by (simp add: word_less_nat_alt)
      have "m (p + 2) = ucast ?e" using at [of 2] True False by (simp add: matchBytes_def Let_def)
      with True False off low short_flag [OF e3] show ?thesis
        by (simp add: readMatch_def Let_def matchBytes_def)
    next
      case ge: False
      have m2: "m (p + 2) = (ucast ?e AND 127) OR 128" "m (Suc (Suc (Suc p))) = ucast (drop_bit 7 ?e)"
        using at [of 2] at [of 3] ge False by (simp_all add: matchBytes_def Let_def eval_nat_numeral)
      with ge False off low extended_length [OF e2] extended_flag [of "ucast ?e"] show ?thesis
        by (simp add: readMatch_def Let_def matchBytes_def)
    qed
  qed
qed

section \<open>Decompression\<close>

lemma length_copyOut: "length (copyOut off n out) = length out + n"
  by (induction n arbitrary: out) simp_all

lemma take_copyOut: "take (length out) (copyOut off n out) = out"
proof (induction n arbitrary: out)
  case (Suc n)
  from Suc [of "out @ [out ! (length out - off - 1)]"] have
    "take (length out) (take (Suc (length out)) (copyOut off n (out @ [out ! (length out - off - 1)]))) =
      take (length out) (out @ [out ! (length out - off - 1)])" by simp
  then show ?case by (simp add: min_def)
qed simp

lemma copyWindow_copyOut:
  assumes "off < length out"
  shows "copyWindow n (p + length out - off - 1) (p + length out) (writeMem m p out) = writeMem m p (copyOut off n out)"
  using assms
proof (induction n arbitrary: out)
  case (Suc n)
  let ?v = "out ! (length out - off - 1)"
  have "writeMem m p out (p + length out - off - 1) = ?v"
    using writeMem_at [of "length out - off - 1" out m p] Suc.prems by simp
  moreover have "Suc (p + length out - off - 1) = p + length (out @ [?v]) - off - 1" using Suc.prems by simp
  ultimately show ?case using Suc.IH [of "out @ [?v]"] Suc.prems by (simp add: writeMem_snoc)
qed simp

lemma expand_simps [simp]: "expand out [] = out" "expand out (t # ts) = expand (expandTok out t) ts"
  by (simp_all add: expand_def)

lemma length_expandTok: "length out \<le> length (expandTok out t)"
  by (cases t) (simp_all add: length_copyOut)

lemma length_expand: "length out \<le> length (expand out ts)"
  by (induction ts arbitrary: out) (auto intro: order_trans length_expandTok)

lemma apart_part:
  "apart p k q n \<Longrightarrow> k' \<le> k \<Longrightarrow> q \<le> q' \<Longrightarrow> q' + n' \<le> q + n \<Longrightarrow> apart p k' q' n'"
  by (auto simp: apart_def)

lemma readMem_append: "readMem m p (j + k) = readMem m p j @ readMem m (p + j) k"
  by (rule nth_equalityI) (auto simp: nth_readMem nth_append)

lemma readMem_eq_append:
  "readMem m p (length (xs @ ys)) = xs @ ys \<longleftrightarrow> readMem m p (length xs) = xs \<and> readMem m (p + length xs) (length ys) = ys"
  by (simp add: readMem_append)

primrec isByte :: "tok \<Rightarrow> bool" where
  "isByte (Byte b) = True"
| "isByte (Match off len) = False"

lemma and_one_bit: "w AND 1 \<noteq> 0 \<longleftrightarrow> bit (w :: u8) 0"
  by (simp add: and_one_eq bit_0 odd_iff_mod_2_eq_one)

lemma bit_flagByte: "bit (flagByte ts) j \<longleftrightarrow> j < length ts \<and> j < 8 \<and> isByte (ts ! j)"
proof (induction ts arbitrary: j)
  case (Cons t ts)
  have s: "bit (push_bit 1 (flagByte ts)) j \<longleftrightarrow> 0 < j \<and> j < 8 \<and> bit (flagByte ts) (j - 1)"
    by (simp only: bit_push_bit_iff) (auto dest: bit_imp_le_length)
  have *: "bit (flagByte (t # ts)) j \<longleftrightarrow> (j = 0 \<and> isByte t) \<or> (0 < j \<and> j < 8 \<and> bit (flagByte ts) (j - 1))"
    unfolding flagByte.simps bit_or_iff s by (cases t) (auto simp: bit_1_iff)
  show ?case unfolding * Cons by (cases j) auto
qed simp

definition flagsFor :: "u8 \<Rightarrow> tok list \<Rightarrow> bool" where
  "flagsFor fl ts \<longleftrightarrow> (\<forall>j < length ts. bit fl j \<longleftrightarrow> isByte (ts ! j))"

lemma flagsFor_Cons:
  "flagsFor fl (t # ts) \<longleftrightarrow> (bit fl 0 \<longleftrightarrow> isByte t) \<and> flagsFor (drop_bit 1 fl) ts"
  by (auto simp: flagsFor_def bit_drop_bit_eq nth_Cons' less_Suc_eq_0_disj)

lemma lzssItems_match:
  assumes "tokOk out (Match off len)" "apart p (length out) q (length (matchBytes off len))"
    and "readMem m q (length (matchBytes off len)) = matchBytes off len" "\<not> bit fl 0"
  shows "lzssItems (Suc i) fl q (p + length out) (writeMem m p out) =
    lzssItems i (drop_bit 1 fl) (q + length (matchBytes off len)) (p + length (expandTok out (Match off len)))
      (writeMem m p (expandTok out (Match off len)))"
proof -
  have off: "unat off < length out" "off \<noteq> LZSS_EOD" "unat off < 4096" "3 \<le> unat len" "unat len \<le> 32785"
    using assms(1) by (auto simp: word_less_nat_alt word_le_nat_alt LZSS_EOD_def)
  have "readMatch (writeMem m p out) q = (off, len, q + length (matchBytes off len))"
    by (rule readMatch_bytes) (use assms off in \<open>simp_all add: readMem_writeMem_apart\<close>)
  moreover have "p + length out - unat off - Suc 0 = p + length out - unat off - 1" by simp
  ultimately show ?thesis using off assms(4) copyWindow_copyOut [OF off(1), of "unat len" p m]
    by (simp add: length_copyOut and_one_bit add.assoc)
qed

lemma lzssItems_byte:
  assumes "apart p (length out) q 1" "m q = b" "bit fl 0"
  shows "lzssItems (Suc i) fl q (p + length out) (writeMem m p out) =
    lzssItems i (drop_bit 1 fl) (q + 1) (p + length (out @ [b])) (writeMem m p (out @ [b]))"
  using assms and_one_bit [of fl] by (auto simp: writeMem_snoc apart_def writeMem_out)

text \<open>The state of the decoder after the items that produce \<open>out\<close>: memory is the initial one with \<open>out\<close> at the run address.\<close>

lemma lzssItems_tokens:
  assumes "length ts \<le> i" "toksOk out ts" "flagsFor fl ts"
    and "apart p (length (expand out ts)) q (length (concat (map tokBytes ts)))"
    and "readMem m q (length (concat (map tokBytes ts))) = concat (map tokBytes ts)"
  shows "lzssItems i fl q (p + length out) (writeMem m p out) =
    lzssItems (i - length ts) (drop_bit (length ts) fl) (q + length (concat (map tokBytes ts)))
      (p + length (expand out ts)) (writeMem m p (expand out ts))"
  using assms
proof (induction ts arbitrary: i out fl q)
  case (Cons t ts)
  let ?bs = "tokBytes t"
  obtain k where i: "i = Suc k" using Cons.prems(1) by (cases i) auto
  have r: "readMem m q (length ?bs) = ?bs"
    "readMem m (q + length ?bs) (length (concat (map tokBytes ts))) = concat (map tokBytes ts)"
    using Cons.prems(5) readMem_eq_append [of m q ?bs "concat (map tokBytes ts)"] by simp_all
  have le: "length out \<le> length (expand out (t # ts))" by (rule length_expand)
  have step: "lzssItems i fl q (p + length out) (writeMem m p out) =
    lzssItems k (drop_bit 1 fl) (q + length ?bs) (p + length (expandTok out t)) (writeMem m p (expandTok out t))"
  proof (cases t)
    case (Byte b)
    have "apart p (length out) q 1" using Cons.prems(4) le by (rule apart_part) (simp_all add: Byte)
    moreover have "m q = b" using r(1) Byte by (simp add: readMem_def)
    moreover have "bit fl 0" using Cons.prems(3) Byte by (simp add: flagsFor_Cons)
    ultimately show ?thesis unfolding i Byte using lzssItems_byte [of p out q m b fl k]
      by (simp del: lzssItems.simps)
  next
    case (Match off len)
    have "apart p (length out) q (length ?bs)" using Cons.prems(4) le by (rule apart_part) simp_all
    with Match Cons.prems r(1) i show ?thesis
      using lzssItems_match [of out off len p q m fl k] by (simp add: flagsFor_Cons del: lzssItems.simps)
  qed
  have "apart p (length (expand (expandTok out t) ts)) (q + length ?bs) (length (concat (map tokBytes ts)))"
    using Cons.prems(4) by (rule apart_part) simp_all
  from Cons.IH [OF _ _ _ this r(2)] Cons.prems i show ?case
    unfolding step by (simp add: flagsFor_Cons add.assoc)
qed simp

text \<open>The end mark stops the decoder with the output in place.\<close>

lemma lzssItems_end:
  assumes "apart p (length out) q 2" "readMem m q 2 = endBytes" "\<not> bit fl 0" "0 < i"
  shows "lzssItems i fl q (p + length out) (writeMem m p out) = Inl (writeMem m p out)"
proof -
  let ?m = "writeMem m p out"
  have "readMem ?m q 2 = endBytes" using assms(1,2) by (simp add: readMem_writeMem_apart)
  then have q: "?m q = 0xFF" "?m (q + 1) = 0xF0" by (simp_all add: readMem_def endBytes_def eval_nat_numeral)
  have "fst (readMatch ?m q) = LZSS_EOD" using q by (simp add: readMatch_def Let_def LZSS_EOD_def)
  then show ?thesis using assms(3,4) and_one_bit [of fl] by (cases i) (auto split: prod.splits)
qed

lemma expand_append: "expand out (ts @ us) = expand (expand out ts) us"
  by (simp add: expand_def)

lemma toksOk_append: "toksOk out (ts @ us) \<longleftrightarrow> toksOk out ts \<and> toksOk (expand out ts) us"
  by (induction ts arbitrary: out) auto

lemma flagsFor_flagByte: "flagsFor (flagByte (take 8 ts)) (take 8 ts)"
  by (simp add: flagsFor_def bit_flagByte)

lemma length_endBytes [simp]: "length endBytes = 2"
  by (simp add: endBytes_def)

lemma decompress_lzss_items:
  assumes "toksOk out ts" "apart p (length (expand out ts)) q (length (lzssStream ts))"
    and "readMem m q (length (lzssStream ts)) = lzssStream ts"
  shows "decompress_lzss q (p + length out) (writeMem m p out) = Some (writeMem m p (expand out ts))"
  using assms
proof (induction ts arbitrary: out q rule: lzssStream.induct)
  case (1 ts)
  let ?m = "writeMem m p out"
  let ?us = "take 8 ts"
  let ?bs = "concat (map tokBytes ?us)"
  define rest where "rest = (if length ts < 8 then endBytes else lzssStream (drop 8 ts))"
  have str: "lzssStream ts = flagByte ?us # ?bs @ rest"
    by (subst lzssStream.simps) (simp add: rest_def)
  have rd: "readMem m q 1 = [flagByte ?us]" "readMem m (Suc q) (length ?bs) = ?bs"
    "readMem m (Suc q + length ?bs) (length rest) = rest"
    using "1.prems"(3) readMem_eq_append [of m q "[flagByte ?us]" "?bs @ rest"] readMem_eq_append [of m "Suc q" ?bs rest]
    by (simp_all add: str)
  have ts: "ts = ?us @ drop 8 ts" by simp
  have ex: "expand out ts = expand (expand out ?us) (drop 8 ts)"
    by (subst ts) (simp only: expand_append)
  have ok: "toksOk out ?us" "toksOk (expand out ?us) (drop 8 ts)"
    using "1.prems"(1) toksOk_append [of out ?us "drop 8 ts"] by simp_all
  have le: "length (expand out ?us) \<le> length (expand out ts)" unfolding ex by (rule length_expand)
  have ap: "apart p (length (expand out ?us)) (Suc q) (length ?bs)"
    "apart p (length (expand out ts)) (Suc q + length ?bs) (length rest)" "apart p (length out) q 1"
    using "1.prems"(2) le length_expand [of out ts] by (auto simp: apart_def str)
  have q: "?m q = flagByte ?us" using rd(1) readMem_writeMem_apart [OF ap(3), of m] by (simp add: readMem_def)
  have items: "lzssItems 8 (?m q) (q + 1) (p + length out) ?m =
    lzssItems (8 - length ?us) (drop_bit (length ?us) (flagByte ?us)) (Suc q + length ?bs)
      (p + length (expand out ?us)) (writeMem m p (expand out ?us))"
    using lzssItems_tokens [OF _ ok(1) flagsFor_flagByte ap(1) rd(2), of 8] q by simp
  show ?case
  proof (cases "length ts < 8")
    case True
    then have us: "?us = ts" "rest = endBytes" by (simp_all add: rest_def)
    have "\<not> bit (drop_bit (length ts) (flagByte ts)) 0" by (simp add: bit_drop_bit_eq bit_flagByte)
    then have "lzssItems 8 (?m q) (q + 1) (p + length out) ?m = Inl (writeMem m p (expand out ts))"
      unfolding items us(1)
      by (rule lzssItems_end [rotated 2]) (use True ap(2) rd(3) us in \<open>simp_all\<close>)
    then show ?thesis by (simp add: decompress_lzss.simps)
  next
    case False
    then have l: "length ?us = 8" "rest = lzssStream (drop 8 ts)" by (simp_all add: rest_def)
    have "decompress_lzss (Suc q + length ?bs) (p + length (expand out ?us)) (writeMem m p (expand out ?us)) =
      Some (writeMem m p (expand (expand out ?us) (drop 8 ts)))"
      by (rule "1.IH" [OF False ok(2)]) (use ap(2) rd(3) l in \<open>simp_all add: ex\<close>)
    then show ?thesis using items l(1) by (subst decompress_lzss.simps) (simp add: ex)
  qed
qed

section \<open>Run lengths\<close>

datatype rleTok = Lit u8 | Run nat u8

primrec rleExpand :: "rleTok \<Rightarrow> u8 list" where
  "rleExpand (Lit b) = [b]"
| "rleExpand (Run n b) = replicate n b"

definition runBytes :: "nat \<Rightarrow> u8 list" where
  "runBytes n =
     (let w = of_nat n :: u32 in
      if n < 256 then [of_nat n]
      else if n < 65536 then [0, ucast (drop_bit 8 w), ucast w]
      else [0, 0, ucast (drop_bit 16 w), ucast (drop_bit 8 w), ucast w])"

primrec rleBytes :: "u8 \<Rightarrow> rleTok \<Rightarrow> u8 list" where
  "rleBytes delim (Lit b) = (if b = delim then [delim, 1] else [b])"
| "rleBytes delim (Run n b) = delim # runBytes n @ [b]"

primrec rleOk :: "bool \<Rightarrow> rleTok \<Rightarrow> bool" where
  "rleOk is24 (Lit b) = True"
| "rleOk is24 (Run n b) = (4 \<le> n \<and> n < (if is24 then 2 ^ 24 else 2 ^ 16))"

definition rleStream :: "u8 \<Rightarrow> rleTok list \<Rightarrow> u8 list" where
  "rleStream delim ts = delim # concat (map (rleBytes delim) ts) @ [delim, 0, 0, 0]"

lemma u32_bytes:
  assumes "unat (w :: u32) < 65536"
  shows "push_bit 8 (ucast (ucast (drop_bit 8 w) :: u8)) OR ucast (ucast w :: u8) = w"
proof (rule bit_word_eqI)
  fix n assume n: "n < LENGTH(32)"
  have b: "\<not> bit w n" if "16 \<le> n" using bit_u32_beyond [of w 16 n] assms that by simp
  show "bit (push_bit 8 (ucast (ucast (drop_bit 8 w) :: u8)) OR ucast (ucast w :: u8) :: u32) n = bit w n"
    using n b by (cases "n < 8"; cases "n < 16") (auto simp: bit_simps)
qed

lemma u32_bytes3:
  assumes "unat (w :: u32) < 2 ^ 24"
  shows "push_bit 8 (push_bit 8 (ucast (ucast (drop_bit 16 w) :: u8)) OR ucast (ucast (drop_bit 8 w) :: u8)) OR
    ucast (ucast w :: u8) = w"
proof (rule bit_word_eqI)
  fix n assume n: "n < LENGTH(32)"
  have b: "\<not> bit w n" if "24 \<le> n" using bit_u32_beyond [of w 24 n] assms that by simp
  show "bit (push_bit 8 (push_bit 8 (ucast (ucast (drop_bit 16 w) :: u8)) OR ucast (ucast (drop_bit 8 w) :: u8)) OR
    ucast (ucast w :: u8) :: u32) n = bit w n"
    using n b by (cases "n < 8"; cases "n < 16"; cases "n < 24") (auto simp: bit_simps)
qed

lemma rleRun_run:
  assumes ok: "rleOk is24 (Run n b)" and rd: "readMem m q (length (runBytes n @ [b])) = runBytes n @ [b]"
  shows "rleRun is24 delim m q = Some (of_nat n, b, q + length (runBytes n @ [b]))"
proof -
  let ?w = "of_nat n :: u32"
  have at: "m (q + i) = (runBytes n @ [b]) ! i" if "i < length (runBytes n @ [b])" for i
    using nth_readMem [of i _ m q] rd that by metis
  have n: "4 \<le> n" "n < 2 ^ 24" "\<not> is24 \<Longrightarrow> n < 65536" using ok by (auto split: if_splits)
  have w: "unat ?w = n" using n(2) by (simp add: unsigned_of_nat take_bit_nat_eq_self)
  consider "n < 256" | "256 \<le> n" "n < 65536" | "65536 \<le> n" by linarith
  then show ?thesis
  proof cases
    case 1
    have q: "m q = of_nat n" "m (Suc q) = b" using at [of 0] at [of 1] 1 by (simp_all add: runBytes_def)
    have "ucast (of_nat n :: u8) = ?w" using 1 by (simp add: word_unat_eq_iff unsigned_of_nat unsigned_ucast_eq take_bit_nat_eq_self)
    moreover have "?w \<noteq> 0" "\<not> ?w < 4" using w n(1) by (auto simp: word_less_nat_alt)
    ultimately show ?thesis using q 1 by (simp add: rleRun_def Let_def runBytes_def)
  next
    case 2
    have q: "m q = 0" "m (q + 1) = ucast (drop_bit 8 ?w)" "m (q + 1 + 1) = ucast ?w" "m (q + 1 + 2) = b"
      using at [of 0] at [of 1] at [of "Suc (Suc 0)"] at [of "Suc (Suc (Suc 0))"] 2 by (simp_all add: runBytes_def Let_def)
    have "push_bit 8 (ucast (m (q + 1))) OR ucast (m (q + 1 + 1)) = ?w"
      unfolding q by (rule u32_bytes) (use 2 w in simp)
    moreover have "?w \<noteq> 0" "\<not> ?w \<le> 0xFF" using w 2 by (auto simp: word_le_nat_alt)
    ultimately show ?thesis using q(1,4) 2 by (simp add: rleRun_def Let_def runBytes_def)
  next
    case 3
    have q: "m q = 0" "m (q + 1) = 0" "m (q + 1 + 1) = ucast (drop_bit 16 ?w)" "m (q + 1 + 2) = ucast (drop_bit 8 ?w)"
      "m (q + 1 + 2 + 1) = ucast ?w" "m (q + 1 + 2 + 2) = b"
      using at [of 0] at [of 1] at [of "Suc (Suc 0)"] at [of "Suc (Suc (Suc 0))"] at [of "Suc (Suc (Suc (Suc 0)))"] at [of "Suc (Suc (Suc (Suc (Suc 0))))"] 3 by (simp_all add: runBytes_def Let_def)
    have msb: "unat (ucast (m (q + 1 + 1)) :: u32) = n div 65536"
      unfolding q using 3 n(2) w
      by (simp add: unsigned_ucast_eq unsigned_drop_bit_eq drop_bit_eq_div take_bit_eq_mod unat_div_distrib unat_mod_distrib)
    have "push_bit 8 (push_bit 8 (ucast (m (q + 1 + 1))) OR ucast (m (q + 1 + 2))) OR ucast (m (q + 1 + 2 + 1)) = ?w"
      unfolding q by (rule u32_bytes3) (use n(2) w in simp)
    moreover have "(ucast (m (q + 1 + 1)) :: u32) \<noteq> 0" "(ucast (m (q + 1 + 1)) :: u32) \<le> 0xFF"
      using msb 3 n(2) by (auto simp: word_le_nat_alt)
    moreover have "is24" using n(3) 3 by linarith
    ultimately show ?thesis using q(1,2,6) 3 by (simp add: rleRun_def Let_def runBytes_def)
  qed
qed

lemma writeMem_append: "writeMem (writeMem m p xs) (p + length xs) ys = writeMem m p (xs @ ys)"
  by (rule ext) (auto simp: writeMem_def nth_append)

lemma rleLoop_token:
  assumes ok: "rleOk is24 t" and ap: "apart p (length out) q (length (rleBytes delim t))"
    and rd: "readMem m q (length (rleBytes delim t)) = rleBytes delim t"
  shows "rleLoop is24 delim q (p + length out) (writeMem m p out) =
    rleLoop is24 delim (q + length (rleBytes delim t)) (p + length (out @ rleExpand t)) (writeMem m p (out @ rleExpand t))"
proof -
  let ?m = "writeMem m p out"
  have r: "readMem ?m q (length (rleBytes delim t)) = rleBytes delim t" using ap rd by (simp add: readMem_writeMem_apart)
  show ?thesis
  proof (cases t)
    case (Lit b)
    show ?thesis
    proof (cases "b = delim")
      case True
      then have "?m q = delim" "?m (Suc q) = 1" using r Lit by (simp_all add: readMem_def eval_nat_numeral)
      then show ?thesis using True Lit
        by (subst rleLoop.simps) (simp add: rleRun_def Let_def writeMem_append [where ys = "[_]", simplified])
    next
      case False
      then have "?m q = b" using r Lit by (simp add: readMem_def)
      then show ?thesis using False Lit by (subst rleLoop.simps) (simp add: Let_def writeMem_snoc)
    qed
  next
    case (Run n b)
    have q: "?m q = delim" "readMem ?m (Suc q) (length (runBytes n @ [b])) = runBytes n @ [b]"
      using r Run readMem_eq_append [of ?m q "[delim]" "runBytes n @ [b]"] by (simp_all add: readMem_def)
    have "n < 2 ^ 32" using ok Run by (auto split: if_splits)
    then have "unat (of_nat n :: u32) = n" by (simp add: unsigned_of_nat take_bit_nat_eq_self)
    with q(1) Run rleRun_run [OF ok [unfolded Run] q(2), of delim] show ?thesis
      by (subst rleLoop.simps) (simp add: Let_def writeMem_append add.assoc)
  qed
qed

lemma rleLoop_tokens:
  assumes "list_all (rleOk is24) ts"
    and "apart p (length (out @ concat (map rleExpand ts))) q (length (concat (map (rleBytes delim) ts) @ [delim, 0, 0, 0]))"
    and "readMem m q (length (concat (map (rleBytes delim) ts) @ [delim, 0, 0, 0])) = concat (map (rleBytes delim) ts) @ [delim, 0, 0, 0]"
  shows "rleLoop is24 delim q (p + length out) (writeMem m p out) = Some (writeMem m p (out @ concat (map rleExpand ts)))"
  using assms
proof (induction ts arbitrary: out q)
  case Nil
  let ?m = "writeMem m p out"
  have "readMem ?m q (length [delim, 0, 0, 0]) = [delim, 0, 0, 0]" using Nil.prems(2,3) by (simp add: readMem_writeMem_apart)
  then have "?m q = delim" "?m (Suc q) = 0" "?m (Suc (Suc q)) = 0" "?m (Suc (Suc (Suc q))) = 0"
    by (simp_all add: readMem_def eval_nat_numeral)
  then show ?case by (subst rleLoop.simps) (simp add: rleRun_def Let_def)
next
  case (Cons t ts)
  let ?bs = "rleBytes delim t" and ?rest = "concat (map (rleBytes delim) ts) @ [delim, 0, 0, 0]"
  have r: "readMem m q (length ?bs) = ?bs" "readMem m (q + length ?bs) (length ?rest) = ?rest"
    using Cons.prems(3) readMem_eq_append [of m q ?bs ?rest] by simp_all
  have "apart p (length out) q (length ?bs)" using Cons.prems(2) by (rule apart_part) simp_all
  moreover have "apart p (length ((out @ rleExpand t) @ concat (map rleExpand ts))) (q + length ?bs) (length ?rest)"
    using Cons.prems(2) by (rule apart_part) simp_all
  ultimately show ?case using rleLoop_token [of is24 t p out q delim m] Cons.IH [OF _ _ r(2), of "out @ rleExpand t"] Cons.prems(1) r(1)
    by simp
qed

lemma decompress_rle_stream:
  assumes "list_all (rleOk is24) ts" "apart p (length (concat (map rleExpand ts))) q (length (rleStream delim ts))"
    and "readMem m q (length (rleStream delim ts)) = rleStream delim ts"
  shows "decompress_rle_core is24 q p m = Some (writeMem m p (concat (map rleExpand ts)))"
proof -
  let ?rest = "concat (map (rleBytes delim) ts) @ [delim, 0, 0, 0]"
  have "readMem m q 1 = [delim]" "readMem m (Suc q) (length ?rest) = ?rest"
    using assms(3) readMem_eq_append [of m q "[delim]" ?rest] by (simp_all add: rleStream_def)
  moreover have "apart p (length ([] @ concat (map rleExpand ts))) (Suc q) (length ?rest)"
    using assms(2) by (auto simp: apart_def rleStream_def)
  ultimately show ?thesis using rleLoop_tokens [OF assms(1), of p "[]" "Suc q" delim m]
    by (simp add: decompress_rle_core_def readMem_def)
qed

section \<open>The contract of a handler\<close>

text \<open>\<open>encoded m a x\<close> says that the record of \<open>x\<close> is at \<open>a\<close>, behind the byte of its handler; \<open>size x\<close> is its length and
  \<open>bytes x\<close> the data it stands for.\<close>

locale image_handler =
  fixes handler :: handler
    and encoded :: "memory \<Rightarrow> nat \<Rightarrow> 'x \<Rightarrow> bool"
    and size :: "'x \<Rightarrow> nat"
    and bytes :: "'x \<Rightarrow> u8 list"
  assumes restores: "encoded m a x \<Longrightarrow> apart r (length (bytes x)) a (size x) \<Longrightarrow>
      handler (a + 1) r m = Some (writeMem m r (bytes x))"

lemma READSZ_store:
  assumes "readMem m (a + 4) 4 = storeUint32Le (of_nat n)" "n < 2 ^ 32"
  shows "READSZ m (a + 4) = n" "READSZ m (4 + a) = n"
proof -
  have "unat (of_nat n :: u32) = n" using assms(2) by (simp add: unsigned_of_nat take_bit_nat_eq_self)
  then show "READSZ m (a + 4) = n" by (simp add: READSZ_def assms(1))
  then show "READSZ m (4 + a) = n" by (simp only: add.commute)
qed

definition zeroAt :: "memory \<Rightarrow> nat \<Rightarrow> nat \<Rightarrow> bool" where
  "zeroAt m a n \<longleftrightarrow> n < 2 ^ 32 \<and> readMem m (a + 4) 4 = storeUint32Le (of_nat n)"

definition plainAt :: "memory \<Rightarrow> nat \<Rightarrow> u8 list \<Rightarrow> bool" where
  "plainAt m a bs \<longleftrightarrow> length bs < 2 ^ 32 \<and>
     readMem m (a + 4) 4 = storeUint32Le (of_nat (length bs)) \<and> readMem m (a + 8) (length bs) = bs"

definition lzssAt :: "memory \<Rightarrow> nat \<Rightarrow> tok list \<Rightarrow> bool" where
  "lzssAt m a ts \<longleftrightarrow> toksOk [] ts \<and> readMem m (a + 1) (length (lzssStream ts)) = lzssStream ts"

definition rleAt :: "bool \<Rightarrow> memory \<Rightarrow> nat \<Rightarrow> u8 \<times> rleTok list \<Rightarrow> bool" where
  "rleAt is24 m a x = (case x of (delim, ts) \<Rightarrow>
     list_all (rleOk is24) ts \<and> readMem m (a + 1) (length (rleStream delim ts)) = rleStream delim ts)"

interpretation zi: image_handler zero_init zeroAt "\<lambda>n. 8" "\<lambda>n. replicate n 0"
  by unfold_locales (simp add: zeroAt_def zero_init_def zero_init_template_def READSZ_store)

interpretation nomemset: image_handler zero_init_nomemset zeroAt "\<lambda>n. 8" "\<lambda>n. replicate n 0"
  by unfold_locales
    (simp add: zeroAt_def zero_init_nomemset_def zero_init_template_def READSZ_store zeroLoop_writeMem)

interpretation plain: image_handler decompress_none plainAt "\<lambda>bs. 8 + length bs" "\<lambda>bs. bs"
  by unfold_locales (simp add: plainAt_def decompress_none_def READSZ_store, simp add: add.commute)

interpretation lzss: image_handler decompress_lzss lzssAt "\<lambda>ts. 1 + length (lzssStream ts)" "\<lambda>ts. expand [] ts"
proof unfold_locales
  fix m a ts r assume a: "lzssAt m a ts" "apart r (length (expand [] ts)) a (1 + length (lzssStream ts))"
  from a(2) have "apart r (length (expand [] ts)) (a + 1) (length (lzssStream ts))" by (rule apart_part) simp_all
  then show "decompress_lzss (a + 1) r m = Some (writeMem m r (expand [] ts))"
    using a(1) decompress_lzss_items [of "[]" ts r "a + 1" m] by (simp add: lzssAt_def)
qed

lemma rle_core_restores:
  assumes "rleAt is24 m a x" "apart r (length (concat (map rleExpand (snd x)))) a (1 + length (rleStream (fst x) (snd x)))"
  shows "decompress_rle_core is24 (a + 1) r m = Some (writeMem m r (concat (map rleExpand (snd x))))"
proof -
  from assms(2) have "apart r (length (concat (map rleExpand (snd x)))) (a + 1) (length (rleStream (fst x) (snd x)))"
    by (rule apart_part) simp_all
  then show ?thesis using assms(1) by (auto simp: rleAt_def split: prod.splits intro!: decompress_rle_stream)
qed

interpretation rle: image_handler decompress_rle "rleAt False" "\<lambda>(delim, ts). 1 + length (rleStream delim ts)"
  "\<lambda>(delim, ts). concat (map rleExpand ts)"
  by unfold_locales (auto simp: decompress_rle_def split: prod.splits dest: rle_core_restores)

interpretation rle24: image_handler decompress_rle24 "rleAt True" "\<lambda>(delim, ts). 1 + length (rleStream delim ts)"
  "\<lambda>(delim, ts). concat (map rleExpand ts)"
  by unfold_locales (auto simp: decompress_rle24_def split: prod.splits dest: rle_core_restores)

end
