(* ===== verification/Rts_Start.thy ===== *)
theory Rts_Start
  imports Rts_Codec
begin

text \<open>
  The run-time library before \<open>main\<close>: \<open>_c_int00\<close> (\<open>boot_cortex_m.c\<close>), \<open>_args_main\<close> and the initialisation of data
  (\<open>autoinit.c\<close>, \<open>autoinit.h\<close>, \<open>cpy_tbl.c\<close>). The tables that the linker writes are constants in flash and are lists here, of
  handlers, of load and run addresses and of copy records. \<open>None\<close> is a handler that does not return or an index outside the table.
\<close>

section \<open>Tables\<close>

definition callHandler :: "handler list \<Rightarrow> nat \<Rightarrow> nat \<Rightarrow> memory \<Rightarrow> memory option" where
  "callHandler handlers load_addr run_addr m =
     do { handler \<leftarrow> fetch handlers (unat (m load_addr)); handler (load_addr + 1) run_addr m }"

fun run_cinit_loop :: "handler list \<Rightarrow> (nat \<times> nat) list \<Rightarrow> memory \<Rightarrow> memory option" where
  "run_cinit_loop handlers [] m = Some m"
| "run_cinit_loop handlers ((load_addr, run_addr) # table) m =
     do { m \<leftarrow> callHandler handlers load_addr run_addr m; run_cinit_loop handlers table m }"

definition run_cinit :: "handler list \<Rightarrow> (nat \<times> nat) list \<Rightarrow> memory \<Rightarrow> memory option" where
  "run_cinit handlers table m = (if handlers \<noteq> [] then run_cinit_loop handlers table m else Some m)"

record copy_record =
  recLoadAddr :: nat
  recRunAddr :: nat
  recSize :: nat

fun copy_in :: "handler list \<Rightarrow> copy_record list \<Rightarrow> memory \<Rightarrow> memory option" where
  "copy_in handlers [] m = Some m"
| "copy_in handlers (crp # recs) m =
     do {
       m \<leftarrow> (if recSize crp \<noteq> 0 then Some (writeMem m (recRunAddr crp) (readMem m (recLoadAddr crp) (recSize crp)))
             else if handlers \<noteq> [] then callHandler handlers (recLoadAddr crp) (recRunAddr crp) m
             else Some m);
       copy_in handlers recs m
     }"

text \<open>No table is \<open>None\<close>.\<close>

definition run_binit :: "handler list \<Rightarrow> copy_record list option \<Rightarrow> memory \<Rightarrow> memory option" where
  "run_binit handlers binit m = (case binit of None \<Rightarrow> Some m | Some recs \<Rightarrow> copy_in handlers recs m)"

fun run_pinit :: "(memory \<Rightarrow> memory option) list \<Rightarrow> memory \<Rightarrow> memory option" where
  "run_pinit [] m = Some m"
| "run_pinit (f # fs) m = do { m \<leftarrow> f m; run_pinit fs m }"

record rts_env =
  handlerTable :: "handler list"
  cinitTable :: "(nat \<times> nat) list"
  binitTable :: "copy_record list option"
  pinitTable :: "(memory \<Rightarrow> memory option) list"
  postCinit :: "memory \<Rightarrow> memory"

text \<open>The specialisations without a watchdog address; this target has no table-driven exceptions.\<close>

definition auto_init_template :: "rts_env \<Rightarrow> bool \<Rightarrow> bool \<Rightarrow> memory \<Rightarrow> memory option" where
  "auto_init_template env RUN_BINIT RUN_PINIT m =
     do {
       m \<leftarrow> (if RUN_BINIT then run_binit (handlerTable env) (binitTable env) m else Some m);
       m \<leftarrow> run_cinit (handlerTable env) (cinitTable env) m;
       let m = postCinit env m;
       (if RUN_PINIT then run_pinit (pinitTable env) m else Some m)
     }"

definition auto_init :: "rts_env \<Rightarrow> memory \<Rightarrow> memory option" where
  "auto_init env m = auto_init_template env True True m"

definition auto_init_nobinit :: "rts_env \<Rightarrow> memory \<Rightarrow> memory option" where
  "auto_init_nobinit env m = auto_init_template env False True m"

definition auto_init_nopinit :: "rts_env \<Rightarrow> memory \<Rightarrow> memory option" where
  "auto_init_nopinit env m = auto_init_template env True False m"

definition auto_init_nobinit_nopinit :: "rts_env \<Rightarrow> memory \<Rightarrow> memory option" where
  "auto_init_nobinit_nopinit env m = auto_init_template env False False m"

section \<open>Entry\<close>

definition args_main :: "(int \<times> nat) option \<Rightarrow> int \<times> nat" where
  "args_main c_args = (case c_args of None \<Rightarrow> (0, 0) | Some (argc, argv) \<Rightarrow> (argc, argv))"

definition mpu_init :: "memory \<Rightarrow> memory" where
  "mpu_init m = m"

definition system_post_cinit :: "memory \<Rightarrow> memory" where
  "system_post_cinit m = m"

definition system_pre_init :: "memory \<Rightarrow> int \<times> memory" where
  "system_pre_init m = (1, m)"

text \<open>The stack pointer, the arguments and the memory that \<open>main\<close> is called with. \<open>mpuInit\<close> and \<open>preInit\<close> are the hooks
  before the initialisation, \<open>autoInit\<close> is the specialisation of \<open>__TI_auto_init\<close> that the linker takes; the program is
  built without a floating-point unit. \<open>exit(1)\<close> follows if \<open>main\<close> returns.\<close>

definition c_int00_template ::
  "(memory \<Rightarrow> memory) \<Rightarrow> (memory \<Rightarrow> int \<times> memory) \<Rightarrow> (memory \<Rightarrow> memory option) \<Rightarrow> (int \<times> nat) option \<Rightarrow> u32 \<Rightarrow>
   bool \<Rightarrow> bool \<Rightarrow> memory \<Rightarrow> (u32 \<times> (int \<times> nat) \<times> memory) option" where
  "c_int00_template mpuInit preInit autoInit c_args STACK_END NEEDS_ARGS NEEDS_INIT m =
     (case preInit (mpuInit m) of (go, m) \<Rightarrow>
        do {
          m \<leftarrow> (if go \<noteq> 0 then if NEEDS_INIT then autoInit m else Some m else Some m);
          Some (STACK_END, if NEEDS_ARGS then args_main c_args else (0, 0), m)
        })"

definition c_int00 where
  "c_int00 mpuInit preInit autoInit c_args STACK_END m =
     c_int00_template mpuInit preInit autoInit c_args STACK_END True True m"

definition c_int00_noargs where
  "c_int00_noargs mpuInit preInit autoInit c_args STACK_END m =
     c_int00_template mpuInit preInit autoInit c_args STACK_END False True m"

definition c_int00_noinit where
  "c_int00_noinit mpuInit preInit autoInit c_args STACK_END m =
     c_int00_template mpuInit preInit autoInit c_args STACK_END True False m"

definition c_int00_noinit_noargs where
  "c_int00_noinit_noargs mpuInit preInit autoInit c_args STACK_END m =
     c_int00_template mpuInit preInit autoInit c_args STACK_END False False m"

section \<open>Initialisation of data\<close>

text \<open>What the linker can put behind a handler index: the codecs of the library, and images encoded for them.\<close>

datatype codec = ZeroInit | Lzss | NoCodec | Rle24

primrec codecHandler :: "codec \<Rightarrow> handler" where
  "codecHandler ZeroInit = zero_init"
| "codecHandler Lzss = decompress_lzss"
| "codecHandler NoCodec = decompress_none"
| "codecHandler Rle24 = decompress_rle24"

datatype image = ZeroImage nat | LzssImage "tok list" | PlainImage "u8 list" | RleImage u8 "rleTok list"

primrec imageCodec :: "image \<Rightarrow> codec" where
  "imageCodec (ZeroImage n) = ZeroInit"
| "imageCodec (LzssImage ts) = Lzss"
| "imageCodec (PlainImage bs) = NoCodec"
| "imageCodec (RleImage delim ts) = Rle24"

primrec imageBytes :: "image \<Rightarrow> u8 list" where
  "imageBytes (ZeroImage n) = replicate n 0"
| "imageBytes (LzssImage ts) = expand [] ts"
| "imageBytes (PlainImage bs) = bs"
| "imageBytes (RleImage delim ts) = concat (map rleExpand ts)"

primrec recordSize :: "image \<Rightarrow> nat" where
  "recordSize (ZeroImage n) = 8"
| "recordSize (LzssImage ts) = 1 + length (lzssStream ts)"
| "recordSize (PlainImage bs) = 8 + length bs"
| "recordSize (RleImage delim ts) = 1 + length (rleStream delim ts)"

primrec imageAt :: "memory \<Rightarrow> nat \<Rightarrow> image \<Rightarrow> bool" where
  "imageAt m a (ZeroImage n) = zeroAt m a n"
| "imageAt m a (LzssImage ts) = lzssAt m a ts"
| "imageAt m a (PlainImage bs) = plainAt m a bs"
| "imageAt m a (RleImage delim ts) = rleAt True m a (delim, ts)"

definition initRecordAt :: "codec list \<Rightarrow> memory \<Rightarrow> nat \<Rightarrow> image \<Rightarrow> bool" where
  "initRecordAt codecs m a img \<longleftrightarrow> fetch codecs (unat (m a)) = Some (imageCodec img) \<and> imageAt m a img"

context image_handler
begin

lemma callHandler_restores:
  assumes "fetch handlers (unat (m a)) = Some handler" "encoded m a x" "apart r (length (bytes x)) a (size x)"
  shows "callHandler handlers a r m = Some (writeMem m r (bytes x))"
  using assms restores by (simp add: callHandler_def)

lemma copy_in_restores:
  assumes "fetch handlers (unat (m a)) = Some handler" "encoded m a x" "apart r (length (bytes x)) a (size x)"
  shows "copy_in handlers (\<lparr>recLoadAddr = a, recRunAddr = r, recSize = 0\<rparr> # recs) m =
    copy_in handlers recs (writeMem m r (bytes x))"
  using callHandler_restores [OF assms] assms(1) by (auto simp: fetch_def split: if_splits)

end

lemma callHandler_record:
  assumes "initRecordAt codecs m a img" "apart r (length (imageBytes img)) a (recordSize img)"
  shows "callHandler (map codecHandler codecs) a r m = Some (writeMem m r (imageBytes img))"
proof -
  have f: "fetch (map codecHandler codecs) (unat (m a)) = Some (codecHandler (imageCodec img))" and at: "imageAt m a img"
    using assms(1) by (auto simp: initRecordAt_def fetch_def split: if_splits)
  show ?thesis using f at assms(2)
    by (cases img)
      (simp_all add: zi.callHandler_restores lzss.callHandler_restores plain.callHandler_restores
        rle24.callHandler_restores [where x = "(_, _)", simplified])
qed

lemma initRecordAt_writeMem:
  assumes "initRecordAt codecs m a img" "apart r (length bs) a (recordSize img)"
  shows "initRecordAt codecs (writeMem m r bs) a img"
proof -
  have keep: "readMem (writeMem m r bs) (a + i) n = readMem m (a + i) n" if "i + n \<le> recordSize img" for i n
    by (rule readMem_writeMem_apart) (use assms(2) that in \<open>auto simp: apart_def\<close>)
  have "0 < recordSize img" by (cases img) simp_all
  then have "writeMem m r bs a = m a" using keep [of 0 1] by (simp add: readMem_def)
  then show ?thesis using assms(1) keep [of 1] keep [of 4 4] keep [of 8]
    by (cases img) (simp_all add: initRecordAt_def zeroAt_def lzssAt_def plainAt_def rleAt_def)
qed

type_synonym entry = "nat \<times> nat \<times> image"

definition runApart :: "entry \<Rightarrow> entry \<Rightarrow> bool" where
  "runApart e f \<longleftrightarrow> (case (e, f) of ((l, r, img), (l', r', img')) \<Rightarrow>
     apart r (length (imageBytes img)) r' (length (imageBytes img')))"

definition loadApart :: "entry \<Rightarrow> entry \<Rightarrow> bool" where
  "loadApart e f \<longleftrightarrow> (case (e, f) of ((l, r, img), (l', r', img')) \<Rightarrow>
     apart r (length (imageBytes img)) l' (recordSize img'))"

definition linked :: "codec list \<Rightarrow> memory \<Rightarrow> entry list \<Rightarrow> bool" where
  "linked codecs m entries \<longleftrightarrow>
     list_all (\<lambda>(l, r, img). initRecordAt codecs m l img) entries \<and>
     list_all (\<lambda>e. list_all (loadApart e) entries) entries \<and>
     sorted_wrt runApart entries"

definition restore :: "entry list \<Rightarrow> memory \<Rightarrow> memory" where
  "restore entries m = foldl (\<lambda>m (l, r, img). writeMem m r (imageBytes img)) m entries"

definition inEntry :: "nat \<Rightarrow> entry \<Rightarrow> bool" where
  "inEntry a e = (case e of (l, r, img) \<Rightarrow> r \<le> a \<and> a < r + length (imageBytes img))"

lemma restore_simps [simp]:
  "restore [] m = m" "restore ((l, r, img) # es) m = restore es (writeMem m r (imageBytes img))"
  by (simp_all add: restore_def)

lemma restore_out: "\<not> list_ex (inEntry a) es \<Longrightarrow> restore es m a = m a"
proof (induction es arbitrary: m)
  case (Cons e es)
  then show ?case by (cases e) (auto simp: inEntry_def writeMem_def)
qed simp

lemma restore_in:
  assumes "sorted_wrt runApart es" "(l, r, img) \<in> set es"
  shows "readMem (restore es m) r (length (imageBytes img)) = imageBytes img"
  using assms
proof (induction es arbitrary: m)
  case (Cons e es)
  obtain l' r' img' where e: "e = (l', r', img')" by (cases e)
  show ?case
  proof (cases "(l, r, img) \<in> set es")
    case False
    then have e: "e = (l, r, img)" using Cons.prems by auto
    have "restore es (writeMem m r (imageBytes img)) (r + i) = imageBytes img ! i" if "i < length (imageBytes img)" for i
    proof -
      have "\<not> list_ex (inEntry (r + i)) es"
        using Cons.prems(1) that by (force simp: e list_ex_iff inEntry_def runApart_def apart_def)
      then show ?thesis using that by (simp add: restore_out writeMem_at)
    qed
    then show ?thesis by (intro nth_equalityI) (simp_all add: e nth_readMem)
  qed (use Cons e in simp)
qed simp

lemma run_cinit_loop_restores:
  assumes "linked codecs m entries"
  shows "run_cinit_loop (map codecHandler codecs) (map (\<lambda>(l, r, img). (l, r)) entries) m = Some (restore entries m)"
  using assms
proof (induction entries arbitrary: m)
  case (Cons e es)
  obtain l r img where e: "e = (l, r, img)" by (cases e)
  have rec: "initRecordAt codecs m l img" "apart r (length (imageBytes img)) l (recordSize img)"
    using Cons.prems by (simp_all add: linked_def e loadApart_def)
  then have call: "callHandler (map codecHandler codecs) l r m = Some (writeMem m r (imageBytes img))"
    by (rule callHandler_record)
  have "linked codecs (writeMem m r (imageBytes img)) es"
    using Cons.prems unfolding linked_def
    by (auto simp: e list_all_iff loadApart_def intro!: initRecordAt_writeMem)
  then show ?case using Cons.IH call by (simp add: e)
qed simp

lemma run_cinit_restores:
  assumes "linked codecs m entries" "codecs \<noteq> []"
  shows "run_cinit (map codecHandler codecs) (map (\<lambda>(l, r, img). (l, r)) entries) m = Some (restore entries m)"
  using assms by (simp add: run_cinit_def run_cinit_loop_restores)

definition linkedEnv :: "codec list \<Rightarrow> entry list \<Rightarrow> rts_env" where
  "linkedEnv codecs entries =
     \<lparr>handlerTable = map codecHandler codecs, cinitTable = map (\<lambda>(l, r, img). (l, r)) entries,
      binitTable = None, pinitTable = [], postCinit = system_post_cinit\<rparr>"

text \<open>C7. For a program whose initialisation records are as the linker writes them (each behind the index of its handler,
  the run regions apart from each other and from the records), \<open>_c_int00\<close> comes to \<open>main\<close>: the decompression of every record
  ends, every run region then holds its image, and no other byte of memory has changed.\<close>

theorem c_int00_reaches_main:
  assumes "linked codecs m entries" "codecs \<noteq> []"
  shows "\<exists>m'. c_int00 mpu_init system_pre_init (auto_init (linkedEnv codecs entries)) c_args STACK_END m =
        Some (STACK_END, args_main c_args, m') \<and>
      (\<forall>(l, r, img) \<in> set entries. readMem m' r (length (imageBytes img)) = imageBytes img) \<and>
      (\<forall>a. \<not> list_ex (inEntry a) entries \<longrightarrow> m' a = m a)"
proof -
  have "sorted_wrt runApart entries" using assms(1) by (simp add: linked_def)
  then have "\<forall>(l, r, img) \<in> set entries. readMem (restore entries m) r (length (imageBytes img)) = imageBytes img"
    by (auto intro: restore_in)
  moreover have "c_int00 mpu_init system_pre_init (auto_init (linkedEnv codecs entries)) c_args STACK_END m =
      Some (STACK_END, args_main c_args, restore entries m)"
    using run_cinit_restores [OF assms]
    by (simp add: c_int00_def c_int00_template_def mpu_init_def system_pre_init_def auto_init_def auto_init_template_def
        linkedEnv_def run_binit_def system_post_cinit_def)
  ultimately show ?thesis using restore_out [of _ entries m] by blast
qed

text \<open>A zero-filled region, a compressed one with a match and a plain one.\<close>

definition sampleEntries :: "entry list" where
  "sampleEntries = [(100, 0, ZeroImage 6), (110, 10, LzssImage [Byte 7, Byte 8, Match 1 5]), (140, 30, PlainImage [1, 2, 3])]"

definition sampleRom :: memory where
  "sampleRom = writeMem (writeMem (writeMem (\<lambda>a. 0xAA) 100 [0, 0, 0, 0, 6, 0, 0, 0])
     110 (1 # lzssStream [Byte 7, Byte 8, Match 1 5])) 140 [2, 0, 0, 0, 3, 0, 0, 0, 1, 2, 3]"

lemma sample_linked: "linked [ZeroInit, Lzss, NoCodec] sampleRom sampleEntries"
  by (simp add: linked_def sampleEntries_def sampleRom_def initRecordAt_def fetch_def zeroAt_def lzssAt_def plainAt_def readMem_def writeMem_def
      lzssStream.simps matchBytes_def endBytes_def storeUint32Le_def loadApart_def runApart_def apart_def expand_def
      upt_rec nth_Cons' length_copyOut)

theorem c_int00_reaches_main_witness:
  "\<exists>m'. c_int00 mpu_init system_pre_init (auto_init (linkedEnv [ZeroInit, Lzss, NoCodec] sampleEntries)) None 0x20005000
        sampleRom = Some (0x20005000, args_main None, m') \<and>
      (\<forall>(l, r, img) \<in> set sampleEntries. readMem m' r (length (imageBytes img)) = imageBytes img) \<and>
      (\<forall>a. \<not> list_ex (inEntry a) sampleEntries \<longrightarrow> m' a = sampleRom a)"
  by (rule c_int00_reaches_main [OF sample_linked]) simp

end
