(* ===== verification/Rts_Heap.thy ===== *)
theory Rts_Heap
  imports Rts_Codec
begin

text \<open>
  The heap of the run-time library (\<open>memory.c\<close>): packets with a header and a payload that tile the region \<open>_sys_memory\<close>, and a
  free list sorted by size that is threaded through the payloads of the free packets. Memory is bytes by address; the header word
  is at the packet's address and the link to the next free packet in the first word of its payload, as in the \<open>union\<close> of the
  code. Address and size of the region are what the linker sets. Addresses are natural numbers: the region is in
  RAM, below \<open>2 ^ 31\<close>, so that no sum of an address and a size wraps. The resource lock around every operation is not modelled; each
  operation is one step. \<open>None\<close> is a loop that does not end.
\<close>

section \<open>Packets\<close>

definition MIN_PAYLOAD_ALIGN :: nat where "MIN_PAYLOAD_ALIGN = 8"
definition PACKET_OVERHEAD :: nat where "PACKET_OVERHEAD = 8"
definition sizeof_PACKET :: nat where "sizeof_PACKET = 16"

record rts_heap =
  hmem :: memory
  sys_free :: nat
  memory_is_initialized :: bool
  sys_memory :: nat
  SYSMEM_SIZE :: nat

definition payload_size :: "rts_heap \<Rightarrow> nat \<Rightarrow> u32" where
  "payload_size h p = loadUint32Le (readMem (hmem h) p 4)"

definition set_payload_size :: "nat \<Rightarrow> u32 \<Rightarrow> rts_heap \<Rightarrow> rts_heap" where
  "set_payload_size p v h = h\<lparr>hmem := writeMem (hmem h) p (storeUint32Le v)\<rparr>"

definition next_free :: "rts_heap \<Rightarrow> nat \<Rightarrow> nat" where
  "next_free h p = unat (loadUint32Le (readMem (hmem h) (p + PACKET_OVERHEAD) 4))"

definition set_next_free :: "nat \<Rightarrow> nat \<Rightarrow> rts_heap \<Rightarrow> rts_heap" where
  "set_next_free p q h = h\<lparr>hmem := writeMem (hmem h) (p + PACKET_OVERHEAD) (storeUint32Le (of_nat q))\<rparr>"

definition heap_size :: "rts_heap \<Rightarrow> nat" where
  "heap_size h = (if SYSMEM_SIZE h \<ge> PACKET_OVERHEAD then SYSMEM_SIZE h - PACKET_OVERHEAD else 0)"

definition heap_start :: "rts_heap \<Rightarrow> nat" where
  "heap_start h = sys_memory h"

definition heap_end :: "rts_heap \<Rightarrow> nat" where
  "heap_end h = heap_start h + heap_size h"

definition packet_payload_size :: "rts_heap \<Rightarrow> nat \<Rightarrow> nat" where
  "packet_payload_size h packet = unat (payload_size h packet AND NOT 1)"

definition next_packet :: "rts_heap \<Rightarrow> nat \<Rightarrow> nat" where
  "next_packet h packet = packet + packet_payload_size h packet + PACKET_OVERHEAD"

definition packet_is_free :: "rts_heap \<Rightarrow> nat \<Rightarrow> bool" where
  "packet_is_free h packet \<longleftrightarrow> payload_size h packet AND 1 = 0"

definition mark_packet_free :: "nat \<Rightarrow> rts_heap \<Rightarrow> rts_heap" where
  "mark_packet_free packet h = set_payload_size packet (payload_size h packet AND NOT 1) h"

definition mark_packet_used :: "nat \<Rightarrow> rts_heap \<Rightarrow> rts_heap" where
  "mark_packet_used packet h = set_payload_size packet (payload_size h packet OR 1) h"

definition set_payload_size_and_mark_free :: "nat \<Rightarrow> nat \<Rightarrow> rts_heap \<Rightarrow> rts_heap" where
  "set_payload_size_and_mark_free packet sz h = set_payload_size packet (of_nat sz) h"

definition set_payload_size_and_mark_used :: "nat \<Rightarrow> nat \<Rightarrow> rts_heap \<Rightarrow> rts_heap" where
  "set_payload_size_and_mark_used packet sz h = set_payload_size packet (of_nat sz OR 1) h"

definition meminit :: "rts_heap \<Rightarrow> rts_heap" where
  "meminit h =
     (if heap_size h \<noteq> 0 then
        (let h = h\<lparr>sys_free := heap_start h\<rparr>;
             h = set_next_free (sys_free h) 0 h;
             h = set_payload_size_and_mark_free (sys_free h) (heap_size h) h in
         h\<lparr>memory_is_initialized := True\<rparr>)
      else h\<lparr>sys_free := 0, memory_is_initialized := True\<rparr>)"

definition minit :: "rts_heap \<Rightarrow> rts_heap" where
  "minit h = h\<lparr>memory_is_initialized := False\<rparr>"

section \<open>Free list\<close>

text \<open>A pointer to a link: \<open>&sys_free\<close> or \<open>&packet->next_free\<close>.\<close>

datatype location = SysFree | NextFree nat

primrec getLink :: "rts_heap \<Rightarrow> location \<Rightarrow> nat" where
  "getLink h SysFree = sys_free h"
| "getLink h (NextFree p) = next_free h p"

primrec setLink :: "location \<Rightarrow> nat \<Rightarrow> rts_heap \<Rightarrow> rts_heap" where
  "setLink SysFree q h = h\<lparr>sys_free := q\<rparr>"
| "setLink (NextFree p) q h = set_next_free p q h"

partial_function (option) insertLocation :: "rts_heap \<Rightarrow> nat \<Rightarrow> location \<Rightarrow> location option" where
  "insertLocation h sz location =
     (if getLink h location \<noteq> 0 \<and> packet_payload_size h (getLink h location) < sz
      then insertLocation h sz (NextFree (getLink h location))
      else Some location)"

definition free_list_insert :: "nat \<Rightarrow> rts_heap \<Rightarrow> rts_heap option" where
  "free_list_insert packet h =
     do {
       location \<leftarrow> insertLocation h (packet_payload_size h packet) SysFree;
       let h = set_next_free packet (getLink h location) h;
       Some (setLink location packet h)
     }"

partial_function (option) removeLocation :: "rts_heap \<Rightarrow> nat \<Rightarrow> location \<Rightarrow> location option" where
  "removeLocation h packet location =
     (if getLink h location \<noteq> 0 \<and> getLink h location \<noteq> packet
      then removeLocation h packet (NextFree (getLink h location))
      else Some location)"

definition free_list_remove :: "nat \<Rightarrow> rts_heap \<Rightarrow> rts_heap option" where
  "free_list_remove packet h =
     do {
       location \<leftarrow> removeLocation h packet SysFree;
       Some (if getLink h location \<noteq> 0 then setLink location (next_free h packet) h else h)
     }"

definition split :: "nat \<Rightarrow> nat \<Rightarrow> rts_heap \<Rightarrow> rts_heap option" where
  "split original sz h =
     (if packet_payload_size h original - sz \<ge> sizeof_PACKET then
        do {
          let next = original + sz + PACKET_OVERHEAD;
          let h = set_payload_size_and_mark_free next (packet_payload_size h original - sz - PACKET_OVERHEAD) h;
          let after = next_packet h next;
          h \<leftarrow> (if after < heap_end h \<and> packet_is_free h after then
                 do {
                   h \<leftarrow> free_list_remove after h;
                   Some (set_payload_size_and_mark_free next
                     (packet_payload_size h next + packet_payload_size h after + PACKET_OVERHEAD) h)
                 }
               else Some h);
          h \<leftarrow> free_list_insert next h;
          Some (set_payload_size_and_mark_used original sz h)
        }
      else Some (mark_packet_used original h))"

section \<open>Allocation\<close>

definition roundSize :: "u32 \<Rightarrow> u32" where
  "roundSize sz = (sz + of_nat (MIN_PAYLOAD_ALIGN - 1)) AND NOT (of_nat (MIN_PAYLOAD_ALIGN - 1))"

partial_function (option) skipSlice :: "nat \<Rightarrow> nat \<Rightarrow> nat \<Rightarrow> nat option" where
  "skipSlice current alignment aln_start =
     (if current + sizeof_PACKET > aln_start - PACKET_OVERHEAD then skipSlice current alignment (aln_start + alignment)
      else Some aln_start)"

definition alignedStart :: "nat \<Rightarrow> u32 \<Rightarrow> nat option" where
  "alignedStart current alignment =
     (let un_aln_start = current + PACKET_OVERHEAD;
          aln_mask = alignment - 1;
          aln_start = unat ((of_nat un_aln_start + aln_mask) AND NOT aln_mask) in
      if un_aln_start \<noteq> aln_start then skipSlice current (unat alignment) aln_start else Some aln_start)"

text \<open>The scan of the free list; a null \<open>current\<close> is the end of the list.\<close>

partial_function (option) alignedScan :: "rts_heap \<Rightarrow> u32 \<Rightarrow> nat \<Rightarrow> nat \<Rightarrow> (nat \<times> nat) option" where
  "alignedScan h alignment sz current =
     (if current = 0 then Some (0, 0)
      else
        do {
          aln_start \<leftarrow> alignedStart current alignment;
          (if current + PACKET_OVERHEAD + packet_payload_size h current \<ge> aln_start + sz then Some (current, aln_start)
           else alignedScan h alignment sz (next_free h current))
        })"

text \<open>The first split: what is before the aligned start goes back to the free list.\<close>

definition carve :: "nat \<Rightarrow> nat \<Rightarrow> rts_heap \<Rightarrow> (nat \<times> rts_heap) option" where
  "carve current aln_start h =
     (let un_aln_start = current + PACKET_OVERHEAD in
      if aln_start \<noteq> un_aln_start then
        do {
          let slice_size = aln_start - un_aln_start - PACKET_OVERHEAD;
          let new_size = packet_payload_size h current - slice_size - PACKET_OVERHEAD;
          let slice = current;
          let h = set_payload_size_and_mark_free slice slice_size h;
          let aln_packet = next_packet h slice;
          let h = set_payload_size_and_mark_used aln_packet new_size h;
          h \<leftarrow> free_list_insert slice h;
          Some (aln_packet, h)
        }
      else Some (current, h))"

definition aligned_alloc :: "u32 \<Rightarrow> u32 \<Rightarrow> rts_heap \<Rightarrow> (nat \<times> rts_heap) option" where
  "aligned_alloc alignment sz h =
     (if sz = 0 then Some (0, h)
      else if unat sz > heap_size h then Some (0, h)
      else
        do {
          let sz = unat (roundSize sz);
          let alignment = (if alignment < of_nat MIN_PAYLOAD_ALIGN \<or> alignment AND (alignment - 1) \<noteq> 0
                           then of_nat MIN_PAYLOAD_ALIGN else alignment);
          let h = (if \<not> memory_is_initialized h then meminit h else h);
          (current, aln_start) \<leftarrow> alignedScan h alignment sz (sys_free h);
          (if current = 0 then Some (0, h)
           else
             do {
               h \<leftarrow> free_list_remove current h;
               (aln_packet, h) \<leftarrow> carve current aln_start h;
               h \<leftarrow> split aln_packet sz h;
               Some (aln_packet + PACKET_OVERHEAD, h)
             })
        })"

definition malloc :: "u32 \<Rightarrow> rts_heap \<Rightarrow> (nat \<times> rts_heap) option" where
  "malloc sz h = aligned_alloc (of_nat MIN_PAYLOAD_ALIGN) sz h"

text \<open>The quotient by a zero \<open>size\<close> is undefined.\<close>

definition calloc :: "u32 \<Rightarrow> u32 \<Rightarrow> rts_heap \<Rightarrow> (nat \<times> rts_heap) option" where
  "calloc num sz h =
     (if sz = 0 then None
      else if heap_size h div unat sz < unat num then Some (0, h)
      else
        do {
          let esz = sz * num;
          (ptr, h) \<leftarrow> malloc esz h;
          Some (ptr, if ptr \<noteq> 0 then h\<lparr>hmem := writeMem (hmem h) ptr (replicate (unat esz) 0)\<rparr> else h)
        })"

section \<open>Release\<close>

partial_function (option) freeWalk :: "rts_heap \<Rightarrow> nat \<Rightarrow> nat \<Rightarrow> nat \<Rightarrow> (nat \<times> nat) option" where
  "freeWalk h packet prev current =
     (if current < packet then freeWalk h packet current (next_packet h current) else Some (prev, current))"

text \<open>The packet that is released together with its free neighbours; a neighbour that is in use is null.\<close>

definition coalesce :: "nat \<Rightarrow> nat \<Rightarrow> nat \<Rightarrow> rts_heap \<Rightarrow> nat \<times> rts_heap" where
  "coalesce prev packet next h =
     (if prev \<noteq> 0 \<and> next \<noteq> 0 then
        (prev, set_payload_size_and_mark_free prev (packet_payload_size h prev +
           packet_payload_size h packet + packet_payload_size h next + PACKET_OVERHEAD + PACKET_OVERHEAD) h)
      else if prev \<noteq> 0 then
        (prev, set_payload_size_and_mark_free prev
           (packet_payload_size h prev + packet_payload_size h packet + PACKET_OVERHEAD) h)
      else if next \<noteq> 0 then
        (packet, set_payload_size_and_mark_free packet
           (packet_payload_size h packet + packet_payload_size h next + PACKET_OVERHEAD) h)
      else (packet, mark_packet_free packet h))"

definition free :: "nat \<Rightarrow> rts_heap \<Rightarrow> rts_heap option" where
  "free userptr h =
     (if userptr = 0 then Some h
      else
        do {
          let packet = userptr - PACKET_OVERHEAD;
          (prev, current) \<leftarrow> freeWalk h packet 0 (sys_memory h);
          let next = next_packet h current;
          let next = (if next > heap_end h then 0 else next);
          (if current \<noteq> packet \<or> packet_is_free h current then Some h
           else
             do {
               let prev = (if prev \<noteq> 0 \<and> \<not> packet_is_free h prev then 0 else prev);
               let next = (if next \<noteq> 0 \<and> \<not> packet_is_free h next then 0 else next);
               h \<leftarrow> (if prev \<noteq> 0 then free_list_remove prev h else Some h);
               h \<leftarrow> (if next \<noteq> 0 then free_list_remove next h else Some h);
               let (packet, h) = coalesce prev packet next h;
               free_list_insert packet h
             })
        })"

definition realloc :: "nat \<Rightarrow> u32 \<Rightarrow> rts_heap \<Rightarrow> (nat \<times> rts_heap) option" where
  "realloc userptr sz h =
     (if userptr = 0 then malloc sz h
      else if sz = 0 then do { h \<leftarrow> free userptr h; Some (0, h) }
      else if unat sz > heap_size h then Some (0, h)
      else
        do {
          let sz = roundSize sz;
          let packet = userptr - PACKET_OVERHEAD;
          (if packet_is_free h packet then Some (0, h)
           else if unat sz \<le> packet_payload_size h packet then
             do { h \<leftarrow> split packet (unat sz) h; Some (packet + PACKET_OVERHEAD, h) }
           else
             do {
               let next = next_packet h packet;
               let combined_size = packet_payload_size h packet + packet_payload_size h next + PACKET_OVERHEAD;
               (if next < heap_end h \<and> packet_is_free h next \<and> combined_size \<ge> unat sz then
                  do {
                    h \<leftarrow> free_list_remove next h;
                    let h = set_payload_size_and_mark_used packet combined_size h;
                    h \<leftarrow> split packet (unat sz) h;
                    Some (packet + PACKET_OVERHEAD, h)
                  }
                else
                  do {
                    (new, h) \<leftarrow> malloc sz h;
                    (if new \<noteq> 0 then
                       do {
                         let h = h\<lparr>hmem := writeMem (hmem h) new (readMem (hmem h) userptr (packet_payload_size h packet))\<rparr>;
                         h \<leftarrow> free userptr h;
                         Some (new, h)
                       }
                     else Some (new, h))
                  })
             })
        })"

section \<open>Statistics\<close>

partial_function (option) sumFree :: "rts_heap \<Rightarrow> nat \<Rightarrow> nat \<Rightarrow> nat option" where
  "sumFree h avail packet =
     (if packet \<noteq> 0 then sumFree h (avail + packet_payload_size h packet) (next_free h packet) else Some avail)"

definition heap_total_available :: "rts_heap \<Rightarrow> nat option" where
  "heap_total_available h = (if memory_is_initialized h then sumFree h 0 (sys_free h) else Some 0)"

partial_function (option) maxFree :: "rts_heap \<Rightarrow> nat \<Rightarrow> nat \<Rightarrow> nat option" where
  "maxFree h largest packet =
     (if packet \<noteq> 0 then maxFree h (max largest (packet_payload_size h packet)) (next_free h packet) else Some largest)"

definition heap_largest_available :: "rts_heap \<Rightarrow> nat option" where
  "heap_largest_available h = (if memory_is_initialized h then maxFree h 0 (sys_free h) else Some 0)"

end
