(* ===== verification/Heap_Links.thy ===== *)
theory Heap_Links
  imports Rts_Heap
begin

text \<open>
  The words of the heap in memory: headers, links, and the free list as the list of packets it runs through. \<open>frame\<close> bounds
  what an operation changes; insertion and removal keep the list sorted by size and change nothing but links.
\<close>

lemmas packet_consts = MIN_PAYLOAD_ALIGN_def PACKET_OVERHEAD_def sizeof_PACKET_def

section \<open>Words in memory\<close>

lemma payload_size_set [simp]: "payload_size (set_payload_size p v h) p = v"
  using readMem_writeMem_same [of "hmem h" p "storeUint32Le v"] by (simp add: payload_size_def set_payload_size_def)

lemma next_free_set [simp]: "q < 2 ^ 32 \<Longrightarrow> next_free (set_next_free p q h) p = q"
  using readMem_writeMem_same [of "hmem h" "p + PACKET_OVERHEAD" "storeUint32Le (of_nat q)"]
  by (simp add: next_free_def set_next_free_def unsigned_of_nat take_bit_nat_eq_self)

text \<open>What an operation leaves alone: the region of the heap, and memory outside \<open>A\<close>.\<close>

definition frame :: "nat set \<Rightarrow> rts_heap \<Rightarrow> rts_heap \<Rightarrow> bool" where
  "frame A h h' \<longleftrightarrow> sys_memory h' = sys_memory h \<and> SYSMEM_SIZE h' = SYSMEM_SIZE h \<and>
     memory_is_initialized h' = memory_is_initialized h \<and> (\<forall>a. a \<notin> A \<longrightarrow> hmem h' a = hmem h a)"

lemma frame_refl [simp]: "frame A h h"
  by (simp add: frame_def)

lemma frame_trans: "frame A h h1 \<Longrightarrow> frame B h1 h2 \<Longrightarrow> frame (A \<union> B) h h2"
  by (auto simp: frame_def)

lemma frame_mono: "frame A h h' \<Longrightarrow> A \<subseteq> B \<Longrightarrow> frame B h h'"
  by (auto simp: frame_def)

definition clear :: "nat set \<Rightarrow> nat \<Rightarrow> nat \<Rightarrow> bool" where
  "clear A p n \<longleftrightarrow> (\<forall>a \<in> A. a < p \<or> p + n \<le> a)"

lemma clear_part: "clear A p n \<Longrightarrow> p \<le> q \<Longrightarrow> q + k \<le> p + n \<Longrightarrow> clear A q k"
  by (fastforce simp: clear_def)

lemma clear_Un [simp]: "clear (A \<union> B) p n \<longleftrightarrow> clear A p n \<and> clear B p n"
  by (auto simp: clear_def)

lemma clear_mono: "clear B p n \<Longrightarrow> A \<subseteq> B \<Longrightarrow> clear A p n"
  by (auto simp: clear_def)

lemma clear_interval: "p + n \<le> a \<or> b \<le> p \<Longrightarrow> clear {a..<b} p n"
  by (auto simp: clear_def)

lemma frame_readMem:
  assumes "frame A h h'" "clear A p n"
  shows "readMem (hmem h') p n = readMem (hmem h) p n"
proof (rule nth_equalityI)
  fix i assume "i < length (readMem (hmem h') p n)"
  moreover from this have "p + i \<notin> A" using assms(2) by (force simp: clear_def)
  ultimately show "readMem (hmem h') p n ! i = readMem (hmem h) p n ! i"
    using assms(1) by (simp add: nth_readMem frame_def)
qed simp

lemma frame_payload_size: "frame A h h' \<Longrightarrow> clear A p 4 \<Longrightarrow> payload_size h' p = payload_size h p"
  by (simp add: payload_size_def frame_readMem)

lemma frame_next_free: "frame A h h' \<Longrightarrow> clear A (p + 8) 4 \<Longrightarrow> next_free h' p = next_free h p"
  by (simp add: next_free_def packet_consts frame_readMem)

lemma frame_consts:
  "frame A h h' \<Longrightarrow> heap_start h' = heap_start h \<and> heap_size h' = heap_size h \<and> heap_end h' = heap_end h"
  by (simp add: frame_def heap_start_def heap_size_def heap_end_def)

lemma frame_set_payload_size: "frame {p..<p + 4} h (set_payload_size p v h)"
  by (auto simp: frame_def set_payload_size_def intro!: writeMem_out)

lemma frame_set_next_free: "frame {p + 8..<p + 12} h (set_next_free p q h)"
  by (auto simp: frame_def set_next_free_def packet_consts intro!: writeMem_out)

lemma frame_sys_free: "frame A h (h\<lparr>sys_free := q\<rparr>)"
  by (simp add: frame_def)

section \<open>Headers\<close>

definition hdr :: "rts_heap \<Rightarrow> nat \<Rightarrow> nat \<Rightarrow> bool \<Rightarrow> bool" where
  "hdr h p n u \<longleftrightarrow> 8 dvd n \<and> 8 \<le> n \<and> n < 2 ^ 31 \<and> payload_size h p = of_nat n OR (if u then 1 else 0)"

lemma even_bit0: "8 dvd n \<Longrightarrow> \<not> bit (n :: nat) 0"
  by (auto simp: bit_0)

lemma hdr_size:
  assumes "hdr h p n u"
  shows "packet_payload_size h p = n" "packet_is_free h p \<longleftrightarrow> \<not> u" "next_packet h p = p + n + 8"
proof -
  have n: "8 dvd n" "n < 2 ^ 32" using assms by (auto simp: hdr_def)
  have "(of_nat n OR (if u then 1 else 0)) AND NOT 1 = (of_nat n :: u32)"
    using even_bit0 [OF n(1)] by (intro bit_word_eqI) (auto simp: bit_simps intro!: gr0I)
  then show ps: "packet_payload_size h p = n"
    using assms n(2) by (simp add: packet_payload_size_def hdr_def unsigned_of_nat take_bit_nat_eq_self)
  have "bit (of_nat n OR (if u then 1 else 0) :: u32) 0 \<longleftrightarrow> u"
    using even_bit0 [OF n(1)] by (auto simp: bit_simps simp del: bit_0)
  then show "packet_is_free h p \<longleftrightarrow> \<not> u"
    using assms by (simp add: packet_is_free_def hdr_def and_one_eq bit_0 mod_2_eq_odd)
  show "next_packet h p = p + n + 8" by (simp add: next_packet_def ps packet_consts)
qed

lemma hdr_unique: "hdr h p n u \<Longrightarrow> hdr h p k v \<Longrightarrow> n = k \<and> u = v"
  using hdr_size by metis

lemma hdr_frame: "hdr h p n u \<Longrightarrow> frame A h h' \<Longrightarrow> clear A p 4 \<Longrightarrow> hdr h' p n u"
  by (simp add: hdr_def frame_payload_size)

lemma hdr_set_free: "8 dvd n \<Longrightarrow> 8 \<le> n \<Longrightarrow> n < 2 ^ 31 \<Longrightarrow> hdr (set_payload_size_and_mark_free p n h) p n False"
  by (simp add: hdr_def set_payload_size_and_mark_free_def)

lemma hdr_set_used: "8 dvd n \<Longrightarrow> 8 \<le> n \<Longrightarrow> n < 2 ^ 31 \<Longrightarrow> hdr (set_payload_size_and_mark_used p n h) p n True"
  by (simp add: hdr_def set_payload_size_and_mark_used_def)

lemma hdr_mark_used:
  assumes "hdr h p n u"
  shows "hdr (mark_packet_used p h) p n True"
proof -
  have "(of_nat n OR (if u then 1 else 0)) OR 1 = (of_nat n OR 1 :: u32)" by (intro bit_word_eqI) (auto simp: bit_simps)
  then show ?thesis using assms by (simp add: hdr_def mark_packet_used_def)
qed

lemma hdr_mark_free:
  assumes "hdr h p n u"
  shows "hdr (mark_packet_free p h) p n False"
proof -
  have "(of_nat n OR (if u then 1 else 0)) AND NOT 1 = (of_nat n :: u32)"
    using assms even_bit0 [of n] by (intro bit_word_eqI) (auto simp: bit_simps hdr_def intro!: gr0I)
  then show ?thesis using assms by (simp add: hdr_def mark_packet_free_def)
qed

lemma frame_headers:
  "frame {p..<p + 4} h (set_payload_size_and_mark_free p n h)"
  "frame {p..<p + 4} h (set_payload_size_and_mark_used p n h)"
  "frame {p..<p + 4} h (mark_packet_used p h)" "frame {p..<p + 4} h (mark_packet_free p h)"
  by (simp_all add: set_payload_size_and_mark_free_def set_payload_size_and_mark_used_def mark_packet_used_def
      mark_packet_free_def frame_set_payload_size)

section \<open>The free list\<close>

type_synonym node = "nat \<times> nat"

fun fchain :: "rts_heap \<Rightarrow> location \<Rightarrow> node list \<Rightarrow> nat \<Rightarrow> bool" where
  "fchain h loc [] e = (getLink h loc = e)"
| "fchain h loc ((p, n) # fl) e = (getLink h loc = p \<and> 0 < p \<and> p < 2 ^ 31 \<and> hdr h p n False \<and> fchain h (NextFree p) fl e)"

fun locAfter :: "location \<Rightarrow> node list \<Rightarrow> location" where
  "locAfter loc [] = loc"
| "locAfter loc ((p, n) # fl) = locAfter (NextFree p) fl"

primrec linkAt :: "location \<Rightarrow> nat set" where
  "linkAt SysFree = {}"
| "linkAt (NextFree p) = {p + 8..<p + 12}"

definition linksOf :: "node set \<Rightarrow> nat set" where
  "linksOf F = (\<Union>x\<in>F. {fst x + 8..<fst x + 12})"

lemma frame_setLink: "frame (linkAt loc) h (setLink loc q h)"
  by (cases loc) (simp_all add: frame_set_next_free frame_sys_free)

lemma getLink_setLink [simp]: "q < 2 ^ 32 \<Longrightarrow> getLink (setLink loc q h) loc = q"
  by (cases loc) simp_all

primrec linkClear :: "nat set \<Rightarrow> location \<Rightarrow> bool" where
  "linkClear A SysFree = True"
| "linkClear A (NextFree p) = clear A (p + 8) 4"

lemma getLink_frame:
  "frame A h h' \<Longrightarrow> linkClear A loc \<Longrightarrow> sys_free h' = sys_free h \<Longrightarrow> getLink h' loc = getLink h loc"
  by (cases loc) (simp_all add: frame_next_free)

lemma fchain_append:
  "fchain h loc (xs @ ys) e \<longleftrightarrow> fchain h loc xs (getLink h (locAfter loc xs)) \<and> fchain h (locAfter loc xs) ys e"
  by (induction xs arbitrary: loc) auto

lemma fchain_frame:
  assumes "fchain h loc fl e" "frame A h h'" "getLink h' loc' = getLink h loc" "\<forall>x \<in> set fl. clear A (fst x) 12"
  shows "fchain h' loc' fl e"
  using assms
proof (induction fl arbitrary: loc loc')
  case (Cons x fl)
  obtain p n where x: "x = (p, n)" by (cases x)
  have a: "clear A p 4" "clear A (p + 8) 4" using Cons.prems(4) by (auto simp: x intro: clear_part)
  have "hdr h' p n False" using Cons.prems(1) a(1) by (auto simp: x intro: hdr_frame [OF _ Cons.prems(2)])
  moreover have "getLink h' (NextFree p) = getLink h (NextFree p)" using frame_next_free [OF Cons.prems(2) a(2)] by simp
  ultimately show ?case using Cons by (auto simp: x)
qed simp

lemma fchain_nodes: "fchain h loc fl e \<Longrightarrow> (p, n) \<in> set fl \<Longrightarrow> hdr h p n False \<and> 0 < p \<and> p < 2 ^ 31"
  by (induction h loc fl e rule: fchain.induct) auto

definition nodesApart :: "node list \<Rightarrow> bool" where
  "nodesApart fl \<longleftrightarrow> sorted_wrt (\<lambda>x y. apart (fst x) 12 (fst y) 12) fl"

lemma linkAt_locAfter: "linkAt (locAfter loc fl) \<subseteq> linkAt loc \<union> linksOf (set fl)"
  by (induction loc fl rule: locAfter.induct) (auto simp: linksOf_def)

lemma linkClear_linkAt: "linkClear A loc \<longleftrightarrow> (\<forall>a \<in> A. a \<notin> linkAt loc)"
  by (cases loc) (auto simp: clear_def)

lemma locAfter_NextFree: "locAfter (NextFree p) xs \<noteq> SysFree"
  by (induction "NextFree p" xs arbitrary: p rule: locAfter.induct) auto

lemma fchain_relink:
  assumes "fchain h loc xs e" "nodesApart xs" "\<forall>x \<in> set xs. clear (linkAt loc) (fst x) 12" "q < 2 ^ 32"
  shows "fchain (setLink (locAfter loc xs) q h) loc xs q"
  using assms
proof (induction xs arbitrary: loc)
  case (Cons x xs)
  obtain p n where x: "x = (p, n)" by (cases x)
  let ?l = "locAfter (NextFree p) xs" let ?h = "setLink ?l q h"
  have fr: "frame (linkAt ?l) h ?h" by (rule frame_setLink)
  have sub: "linkAt ?l \<subseteq> {p + 8..<p + 12} \<union> linksOf (set xs)" using linkAt_locAfter [of "NextFree p" xs] by auto
  have ap: "\<forall>y \<in> set xs. apart p 12 (fst y) 12" "nodesApart xs"
    using Cons.prems(2) by (auto simp: nodesApart_def x)
  have IH: "fchain ?h (NextFree p) xs q"
    using Cons.prems(1,4) ap by (intro Cons.IH) (auto simp: x apart_def clear_def)
  have "clear (linkAt ?l) p 4"
    by (rule clear_mono [OF _ sub]) (use ap(1) in \<open>auto simp: clear_def linksOf_def apart_def\<close>)
  moreover have "hdr h p n False" using Cons.prems(1) by (simp add: x)
  ultimately have hd: "hdr ?h p n False" using hdr_frame [OF _ fr] by blast
  have "\<forall>y \<in> set (x # xs). \<forall>a \<in> linkAt loc. a < fst y \<or> fst y + 12 \<le> a" using Cons.prems(3) by (simp add: clear_def)
  then have "linkClear (linkAt ?l) loc" using sub unfolding linkClear_linkAt by (fastforce simp: x linksOf_def)
  moreover have "sys_free ?h = sys_free h" using locAfter_NextFree [of p xs] by (cases ?l) (simp_all add: set_next_free_def)
  ultimately have "getLink ?h loc = p" using getLink_frame [OF fr] Cons.prems(1) by (simp add: x)
  then show ?case using IH hd Cons.prems(1) by (simp add: x)
qed simp

lemma insertLocation_chain:
  assumes "fchain h loc fl 0"
  shows "insertLocation h k loc = Some (locAfter loc (takeWhile (\<lambda>x. snd x < k) fl))"
  using assms
proof (induction fl arbitrary: loc)
  case Nil
  then show ?case by (subst insertLocation.simps) simp
next
  case (Cons x fl)
  obtain p n where x: "x = (p, n)" by (cases x)
  then have "packet_payload_size h p = n" using Cons.prems hdr_size(1) by auto
  with Cons x show ?case by (subst insertLocation.simps) auto
qed

lemma removeLocation_chain:
  assumes "fchain h loc fl 0"
  shows "removeLocation h p loc = Some (locAfter loc (takeWhile (\<lambda>x. fst x \<noteq> p) fl))"
  using assms
proof (induction fl arbitrary: loc)
  case Nil
  then show ?case by (subst removeLocation.simps) simp
next
  case (Cons x fl)
  then show ?case by (cases x) (subst removeLocation.simps, simp)
qed

lemma fchain_link_bound: "fchain h (NextFree p) fl 0 \<Longrightarrow> next_free h p < 2 ^ 32"
  by (cases fl) auto

lemma fchain_remove:
  assumes "fchain h SysFree (xs @ (p, n) # ys) 0" "nodesApart (xs @ (p, n) # ys)"
  shows "fchain (setLink (locAfter SysFree xs) (next_free h p) h) SysFree (xs @ ys) 0"
proof -
  let ?l = "locAfter SysFree xs" let ?h = "setLink ?l (next_free h p) h"
  have c: "fchain h SysFree xs (getLink h ?l)" "fchain h (NextFree p) ys 0"
    using assms(1) by (auto simp: fchain_append)
  have ap: "nodesApart xs" "\<forall>x \<in> set xs. \<forall>y \<in> set ys. apart (fst x) 12 (fst y) 12"
    using assms(2) by (auto simp: nodesApart_def sorted_wrt_append)
  have q: "next_free h p < 2 ^ 32" by (rule fchain_link_bound [OF c(2)])
  have "fchain ?h SysFree xs (next_free h p)" by (rule fchain_relink [OF c(1) ap(1) _ q]) (simp add: clear_def)
  moreover have "\<forall>y \<in> set ys. clear (linkAt ?l) (fst y) 12"
  proof
    fix y assume "y \<in> set ys"
    then have "clear (linkAt SysFree \<union> linksOf (set xs)) (fst y) 12"
      using ap(2) by (fastforce simp: clear_def linksOf_def apart_def)
    then show "clear (linkAt ?l) (fst y) 12" by (rule clear_mono) (rule linkAt_locAfter)
  qed
  then have "fchain ?h ?l ys 0"
    by (rule_tac fchain_frame [OF c(2) frame_setLink]) (simp_all add: getLink_setLink [OF q])
  ultimately show ?thesis by (simp add: fchain_append getLink_setLink [OF q])
qed

lemma fchain_insert:
  assumes "fchain h SysFree (xs @ ys) 0" "nodesApart (xs @ (p, n) # ys)" "hdr h p n False" "0 < p" "p < 2 ^ 31"
  shows "fchain (setLink (locAfter SysFree xs) p (set_next_free p (getLink h (locAfter SysFree xs)) h)) SysFree
    (xs @ (p, n) # ys) 0"
proof -
  let ?l = "locAfter SysFree xs" let ?q = "getLink h ?l"
  let ?h1 = "set_next_free p ?q h" let ?h = "setLink ?l p ?h1"
  have c: "fchain h SysFree xs ?q" "fchain h ?l ys 0" using assms(1) by (simp_all add: fchain_append)
  have ap: "nodesApart xs" "\<forall>x \<in> set xs. \<forall>y \<in> set ys. apart (fst x) 12 (fst y) 12"
      "\<forall>x \<in> set xs \<union> set ys. apart p 12 (fst x) 12"
    using assms(2) by (auto simp: nodesApart_def sorted_wrt_append apart_def)
  have q: "?q < 2 ^ 32" using c(2) by (cases ys) auto
  have fr1: "frame {p + 8..<p + 12} h ?h1" by (rule frame_set_next_free)
  have cl1: "clear {p + 8..<p + 12} (fst y) 12" if "y \<in> set xs \<union> set ys" for y
    using ap(3) that by (intro clear_interval) (force simp: apart_def)
  have sf: "sys_free ?h1 = sys_free h" by (simp add: set_next_free_def)
  have "fchain ?h1 SysFree xs ?q" by (rule fchain_frame [OF c(1) fr1]) (simp_all add: sf cl1)
  then have c1: "fchain ?h SysFree xs p" by (rule fchain_relink [OF _ ap(1)]) (use assms(5) in \<open>simp_all add: clear_def\<close>)
  have cl: "clear (linkAt ?l) y k" if "\<forall>x \<in> set xs. apart (fst x) 12 y k" for y k
  proof -
    have "clear (linkAt SysFree \<union> linksOf (set xs)) y k" using that by (fastforce simp: clear_def linksOf_def apart_def)
    then show ?thesis by (rule clear_mono) (rule linkAt_locAfter)
  qed
  have pcl: "clear (linkAt ?l) p 12" by (rule cl) (use ap(3) in \<open>auto simp: apart_def\<close>)
  have "hdr ?h1 p n False" by (rule hdr_frame [OF assms(3) fr1]) (rule clear_interval, simp)
  then have hd: "hdr ?h p n False" by (rule hdr_frame [OF _ frame_setLink]) (rule clear_part [OF pcl], simp_all)
  have "next_free ?h p = next_free ?h1 p" by (rule frame_next_free [OF frame_setLink]) (rule clear_part [OF pcl], simp_all)
  then have nx: "next_free ?h p = ?q" using q by simp
  have "fchain ?h1 (NextFree p) ys 0" by (rule fchain_frame [OF c(2) fr1]) (simp_all add: cl1 next_free_set [OF q])
  then have "fchain ?h (NextFree p) ys 0"
    by (rule fchain_frame [OF _ frame_setLink]) (use ap(2) nx q in \<open>auto intro: cl\<close>)
  then show ?thesis using c1 hd assms(4,5) by (simp add: fchain_append)
qed

text \<open>The free list holds the packets of \<open>F\<close>, the smallest first.\<close>

definition freeSet :: "rts_heap \<Rightarrow> node set \<Rightarrow> bool" where
  "freeSet h F \<longleftrightarrow> (\<exists>fl. fchain h SysFree fl 0 \<and> sorted_wrt (\<lambda>x y. snd x \<le> snd y) fl \<and> distinct fl \<and> set fl = F)"

definition apartNodes :: "node set \<Rightarrow> bool" where
  "apartNodes F \<longleftrightarrow> (\<forall>x \<in> F. \<forall>y \<in> F. x \<noteq> y \<longrightarrow> apart (fst x) 12 (fst y) 12)"

lemma apartNodesD: "apartNodes F \<Longrightarrow> x \<in> F \<Longrightarrow> y \<in> F \<Longrightarrow> x \<noteq> y \<Longrightarrow> apart (fst x) 12 (fst y) 12"
  by (simp add: apartNodes_def)

lemma nodesApart_set: "apartNodes (set fl) \<Longrightarrow> distinct fl \<Longrightarrow> nodesApart fl"
  by (induction fl) (auto simp: apartNodes_def nodesApart_def)

lemma freeSet_hdr: "freeSet h F \<Longrightarrow> (p, n) \<in> F \<Longrightarrow> hdr h p n False \<and> 0 < p \<and> p < 2 ^ 31"
  using fchain_nodes by (auto simp: freeSet_def)

lemma freeSet_frame:
  assumes "freeSet h F" "frame A h h'" "sys_free h' = sys_free h" "\<forall>x \<in> F. clear A (fst x) 12"
  shows "freeSet h' F"
proof -
  from assms(1) obtain fl where fl: "fchain h SysFree fl 0" "sorted_wrt (\<lambda>x y. snd x \<le> snd y) fl" "distinct fl" "set fl = F"
    by (auto simp: freeSet_def)
  have "fchain h' SysFree fl 0" by (rule fchain_frame [OF fl(1) assms(2)]) (use assms(3,4) fl(4) in simp_all)
  with fl show ?thesis by (auto simp: freeSet_def)
qed

lemma free_list_remove_ok:
  assumes F: "freeSet h F" "apartNodes F" "(p, n) \<in> F"
  shows "\<exists>h'. free_list_remove p h = Some h' \<and> freeSet h' (F - {(p, n)}) \<and> frame (linksOf (F - {(p, n)})) h h'"
proof -
  from F(1) obtain fl where fl: "fchain h SysFree fl 0" "sorted_wrt (\<lambda>x y. snd x \<le> snd y) fl" "distinct fl" "set fl = F"
    by (auto simp: freeSet_def)
  from F(3) fl(4) obtain xs ys where xy: "fl = xs @ (p, n) # ys" by (metis split_list)
  have ap: "nodesApart fl" using nodesApart_set F(2) fl(3,4) by blast
  have "\<forall>x \<in> set xs. fst x \<noteq> p" using ap by (fastforce simp: xy nodesApart_def sorted_wrt_append apart_def)
  then have tw: "takeWhile (\<lambda>x. fst x \<noteq> p) fl = xs" by (simp add: xy takeWhile_append2)
  let ?l = "locAfter SysFree xs" let ?h = "setLink ?l (next_free h p) h"
  have "getLink h ?l = p" "0 < p" using fl(1) by (auto simp: xy fchain_append)
  then have "free_list_remove p h = Some ?h" by (simp add: free_list_remove_def removeLocation_chain [OF fl(1)] tw)
  moreover have "fchain ?h SysFree (xs @ ys) 0" by (rule fchain_remove) (use fl(1) ap xy in simp_all)
  moreover have st: "set (xs @ ys) = F - {(p, n)}" "distinct (xs @ ys)" "sorted_wrt (\<lambda>x y. snd x \<le> snd y) (xs @ ys)"
    using fl(2-4) by (auto simp: xy sorted_wrt_append)
  moreover have "linkAt ?l \<subseteq> linksOf (F - {(p, n)})"
    using linkAt_locAfter [of SysFree xs] st(1) by (auto simp: linksOf_def)
  then have "frame (linksOf (F - {(p, n)})) h ?h" using frame_mono frame_setLink by blast
  ultimately show ?thesis unfolding freeSet_def by blast
qed

lemma free_list_insert_ok:
  assumes F: "freeSet h F" "apartNodes (insert (p, n) F)" "(p, n) \<notin> F" and p: "hdr h p n False" "0 < p" "p < 2 ^ 31"
  shows "\<exists>h'. free_list_insert p h = Some h' \<and> freeSet h' (insert (p, n) F) \<and> frame (linksOf (insert (p, n) F)) h h'"
proof -
  from F(1) obtain fl where fl: "fchain h SysFree fl 0" "sorted_wrt (\<lambda>x y. snd x \<le> snd y) fl" "distinct fl" "set fl = F"
    by (auto simp: freeSet_def)
  define xs ys where "xs = takeWhile (\<lambda>x. snd x < n) fl" and "ys = dropWhile (\<lambda>x. snd x < n) fl"
  then have xy: "fl = xs @ ys" by simp
  have ap: "nodesApart (xs @ (p, n) # ys)"
    by (rule nodesApart_set) (use F(2,3) fl(3,4) xy in auto)
  let ?l = "locAfter SysFree xs" let ?h1 = "set_next_free p (getLink h ?l) h" let ?h = "setLink ?l p ?h1"
  have "free_list_insert p h = Some ?h"
    by (simp add: free_list_insert_def hdr_size(1) [OF p(1)] insertLocation_chain [OF fl(1)] xs_def)
  moreover have "fchain ?h SysFree (xs @ (p, n) # ys) 0" by (rule fchain_insert) (use fl(1) ap p xy in simp_all)
  moreover have "sorted_wrt (\<lambda>x y. snd x \<le> snd y) (xs @ (p, n) # ys)"
  proof -
    have "\<forall>x \<in> set xs. snd x \<le> n" by (auto simp: xs_def dest: set_takeWhileD)
    moreover have "\<forall>y \<in> set ys. n \<le> snd y"
    proof (cases ys)
      case (Cons y zs)
      then have "n \<le> snd y" using hd_dropWhile [of "\<lambda>x. snd x < n" fl] by (auto simp: ys_def)
      then show ?thesis using fl(2) Cons by (fastforce simp: xy sorted_wrt_append)
    qed simp
    ultimately show ?thesis using fl(2) by (auto simp: xy sorted_wrt_append)
  qed
  moreover have "distinct (xs @ (p, n) # ys)" "set (xs @ (p, n) # ys) = insert (p, n) F" using fl(3,4) F(3) xy by auto
  moreover have "frame ({p + 8..<p + 12} \<union> linkAt ?l) h ?h" by (rule frame_trans [OF frame_set_next_free frame_setLink])
  then have "frame (linksOf (insert (p, n) F)) h ?h"
  proof (rule frame_mono)
    have "set xs \<subseteq> F" using fl(4) xy by auto
    then show "{p + 8..<p + 12} \<union> linkAt ?l \<subseteq> linksOf (insert (p, n) F)"
      using linkAt_locAfter [of SysFree xs] by (auto simp: linksOf_def)
  qed
  ultimately show ?thesis unfolding freeSet_def by blast
qed

end
