(* ===== verification/Heap_Packets.thy ===== *)
theory Heap_Packets
  imports Heap_Links
begin

text \<open>
  The packets of the heap: \<open>tiles\<close> says that they fill the region without gaps, \<open>heapInv\<close> is the invariant of the heap between
  operations, \<open>flux\<close> the state while one packet is being rebuilt. \<open>split\<close> leads from \<open>flux\<close> back to the invariant.
\<close>

section \<open>Packets tile the region\<close>

type_synonym block = "nat \<times> nat \<times> bool"

fun tiles :: "nat \<Rightarrow> block list \<Rightarrow> nat \<Rightarrow> bool" where
  "tiles a [] e = (a = e)"
| "tiles a ((p, n, u) # bs) e = (p = a \<and> 8 dvd n \<and> 8 \<le> n \<and> tiles (p + n + 8) bs e)"

definition blocks :: "rts_heap \<Rightarrow> block list \<Rightarrow> bool" where
  "blocks h bs \<longleftrightarrow> (\<forall>(p, n, u) \<in> set bs. hdr h p n u)"

definition freesOf :: "block list \<Rightarrow> node set" where
  "freesOf bs = {(p, n). (p, n, False) \<in> set bs}"

fun noAdj :: "block list \<Rightarrow> bool" where
  "noAdj ((p, n, u) # (q, k, v) # bs) = ((u \<or> v) \<and> noAdj ((q, k, v) # bs))"
| "noAdj bs = True"

definition regionOk :: "rts_heap \<Rightarrow> bool" where
  "regionOk h \<longleftrightarrow> 8 dvd sys_memory h \<and> 0 < sys_memory h \<and> 8 dvd SYSMEM_SIZE h \<and> 16 \<le> SYSMEM_SIZE h \<and>
     sys_memory h + SYSMEM_SIZE h \<le> 2 ^ 31"

abbreviation regionEnd :: "rts_heap \<Rightarrow> nat" where
  "regionEnd h \<equiv> sys_memory h + SYSMEM_SIZE h"

definition heapInv :: "rts_heap \<Rightarrow> block list \<Rightarrow> bool" where
  "heapInv h bs \<longleftrightarrow> regionOk h \<and> memory_is_initialized h \<and> tiles (sys_memory h) bs (regionEnd h) \<and> blocks h bs \<and>
     freeSet h (freesOf bs) \<and> noAdj bs"

lemma freesOf_simps [simp]:
  "freesOf [] = {}" "freesOf ((p, n, u) # bs) = (if u then freesOf bs else insert (p, n) (freesOf bs))"
  "freesOf (bs @ cs) = freesOf bs \<union> freesOf cs"
  by (auto simp: freesOf_def)

lemma blocks_simps [simp]:
  "blocks h []" "blocks h ((p, n, u) # bs) \<longleftrightarrow> hdr h p n u \<and> blocks h bs"
  "blocks h (bs @ cs) \<longleftrightarrow> blocks h bs \<and> blocks h cs"
  by (auto simp: blocks_def ball_Un)

lemma tiles_append: "tiles a (xs @ ys) e \<longleftrightarrow> (\<exists>m. tiles a xs m \<and> tiles m ys e)"
  by (induction a xs e rule: tiles.induct) auto

lemma tiles_le: "tiles a bs e \<Longrightarrow> a \<le> e"
  by (induction a bs e rule: tiles.induct) auto

lemma tiles_mem: "tiles a bs e \<Longrightarrow> (p, n, u) \<in> set bs \<Longrightarrow> a \<le> p \<and> p + n + 8 \<le> e \<and> 8 \<le> n"
  by (induction a bs e rule: tiles.induct) (auto dest: tiles_le)

lemma tiles_aligned: "tiles a bs e \<Longrightarrow> 8 dvd a \<Longrightarrow> (p, n, u) \<in> set bs \<Longrightarrow> 8 dvd p \<and> 8 dvd n"
  by (induction a bs e rule: tiles.induct) auto

lemma tiles_end: "tiles a bs e \<Longrightarrow> 8 dvd a \<Longrightarrow> 8 dvd e"
  by (induction a bs e rule: tiles.induct) auto

lemma freesOf_mem: "tiles a bs e \<Longrightarrow> x \<in> freesOf bs \<Longrightarrow> a \<le> fst x \<and> fst x + snd x + 8 \<le> e \<and> 8 \<le> snd x"
  using tiles_mem by (fastforce simp: freesOf_def)

lemma tiles_pair:
  "tiles a bs e \<Longrightarrow> (p, n, u) \<in> set bs \<Longrightarrow> (q, k, v) \<in> set bs \<Longrightarrow> (p, n, u) = (q, k, v) \<or> p + n + 8 \<le> q \<or> q + k + 8 \<le> p"
proof (induction a bs e rule: tiles.induct)
  case (2 a r m w bs e)
  have t: "tiles (r + m + 8) bs e" "r = a" using "2.prems"(1) by auto
  show ?case
  proof (cases "(p, n, u) \<in> set bs \<and> (q, k, v) \<in> set bs")
    case True
    then show ?thesis using "2.IH" t by blast
  next
    case False
    then show ?thesis using "2.prems" t(2) tiles_mem [OF t(1), of p n u] tiles_mem [OF t(1), of q k v] by auto
  qed
qed simp

lemma apartNodes_tiles: "tiles a bs e \<Longrightarrow> apartNodes (freesOf bs)"
  unfolding apartNodes_def
proof (intro ballI impI)
  fix x y assume t: "tiles a bs e" and xy: "x \<in> freesOf bs" "y \<in> freesOf bs" "x \<noteq> y"
  then have "fst x + snd x + 8 \<le> fst y \<or> fst y + snd y + 8 \<le> fst x"
    using tiles_pair [OF t, of "fst x" "snd x" False "fst y" "snd y" False] by (auto simp: freesOf_def)
  moreover have "8 \<le> snd x" "8 \<le> snd y" using freesOf_mem [OF t] xy by auto
  ultimately show "apart (fst x) 12 (fst y) 12" by (auto simp: apart_def)
qed

lemma noAdj_append:
  "noAdj (xs @ ys) \<longleftrightarrow> noAdj xs \<and> noAdj ys \<and> (xs \<noteq> [] \<and> ys \<noteq> [] \<longrightarrow> snd (snd (last xs)) \<or> snd (snd (hd ys)))"
proof (induction xs)
  case (Cons x xs)
  then show ?case by (cases x; cases xs; cases ys) auto
qed simp

section \<open>A packet in flux\<close>

text \<open>The packets before and after the region from \<open>p\<close> are in order; the free list holds the free ones among them and the
  packets of \<open>G\<close>, which are inside the region. The region is being rebuilt.\<close>

definition flux :: "rts_heap \<Rightarrow> block list \<Rightarrow> nat \<Rightarrow> nat \<Rightarrow> block list \<Rightarrow> node set \<Rightarrow> bool" where
  "flux h xs p n ys G \<longleftrightarrow> regionOk h \<and> memory_is_initialized h \<and> tiles (sys_memory h) xs p \<and> tiles (p + n + 8) ys (regionEnd h) \<and>
     8 dvd n \<and> 8 \<le> n \<and> blocks h (xs @ ys) \<and> freeSet h (freesOf (xs @ ys) \<union> G) \<and>
     apartNodes G \<and> (\<forall>(r, m) \<in> G. p \<le> r \<and> r + m + 8 \<le> p + n + 8 \<and> 8 \<le> m)"

lemma flux_bounds:
  assumes "flux h xs p n ys G"
  shows "0 < p" "p + n + 8 \<le> regionEnd h" "regionEnd h \<le> 2 ^ 31" "8 dvd n" "8 \<le> n" "8 dvd p" "sys_memory h \<le> p"
proof -
  have t: "tiles (sys_memory h) xs p" "tiles (p + n + 8) ys (regionEnd h)" "regionOk h" using assms by (auto simp: flux_def)
  from tiles_end [OF t(1)] t(3) show "8 dvd p" by (simp add: regionOk_def)
qed (use assms tiles_le in \<open>force simp: flux_def regionOk_def\<close>)+

lemma flux_tiles: "flux h xs p n ys G \<Longrightarrow> tiles (sys_memory h) (xs @ (p, n, u) # ys) (regionEnd h)"
  by (auto simp: flux_def tiles_append)

lemma flux_apartNodes:
  assumes "flux h xs p n ys G"
  shows "apartNodes (freesOf (xs @ ys) \<union> G)"
proof -
  have a: "apartNodes (freesOf (xs @ ys))"
    using apartNodes_tiles [OF flux_tiles [OF assms, of True]] by simp
  have x: "fst x + 16 \<le> p \<or> p + n + 8 \<le> fst x" if "x \<in> freesOf (xs @ ys)" for x
    using assms that freesOf_mem [of "sys_memory h" xs p x] freesOf_mem [of "p + n + 8" ys "regionEnd h" x]
    by (auto simp: flux_def)
  have g: "apartNodes G" "\<And>y. y \<in> G \<Longrightarrow> p \<le> fst y \<and> fst y + 16 \<le> p + n + 8" using assms by (force simp: flux_def)+
  have xg: "apart (fst x) 12 (fst y) 12" "apart (fst y) 12 (fst x) 12" if "x \<in> freesOf (xs @ ys)" "y \<in> G" for x y
    using x [OF that(1)] g(2) [OF that(2)] by (auto simp: apart_def)
  show ?thesis using a g(1) xg unfolding apartNodes_def by blast
qed

lemma linksOf_clear: "(\<And>x. x \<in> F \<Longrightarrow> p + n \<le> fst x + 8 \<or> fst x + 12 \<le> p) \<Longrightarrow> clear (linksOf F) p n"
  by (fastforce simp: clear_def linksOf_def)

text \<open>Links are in free packets: no link is in a header, and none in a packet that is in use.\<close>

lemma links_clear_blocks:
  assumes "flux h xs p n ys G" "(q, k, u) \<in> set (xs @ ys)" "F \<subseteq> freesOf (xs @ ys) \<union> G"
  shows "clear (linksOf F) q 8" "u \<Longrightarrow> clear (linksOf F) q (k + 8)"
proof -
  note t = flux_tiles [OF assms(1), of True]
  have k: "8 \<le> k" "q + k + 8 \<le> p \<or> p + n + 8 \<le> q"
    using assms(1,2) tiles_mem [of "sys_memory h" xs p q k u] tiles_mem [of "p + n + 8" ys "regionEnd h" q k u]
    by (auto simp: flux_def)
  have "q + k + 8 \<le> fst x \<or> fst x + 16 \<le> q \<or> (fst x = q \<and> \<not> u)" if "x \<in> F" for x
  proof (cases "x \<in> G")
    case True
    then have "p \<le> fst x" "fst x + 16 \<le> p + n + 8" using assms(1) by (force simp: flux_def)+
    then show ?thesis using k(2) by auto
  next
    case False
    then have "(fst x, snd x, False) \<in> set (xs @ ys)" using that assms(3) by (auto simp: freesOf_def)
    then show ?thesis using tiles_pair [OF t, of q k u "fst x" "snd x" False] tiles_mem [OF t, of "fst x" "snd x" False] assms(2)
      by auto
  qed
  then show "clear (linksOf F) q 8" "u \<Longrightarrow> clear (linksOf F) q (k + 8)"
    by (fastforce simp: clear_def linksOf_def)+
qed

lemma flux_open:
  assumes "heapInv h (xs @ (p, n, u) # ys)"
  shows "flux h xs p n ys (if u then {} else {(p, n)})" "hdr h p n u" "noAdj xs" "noAdj ys"
  using assms by (auto simp: heapInv_def flux_def tiles_append noAdj_append apartNodes_def Un_commute
      elim: noAdj.elims)

lemma flux_close:
  assumes "flux h xs p n ys G" "tiles p zs (p + n + 8)" "blocks h zs" "freesOf zs = G" "noAdj (xs @ zs @ ys)"
  shows "heapInv h (xs @ zs @ ys)"
  using assms by (auto simp: heapInv_def flux_def tiles_append Un_ac)

lemma blocks_frame:
  assumes "blocks h bs" "frame A h h'" "\<forall>(p, n, u) \<in> set bs. clear A p 8"
  shows "blocks h' bs"
  unfolding blocks_def
proof (clarify)
  fix p n u assume b: "(p, n, u) \<in> set bs"
  then have "clear A p 4" using assms(3) by (auto intro: clear_part)
  then show "hdr h' p n u" using assms(1,2) b by (auto simp: blocks_def intro: hdr_frame)
qed

lemma regionOk_frame: "frame A h h' \<Longrightarrow> regionOk h' = regionOk h"
  by (simp add: frame_def regionOk_def)

text \<open>A write inside the region that spares the packets of \<open>G\<close>.\<close>

lemma flux_write:
  assumes "flux h xs p n ys G" "frame {a..<b} h h'" "p \<le> a" "b \<le> p + n + 8" "sys_free h' = sys_free h"
    and "\<forall>x \<in> G. clear {a..<b} (fst x) 12"
  shows "flux h' xs p n ys G"
proof -
  have c: "q + k + 8 \<le> p \<or> p + n + 8 \<le> q" "8 \<le> k" if "(q, k, u) \<in> set (xs @ ys)" for q k u
    using assms(1) that tiles_mem [of "sys_memory h" xs p q k u] tiles_mem [of "p + n + 8" ys "regionEnd h" q k u]
    by (auto simp: flux_def)
  have "\<forall>(q, k, u) \<in> set (xs @ ys). clear {a..<b} q 8"
    using c assms(3,4) by (fastforce simp: clear_def)
  then have "blocks h' (xs @ ys)" using blocks_frame [OF _ assms(2)] assms(1) by (auto simp: flux_def)
  moreover have "\<forall>x \<in> freesOf (xs @ ys) \<union> G. clear {a..<b} (fst x) 12"
    using c assms(3,4,6) by (fastforce simp: clear_def freesOf_def)
  then have "freeSet h' (freesOf (xs @ ys) \<union> G)"
    using assms(1,5) by (intro freeSet_frame [OF _ assms(2)]) (auto simp: flux_def)
  ultimately show ?thesis using assms(1,2) regionOk_frame [OF assms(2)] by (simp add: flux_def frame_def)
qed

lemma flux_remove:
  assumes fl: "flux h xs p n ys G" and q: "(q, k) \<in> freesOf (xs @ ys) \<union> G"
  shows "\<exists>h'. free_list_remove q h = Some h' \<and> freeSet h' (freesOf (xs @ ys) \<union> G - {(q, k)}) \<and>
    frame (linksOf (freesOf (xs @ ys) \<union> G - {(q, k)})) h h' \<and> blocks h' (xs @ ys) \<and> hdr h' q k False"
proof -
  let ?F = "freesOf (xs @ ys) \<union> G"
  have F: "freeSet h ?F" using fl by (simp add: flux_def)
  obtain h' where h': "free_list_remove q h = Some h'" "freeSet h' (?F - {(q, k)})" "frame (linksOf (?F - {(q, k)})) h h'"
    using free_list_remove_ok [OF F flux_apartNodes [OF fl] q] by blast
  have "blocks h' (xs @ ys)"
    using fl by (intro blocks_frame [OF _ h'(3)]) (auto simp: flux_def intro: links_clear_blocks(1) [OF fl])
  moreover have "clear (linksOf (?F - {(q, k)})) q 4"
  proof (rule linksOf_clear)
    fix x assume "x \<in> ?F - {(q, k)}"
    then have "apart (fst (q, k)) 12 (fst x) 12" using apartNodesD [OF flux_apartNodes [OF fl] q, of x] by auto
    then show "q + 4 \<le> fst x + 8 \<or> fst x + 12 \<le> q" by (auto simp: apart_def)
  qed
  then have "hdr h' q k False" using freeSet_hdr [OF F q] hdr_frame [OF _ h'(3)] by blast
  ultimately show ?thesis using h' by blast
qed

lemma flux_insert:
  assumes fl: "flux h xs p n ys {}" and r: "hdr h r m False" "p \<le> r" "r + m + 8 \<le> p + n + 8"
  shows "\<exists>h'. free_list_insert r h = Some h' \<and> flux h' xs p n ys {(r, m)} \<and>
    frame (linksOf (insert (r, m) (freesOf (xs @ ys)))) h h' \<and> hdr h' r m False"
proof -
  let ?F = "freesOf (xs @ ys)" let ?F' = "insert (r, m) ?F"
  have F: "freeSet h ?F" using fl by (simp add: flux_def)
  have m: "8 \<le> m" using r(1) by (simp add: hdr_def)
  have b: "0 < p" "p + n + 8 \<le> 2 ^ 31" using flux_bounds [OF fl] by auto
  have out: "fst x + 16 \<le> r \<or> r + m + 8 \<le> fst x" if "x \<in> ?F" for x
    using fl that r freesOf_mem [of "sys_memory h" xs p x] freesOf_mem [of "p + n + 8" ys "regionEnd h" x]
    by (auto simp: flux_def)
  have ap: "apartNodes ?F'"
  proof -
    have a: "apartNodes ?F" using flux_apartNodes [OF fl] by simp
    have "apart r 12 (fst x) 12" "apart (fst x) 12 r 12" if "x \<in> ?F" for x using out [OF that] m by (auto simp: apart_def)
    with a show ?thesis unfolding apartNodes_def by auto
  qed
  have "(r, m) \<notin> ?F" using out [of "(r, m)"] m by auto
  then obtain h' where h': "free_list_insert r h = Some h'" "freeSet h' ?F'" "frame (linksOf ?F') h h'"
    using free_list_insert_ok [OF F ap _ r(1)] b r by auto
  have cl: "clear (linksOf ?F') q 8" if "(q, k, u) \<in> set (xs @ ys)" for q k u
  proof -
    have "q + k + 8 \<le> p \<or> p + n + 8 \<le> q" "8 \<le> k"
      using fl that tiles_mem [of "sys_memory h" xs p q k u] tiles_mem [of "p + n + 8" ys "regionEnd h" q k u]
      by (auto simp: flux_def)
    then have "clear {r + 8..<r + 12} q 8" using r m by (intro clear_interval) auto
    moreover have "clear (linksOf ?F) q 8" by (rule links_clear_blocks(1) [OF fl that]) simp
    ultimately show ?thesis by (auto simp: linksOf_def clear_def)
  qed
  then have "\<forall>(q, k, u) \<in> set (xs @ ys). clear (linksOf ?F') q 8" by blast
  then have "blocks h' (xs @ ys)" using fl by (intro blocks_frame [OF _ h'(3)]) (simp_all add: flux_def)
  then have "flux h' xs p n ys {(r, m)}"
    using fl h'(2,3) r m regionOk_frame [OF h'(3)] by (simp add: flux_def frame_def apartNodes_def)
  moreover have "clear (linksOf ?F') r 4"
  proof (rule linksOf_clear)
    fix x assume "x \<in> ?F'"
    then show "r + 4 \<le> fst x + 8 \<or> fst x + 12 \<le> r" using out [of x] by auto
  qed
  then have "hdr h' r m False" using r(1) hdr_frame [OF _ h'(3)] by blast
  ultimately show ?thesis using h' by blast
qed

lemma flux_remove_in:
  assumes "flux h xs p n ys {(r, m)}"
  shows "\<exists>h'. free_list_remove r h = Some h' \<and> flux h' xs p n ys {} \<and> frame (linksOf (freesOf (xs @ ys))) h h' \<and> hdr h' r m False"
proof -
  let ?F = "freesOf (xs @ ys)"
  have "(r, m) \<notin> ?F"
    using assms freesOf_mem [of "sys_memory h" xs p "(r, m)"] freesOf_mem [of "p + n + 8" ys "regionEnd h" "(r, m)"]
    by (auto simp: flux_def)
  then have "?F \<union> {(r, m)} - {(r, m)} = ?F" by auto
  with flux_remove [OF assms, of r m] obtain h' where h': "free_list_remove r h = Some h'" "freeSet h' ?F"
    "frame (linksOf ?F) h h'" "blocks h' (xs @ ys)" "hdr h' r m False" by auto
  then have "flux h' xs p n ys {}"
    using assms regionOk_frame [OF h'(3)] by (simp add: flux_def frame_def apartNodes_def)
  with h' show ?thesis by blast
qed

lemma flux_remove_after:
  assumes "flux h xs p n ((q, k, False) # ys) {}"
  shows "\<exists>h'. free_list_remove q h = Some h' \<and> flux h' xs p (n + k + 8) ys {} \<and> frame (linksOf (freesOf (xs @ ys))) h h' \<and>
    hdr h' q k False"
proof -
  let ?F = "freesOf (xs @ ys)"
  have t: "q = p + n + 8" "tiles (q + k + 8) ys (regionEnd h)" "8 dvd k" "8 \<le> k" using assms by (auto simp: flux_def)
  have "(q, k) \<notin> ?F"
    using assms t freesOf_mem [of "sys_memory h" xs p "(q, k)"] freesOf_mem [of "q + k + 8" ys "regionEnd h" "(q, k)"]
    by (auto simp: flux_def)
  then have "freesOf (xs @ (q, k, False) # ys) \<union> {} - {(q, k)} = ?F" by auto
  with flux_remove [OF assms, of q k] obtain h' where h': "free_list_remove q h = Some h'" "freeSet h' ?F"
    "frame (linksOf ?F) h h'" "blocks h' (xs @ (q, k, False) # ys)" "hdr h' q k False" by auto
  then have "flux h' xs p (n + k + 8) ys {}"
    using assms t regionOk_frame [OF h'(3)] by (simp add: flux_def frame_def apartNodes_def ac_simps)
  with h' show ?thesis by blast
qed

lemma flux_remove_before:
  assumes "flux h (xs @ [(q, k, False)]) p n ys {}"
  shows "\<exists>h'. free_list_remove q h = Some h' \<and> flux h' xs q (k + n + 8) ys {} \<and> frame (linksOf (freesOf (xs @ ys))) h h' \<and>
    hdr h' q k False"
proof -
  let ?F = "freesOf (xs @ ys)"
  have t: "p = q + k + 8" "tiles (sys_memory h) xs q" "tiles (p + n + 8) ys (regionEnd h)" "8 dvd k" "8 \<le> k"
    using assms by (auto simp: flux_def tiles_append)
  have "(q, k) \<notin> ?F"
    using t freesOf_mem [of "sys_memory h" xs q "(q, k)"] freesOf_mem [of "p + n + 8" ys "regionEnd h" "(q, k)"]
    by auto
  then have "freesOf ((xs @ [(q, k, False)]) @ ys) \<union> {} - {(q, k)} = ?F" by auto
  with flux_remove [OF assms, of q k] obtain h' where h': "free_list_remove q h = Some h'" "freeSet h' ?F"
    "frame (linksOf ?F) h h'" "blocks h' ((xs @ [(q, k, False)]) @ ys)" "hdr h' q k False" by auto
  then have "flux h' xs q (k + n + 8) ys {}"
    using assms t regionOk_frame [OF h'(3)] by (simp add: flux_def frame_def apartNodes_def ac_simps)
  with h' show ?thesis by blast
qed

lemma set_free_sys_free [simp]:
  "sys_free (set_payload_size_and_mark_free p n h) = sys_free h"
  "sys_free (set_payload_size_and_mark_used p n h) = sys_free h"
  "sys_free (mark_packet_used p h) = sys_free h" "sys_free (mark_packet_free p h) = sys_free h"
  by (simp_all add: set_payload_size_and_mark_free_def set_payload_size_and_mark_used_def mark_packet_used_def
      mark_packet_free_def set_payload_size_def)

lemma noAdj_used: "noAdj ((p, n, True) # bs) \<longleftrightarrow> noAdj bs"
  by (cases bs) auto

lemma noAdj_used_append: "noAdj xs \<Longrightarrow> noAdj ((p, n, True) # zs) \<Longrightarrow> noAdj (xs @ (p, n, True) # zs)"
  by (simp add: noAdj_append)

lemma linksOf_insert: "linksOf (insert (r, m) F) = {r + 8..<r + 12} \<union> linksOf F"
  by (auto simp: linksOf_def)

lemma links_clear_region:
  assumes "flux h xs p n ys {}" "p \<le> a" "a + k \<le> p + n + 8"
  shows "clear (linksOf (freesOf (xs @ ys))) a k"
proof (rule linksOf_clear)
  fix x assume "x \<in> freesOf (xs @ ys)"
  then have "fst x + 16 \<le> p \<or> p + n + 8 \<le> fst x"
    using assms(1) freesOf_mem [of "sys_memory h" xs p x] freesOf_mem [of "p + n + 8" ys "regionEnd h" x]
    by (auto simp: flux_def)
  then show "a + k \<le> fst x + 8 \<or> fst x + 12 \<le> a" using assms(2,3) by auto
qed

text \<open>The end of \<open>split\<close>: the rest \<open>r\<close> of the region goes to the free list and the front is marked used.\<close>

lemma split_finish:
  assumes fl: "flux h xs p N ys {}" and r: "hdr h r m False" "r = p + s + 8" "r + m = p + N"
    and s: "8 dvd s" "8 \<le> s" and adj: "noAdj xs" "noAdj ((r, m, False) # ys)"
  shows "\<exists>h'. free_list_insert r h \<bind> (\<lambda>h. Some (set_payload_size_and_mark_used p s h)) = Some h' \<and>
    heapInv h' (xs @ (p, s, True) # (r, m, False) # ys) \<and>
    frame ({p..<p + 4} \<union> {r + 8..<r + 12} \<union> linksOf (freesOf (xs @ ys))) h h'"
proof -
  obtain h1 where h1: "free_list_insert r h = Some h1" "flux h1 xs p N ys {(r, m)}"
      "frame (linksOf (insert (r, m) (freesOf (xs @ ys)))) h h1" "hdr h1 r m False"
    using flux_insert [OF fl r(1)] r(2,3) by auto
  let ?h = "set_payload_size_and_mark_used p s h1"
  have fr: "frame {p..<p + 4} h1 ?h" by (rule frame_headers)
  have b: "s < 2 ^ 31" using flux_bounds [OF fl] r(2,3) by auto
  have "flux ?h xs p N ys {(r, m)}"
    by (rule flux_write [OF h1(2) fr]) (use r s flux_bounds [OF fl] in \<open>auto intro: clear_interval\<close>)
  moreover have "hdr ?h p s True" using s b by (rule hdr_set_used)
  moreover have "hdr ?h r m False" by (rule hdr_frame [OF h1(4) fr]) (rule clear_interval, simp add: r(2))
  moreover have m: "8 dvd m" "8 \<le> m" using r(1) by (auto simp: hdr_def)
  moreover have "noAdj (xs @ [(p, s, True), (r, m, False)] @ ys)"
    using noAdj_used_append [OF adj(1)] adj(2) by (simp add: noAdj_used)
  ultimately have "heapInv ?h (xs @ [(p, s, True), (r, m, False)] @ ys)"
    using r(2,3) s by (intro flux_close [of ?h xs p N ys "{(r, m)}"]) auto
  moreover have "frame (linksOf (insert (r, m) (freesOf (xs @ ys))) \<union> {p..<p + 4}) h ?h" by (rule frame_trans [OF h1(3) fr])
  then have "frame ({p..<p + 4} \<union> {r + 8..<r + 12} \<union> linksOf (freesOf (xs @ ys))) h ?h"
    by (rule frame_mono) (auto simp: linksOf_insert)
  ultimately show ?thesis using h1(1) by simp
qed

definition splitBlocks :: "nat \<Rightarrow> nat \<Rightarrow> nat \<Rightarrow> block list \<Rightarrow> block list" where
  "splitBlocks p n s ys =
     (if 16 \<le> n - s then (p, s, True) #
        (case ys of (q, k, False) # zs \<Rightarrow> (p + s + 8, n - s + k, False) # zs | _ \<Rightarrow> (p + s + 8, n - s - 8, False) # ys)
      else (p, n, True) # ys)"

lemma split_begin:
  assumes fl: "flux h xs p n ys {}" and p: "hdr h p n u" and s: "8 dvd s" "8 \<le> s" "16 \<le> n - s"
    and h1: "h1 = set_payload_size_and_mark_free (p + s + 8) (n - s - 8) h"
  shows "flux h1 xs p n ys {}" "hdr h1 (p + s + 8) (n - s - 8) False" "next_packet h1 (p + s + 8) = p + n + 8"
    "heap_end h1 = regionEnd h1 - 8" "frame {p + s + 8..<p + s + 12} h h1"
proof -
  let ?r = "p + s + 8" let ?m = "n - s - 8"
  have b: "n < 2 ^ 31" "8 dvd n" using flux_bounds [OF fl] by auto
  have m: "8 dvd ?m" "8 \<le> ?m" "?m < 2 ^ 31" using b s by (auto simp: dvd_diff_nat)
  have "frame {?r..<?r + 4} h h1" unfolding h1 by (rule frame_headers)
  then show fr: "frame {p + s + 8..<p + s + 12} h h1" by (simp add: add.assoc)
  show f1: "flux h1 xs p n ys {}" by (rule flux_write [OF fl fr]) (use s in \<open>auto simp: h1\<close>)
  show r1: "hdr h1 ?r ?m False" unfolding h1 by (rule hdr_set_free [OF m])
  show "next_packet h1 ?r = p + n + 8" using hdr_size(3) [OF r1] s by simp
  show "heap_end h1 = regionEnd h1 - 8"
    using f1 by (auto simp: heap_end_def heap_start_def heap_size_def packet_consts flux_def regionOk_def)
qed

lemma split_ok_merge:
  assumes fl: "flux h xs p n ((q, k, False) # zs) {}" and p: "hdr h p n u" and s: "8 dvd s" "8 \<le> s" "16 \<le> n - s"
    and adj: "noAdj xs" "noAdj ((q, k, False) # zs)"
  shows "\<exists>h'. split p s h = Some h' \<and> heapInv h' (xs @ (p, s, True) # (p + s + 8, n - s + k, False) # zs) \<and>
    frame ({p..<p + 4} \<union> {p + 8 + s..<p + n + 8} \<union> linksOf (freesOf (xs @ zs))) h h'"
proof -
  let ?r = "p + s + 8" let ?m = "n - s - 8"
  define h1 where "h1 = set_payload_size_and_mark_free ?r ?m h"
  have h1: "set_payload_size_and_mark_free ?r (n - (s + 8)) h = h1" by (simp add: h1_def)
  note b = split_begin [OF fl p s h1_def]
  have q: "q = p + n + 8" "8 dvd k" "8 \<le> k" "q + k + 8 \<le> regionEnd h1" "hdr h1 q k False"
    using b(1) tiles_le by (auto simp: flux_def)
  obtain h2 where h2: "free_list_remove q h1 = Some h2" "flux h2 xs p (n + k + 8) zs {}"
      "frame (linksOf (freesOf (xs @ zs))) h1 h2" "hdr h2 q k False"
    using flux_remove_after [OF b(1)] by blast
  have r2: "hdr h2 ?r ?m False"
    by (rule hdr_frame [OF b(2) h2(3)]) (rule clear_mono [OF links_clear_region [OF b(1)]], use s in \<open>auto simp: linksOf_def\<close>)
  let ?h3 = "set_payload_size_and_mark_free ?r (?m + k + 8) h2"
  have fr3: "frame {?r..<?r + 4} h2 ?h3" by (rule frame_headers)
  have f3: "flux ?h3 xs p (n + k + 8) zs {}" by (rule flux_write [OF h2(2) fr3]) (use s in auto)
  have m: "8 dvd ?m" "8 \<le> ?m" using b(2) by (auto simp: hdr_def)
  have d: "8 dvd ?m + k + 8" using m(1) q(2) by (intro dvd_add) simp_all
  have r3: "hdr ?h3 ?r (?m + k + 8) False" using m(2) d flux_bounds(2,3) [OF h2(2)] by (intro hdr_set_free) auto
  have adj': "noAdj ((?r, ?m + k + 8, False) # zs)" using adj(2) by (cases zs) auto
  obtain h' where h': "free_list_insert ?r ?h3 \<bind> (\<lambda>h. Some (set_payload_size_and_mark_used p s h)) = Some h'"
      "heapInv h' (xs @ (p, s, True) # (?r, ?m + k + 8, False) # zs)"
      "frame ({p..<p + 4} \<union> {?r + 8..<?r + 12} \<union> linksOf (freesOf (xs @ zs))) ?h3 h'"
    using split_finish [OF f3 r3 refl _ s(1,2) adj(1) adj'] s(3) by auto
  have "p + n + 8 < heap_end h1" using q(1,3,4) b(4) by linarith
  then have "split p s h = Some h'"
    using h2(1) h'(1) q s(3) hdr_size(2) [OF q(5)] hdr_size(1) [OF r2] hdr_size(1) [OF h2(4)]
    by (simp add: split_def hdr_size(1) [OF p] packet_consts h1 Let_def b(3))
  moreover have "?m + k + 8 = n - s + k" using s(3) by simp
  moreover have "frame ((({?r..<p + s + 12} \<union> linksOf (freesOf (xs @ zs))) \<union> {?r..<?r + 4}) \<union>
      ({p..<p + 4} \<union> {?r + 8..<?r + 12} \<union> linksOf (freesOf (xs @ zs)))) h h'"
    by (rule frame_trans [OF frame_trans [OF frame_trans [OF b(5) h2(3)] fr3] h'(3)])
  then have "frame ({p..<p + 4} \<union> {p + 8 + s..<p + n + 8} \<union> linksOf (freesOf (xs @ zs))) h h'"
    by (rule frame_mono) (use s(3) in auto)
  ultimately show ?thesis using h'(2) by metis
qed

lemma split_ok_plain:
  assumes fl: "flux h xs p n ys {}" and p: "hdr h p n u" and s: "8 dvd s" "8 \<le> s" "16 \<le> n - s"
    and adj: "noAdj xs" "noAdj ys" and no: "\<nexists>q k zs. ys = (q, k, False) # zs"
  shows "\<exists>h'. split p s h = Some h' \<and> heapInv h' (xs @ (p, s, True) # (p + s + 8, n - s - 8, False) # ys) \<and>
    frame ({p..<p + 4} \<union> {p + 8 + s..<p + n + 8} \<union> linksOf (freesOf (xs @ ys))) h h'"
proof -
  let ?r = "p + s + 8" let ?m = "n - s - 8"
  define h1 where "h1 = set_payload_size_and_mark_free ?r ?m h"
  have h1: "set_payload_size_and_mark_free ?r (n - (s + 8)) h = h1" by (simp add: h1_def)
  note b = split_begin [OF fl p s h1_def]
  have no': "\<not> (p + n + 8 < heap_end h1 \<and> packet_is_free h1 (p + n + 8))"
  proof (cases ys)
    case Nil
    then have "p + n + 8 = regionEnd h1" using b(1) by (simp add: flux_def)
    then show ?thesis using b(4) by linarith
  next
    case (Cons y zs)
    then obtain q k where y: "y = (q, k, True)" using no by (cases y) auto
    then have "hdr h1 (p + n + 8) k True" using b(1) Cons by (auto simp: flux_def)
    then show ?thesis by (simp add: hdr_size(2))
  qed
  have adj': "noAdj ((?r, ?m, False) # ys)" using adj(2) no by (cases ys) auto
  obtain h' where h': "free_list_insert ?r h1 \<bind> (\<lambda>h. Some (set_payload_size_and_mark_used p s h)) = Some h'"
      "heapInv h' (xs @ (p, s, True) # (?r, ?m, False) # ys)"
      "frame ({p..<p + 4} \<union> {?r + 8..<?r + 12} \<union> linksOf (freesOf (xs @ ys))) h1 h'"
    using split_finish [OF b(1,2) refl _ s(1,2) adj(1) adj'] s(3) by auto
  have "split p s h = Some h'" using h'(1) no' s(3)
    by (auto simp: split_def hdr_size(1) [OF p] packet_consts h1 Let_def b(3))
  moreover have "frame ({?r..<p + s + 12} \<union> ({p..<p + 4} \<union> {?r + 8..<?r + 12} \<union> linksOf (freesOf (xs @ ys)))) h h'"
    by (rule frame_trans [OF b(5) h'(3)])
  then have "frame ({p..<p + 4} \<union> {p + 8 + s..<p + n + 8} \<union> linksOf (freesOf (xs @ ys))) h h'"
    by (rule frame_mono) (use s(3) in auto)
  ultimately show ?thesis using h'(2) by blast
qed

lemma split_ok:
  assumes fl: "flux h xs p n ys {}" and p: "hdr h p n u" and s: "8 dvd s" "8 \<le> s" "s \<le> n" and adj: "noAdj xs" "noAdj ys"
  shows "\<exists>h'. split p s h = Some h' \<and> heapInv h' (xs @ splitBlocks p n s ys) \<and>
    frame ({p..<p + 4} \<union> {p + 8 + s..<p + n + 8} \<union> linksOf (freesOf (xs @ ys))) h h'"
proof (cases "16 \<le> n - s")
  case False
  let ?h = "mark_packet_used p h"
  have fr: "frame {p..<p + 4} h ?h" by (rule frame_headers)
  have "flux ?h xs p n ys {}" by (rule flux_write [OF fl fr]) simp_all
  then have "heapInv ?h (xs @ [(p, n, True)] @ ys)"
    using hdr_mark_used [OF p] flux_bounds(4,5) [OF fl] adj
    by (intro flux_close [of ?h xs p n ys "{}"]) (auto simp: noAdj_append noAdj_used)
  moreover have "split p s h = Some ?h" using False by (simp add: split_def hdr_size(1) [OF p] packet_consts)
  moreover have "frame ({p..<p + 4} \<union> {p + 8 + s..<p + n + 8} \<union> linksOf (freesOf (xs @ ys))) h ?h"
    by (rule frame_mono [OF fr]) auto
  ultimately show ?thesis using False by (simp add: splitBlocks_def)
next
  case True
  show ?thesis
  proof (cases "\<exists>q k zs. ys = (q, k, False) # zs")
    case m: True
    then obtain q k zs where ys: "ys = (q, k, False) # zs" by blast
    obtain h' where h': "split p s h = Some h'" "heapInv h' (xs @ (p, s, True) # (p + s + 8, n - s + k, False) # zs)"
        "frame ({p..<p + 4} \<union> {p + 8 + s..<p + n + 8} \<union> linksOf (freesOf (xs @ zs))) h h'"
      using split_ok_merge [OF fl [unfolded ys] p s(1,2) True adj(1) adj(2) [unfolded ys]] by blast
    have "frame ({p..<p + 4} \<union> {p + 8 + s..<p + n + 8} \<union> linksOf (freesOf (xs @ ys))) h h'"
      by (rule frame_mono [OF h'(3)]) (auto simp: ys linksOf_def)
    with h' True show ?thesis by (simp add: splitBlocks_def ys)
  next
    case False
    then have "splitBlocks p n s ys = (p, s, True) # (p + s + 8, n - s - 8, False) # ys"
      using True by (auto simp: splitBlocks_def split: list.splits bool.splits)
    then show ?thesis using split_ok_plain [OF fl p s(1,2) True adj False] by simp
  qed
qed

end
