(* ===== verification/Heap_Alloc.thy ===== *)
theory Heap_Alloc
  imports Heap_Packets
begin

text \<open>
  Rounding of sizes, alignment of addresses, the scan of the free list for the smallest packet that fits, and what an allocation
  makes of that packet.
\<close>

section \<open>Alignment\<close>

lemma u32_round_down:
  assumes "k < 32"
  shows "unat (w AND NOT (mask k :: u32)) = unat w - unat w mod 2 ^ k"
proof -
  have "w AND NOT (mask k) = push_bit k (drop_bit k w)"
    by (rule bit_word_eqI) (auto simp: bit_simps)
  moreover have "unat (push_bit k (drop_bit k w)) = push_bit k (drop_bit k (unat w))"
  proof -
    have "take_bit 32 (unat w) = unat w" using unsigned_less [of w, where ?'a = nat] by (intro take_bit_nat_eq_self) simp
    then have "unat (push_bit k (drop_bit k w)) = take_bit 32 (push_bit k (drop_bit k (unat w)))"
      by (simp add: unsigned_push_bit_eq unsigned_drop_bit_eq)
    moreover have "push_bit k (drop_bit k (unat w)) \<le> unat w"
      by (simp add: push_bit_eq_mult drop_bit_eq_div)
    then have "push_bit k (drop_bit k (unat w)) < 2 ^ 32" using unsigned_less [of w, where ?'a = nat] by simp
    ultimately show ?thesis by (simp add: take_bit_nat_eq_self)
  qed
  ultimately show ?thesis by (simp add: push_bit_eq_mult drop_bit_eq_div minus_mod_eq_div_mult)
qed

lemma and_pred_zero: "(a :: nat) AND (a - 1) = 0 \<Longrightarrow> 0 < a \<Longrightarrow> \<exists>k. a = 2 ^ k"
proof (induction a rule: less_induct)
  case (less a)
  show ?case
  proof (cases "even a")
    case True
    then obtain b where b: "a = 2 * b" by blast
    have "a - 1 = 2 * (b - 1) + 1" using less.prems(2) b by auto
    then have "a AND (a - 1) = 2 * (b AND (b - 1))" unfolding b by (simp only:) (subst and_nat_rec, simp)
    then have "b AND (b - 1) = 0" "0 < b" using less.prems b by auto
    then obtain k where "b = 2 ^ k" using less.IH [of b] less.prems(2) b by auto
    then show ?thesis using b by (intro exI [of _ "Suc k"]) simp
  next
    case False
    then obtain b where b: "a = 2 * b + 1" by (auto elim: oddE)
    have "a AND (a - 1) = 2 * b" unfolding b by (simp only: add_diff_cancel_right') (subst and_nat_rec, simp)
    then have "a = 1" using less.prems b by simp
    then show ?thesis by (intro exI [of _ 0]) simp
  qed
qed

definition power2 :: "u32 \<Rightarrow> bool" where
  "power2 al \<longleftrightarrow> (\<exists>k. 3 \<le> k \<and> k < 32 \<and> unat al = 2 ^ k)"

lemma power2_guard:
  assumes "\<not> (al < 8 \<or> al AND (al - 1) \<noteq> 0)"
  shows "power2 (al :: u32)"
proof -
  have a: "8 \<le> unat al" "al AND (al - 1) = 0" using assms by (auto simp: word_less_nat_alt not_less)
  have "al \<noteq> 0" using a(1) by auto
  then have "unat (al - 1) = unat al - 1" by (simp add: unat_minus_one)
  moreover have "unat (al AND (al - 1)) = unat al AND unat (al - 1)" by (rule unsigned_and_eq)
  ultimately have "unat al AND (unat al - 1) = 0" using a(2) by simp
  then obtain k where k: "unat al = 2 ^ k" using and_pred_zero [of "unat al"] a(1) by auto
  have "k < 32"
  proof (rule ccontr)
    assume "\<not> k < 32"
    then have "(2 :: nat) ^ 32 \<le> 2 ^ k" by (intro power_increasing) auto
    then show False using unsigned_less [of al, where ?'a = nat] k by simp
  qed
  moreover have "3 \<le> k"
  proof (rule ccontr)
    assume "\<not> 3 \<le> k"
    then have "(2 :: nat) ^ k \<le> 2 ^ 2" by (intro power_increasing) auto
    then show False using a(1) k by simp
  qed
  ultimately show ?thesis using k by (auto simp: power2_def)
qed

lemma power2_8: "power2 8"
  unfolding power2_def by (intro exI [of _ 3]) simp

lemma power2_mask: "power2 al \<Longrightarrow> \<exists>k. 3 \<le> k \<and> k < 32 \<and> unat al = 2 ^ k \<and> al - 1 = mask k"
proof -
  assume "power2 al"
  then obtain k where k: "3 \<le> k" "k < 32" "unat al = 2 ^ k" by (auto simp: power2_def)
  have "al = of_nat (unat al)" by simp
  then have "al = 2 ^ k" using k(3) by simp
  then show ?thesis using k by (auto simp: mask_eq_exp_minus_1)
qed

lemma roundSize_nat:
  assumes "unat s + 7 < 2 ^ 32"
  shows "unat (roundSize s) = unat s + 7 - (unat s + 7) mod 8"
proof -
  have "unat s + unat (7 :: u32) < 2 ^ LENGTH(32)" using assms by simp
  then have "unat (s + 7) = unat s + unat (7 :: u32)" by (simp only: unat_add_lem)
  then have "unat (s + 7) = unat s + 7" by simp
  moreover have "(7 :: u32) = mask 3" by (simp add: mask_eq_exp_minus_1)
  ultimately show ?thesis using u32_round_down [of 3 "s + 7"] by (simp add: roundSize_def packet_consts)
qed

lemma round_up_8:
  fixes n m :: nat
  assumes "0 < n" "n \<le> m" "8 dvd m"
  shows "8 dvd n + 7 - (n + 7) mod 8" "8 \<le> n + 7 - (n + 7) mod 8" "n \<le> n + 7 - (n + 7) mod 8" "n + 7 - (n + 7) mod 8 \<le> m"
proof -
  have e: "n + 7 - (n + 7) mod 8 = 8 * ((n + 7) div 8)" by (simp add: minus_mod_eq_mult_div)
  have "(n + 7) mod 8 < 8" by simp
  then show "n \<le> n + 7 - (n + 7) mod 8" by linarith
  show "8 dvd n + 7 - (n + 7) mod 8" unfolding e by simp
  show "8 \<le> n + 7 - (n + 7) mod 8" unfolding e using assms(1) div_le_mono [of 8 "n + 7" 8] by simp
  obtain j where "m = 8 * j" using assms(3) by blast
  then show "n + 7 - (n + 7) mod 8 \<le> m" unfolding e using assms(2) div_le_mono [of "n + 7" "8 * j + 7" 8] by simp
qed

lemma roundSize_ok:
  assumes "s \<noteq> 0" "unat s \<le> m" "8 dvd m" "m < 2 ^ 31"
  shows "8 dvd unat (roundSize s)" "8 \<le> unat (roundSize s)" "unat s \<le> unat (roundSize s)" "unat (roundSize s) \<le> m"
proof -
  have "unat (roundSize s) = unat s + 7 - (unat s + 7) mod 8" using assms by (intro roundSize_nat) simp
  moreover have "0 < unat s" using assms(1) by (simp add: unat_gt_0)
  ultimately show "8 dvd unat (roundSize s)" "8 \<le> unat (roundSize s)" "unat s \<le> unat (roundSize s)" "unat (roundSize s) \<le> m"
    using round_up_8 [of "unat s" m] assms(2,3) by simp_all
qed

definition roundUp :: "nat \<Rightarrow> nat \<Rightarrow> nat" where
  "roundUp al a = a + (al - 1) - (a + (al - 1)) mod al"

lemma roundUp_ok:
  assumes "0 < al"
  shows "al dvd roundUp al a" "a \<le> roundUp al a" "roundUp al a < a + al"
proof -
  have m: "(a + (al - 1)) mod al < al" using assms by simp
  show "al dvd roundUp al a" unfolding roundUp_def by (rule dvd_minus_mod)
  show "a \<le> roundUp al a" "roundUp al a < a + al" using m assms unfolding roundUp_def by linarith+
qed

lemma skipSlice_ok:
  assumes "current + 16 \<le> a" "8 \<le> al" "8 dvd a" "8 dvd current"
  shows "skipSlice current al a = Some (if a = current + 16 then a + al else a)"
proof (cases "a = current + 16")
  case True
  then show ?thesis using assms(2) by (subst skipSlice.simps, subst skipSlice.simps) (simp add: packet_consts)
next
  case False
  have "current + 24 \<le> a"
  proof -
    have "8 dvd a - current" using assms by (simp add: dvd_diff_nat)
    then obtain j where "a - current = 8 * j" by blast
    then show ?thesis using assms(1) False by presburger
  qed
  then have "\<not> a - 8 < current + 16" by linarith
  then show ?thesis using False by (subst skipSlice.simps) (simp add: packet_consts)
qed

text \<open>The first aligned address of a packet, one alignment further where the slice before it would be too small.\<close>

definition startOf :: "nat \<Rightarrow> nat \<Rightarrow> nat" where
  "startOf al p = (let a = roundUp al (p + 8) in if a = p + 16 then a + al else a)"

lemma alignedStart_ok:
  assumes al: "power2 al" and p: "8 dvd p" "p + 8 \<le> 2 ^ 31"
  shows "alignedStart p al = Some (startOf (unat al) p)" "unat al dvd startOf (unat al) p" "8 dvd startOf (unat al) p"
    "startOf (unat al) p = p + 8 \<or> p + 24 \<le> startOf (unat al) p"
proof -
  obtain k where k: "3 \<le> k" "k < 32" "unat al = 2 ^ k" "al - 1 = mask k" using power2_mask [OF al] by blast
  have a8: "8 dvd unat al" "8 \<le> unat al"
    using k(1,3) le_imp_power_dvd [of 3 k "2 :: nat"] power_increasing [of 3 k "2 :: nat"] by simp_all
  let ?r = "roundUp (unat al) (p + 8)"
  have up: "unat al dvd ?r" "p + 8 \<le> ?r" using roundUp_ok [of "unat al" "p + 8"] a8(2) by auto
  have d8: "8 dvd ?r" using up(1) a8(1) dvd_trans by blast
  have k31: "(2 :: nat) ^ k \<le> 2 ^ 31" using k(2) by (intro power_increasing) auto
  have m: "unat (mask k :: u32) = 2 ^ k - 1"
  proof -
    have "al \<noteq> 0" using a8 by auto
    then show ?thesis using k(3,4) unat_minus_one [of al] by simp
  qed
  have p32: "unat (of_nat (p + 8) :: u32) = p + 8"
    using p(2) take_bit_nat_eq_self [of "p + 8" 32] by (simp add: unsigned_of_nat del: of_nat_add)
  have s: "unat (of_nat (p + 8) + mask k :: u32) = p + 8 + (2 ^ k - 1)"
  proof -
    have "unat (of_nat (p + 8) :: u32) + unat (mask k :: u32) < 2 ^ LENGTH(32)" unfolding p32 m using p(2) k31 by simp
    then have "unat (of_nat (p + 8) + mask k :: u32) = unat (of_nat (p + 8) :: u32) + unat (mask k :: u32)"
      by (simp only: unat_add_lem)
    then show ?thesis unfolding p32 m .
  qed
  have st: "unat ((of_nat (p + 8) + (al - 1)) AND NOT (al - 1)) = ?r"
    unfolding k(4) u32_round_down [OF k(2)] s roundUp_def k(3) by simp
  have ge: "?r = p + 8 \<or> p + 16 \<le> ?r" "?r = p + 8 \<or> ?r = p + 16 \<or> p + 24 \<le> ?r"
  proof -
    have "8 dvd ?r - p" using d8 p(1) by (simp add: dvd_diff_nat)
    then obtain j where "?r - p = 8 * j" by blast
    then show "?r = p + 8 \<or> p + 16 \<le> ?r" "?r = p + 8 \<or> ?r = p + 16 \<or> p + 24 \<le> ?r" using up(2) by presburger+
  qed
  show "alignedStart p al = Some (startOf (unat al) p)"
    using skipSlice_ok [of p ?r "unat al"] ge(1) a8(2) d8 p(1) st
    by (auto simp: alignedStart_def startOf_def Let_def packet_consts add.commute)
  show "unat al dvd startOf (unat al) p" using up(1) by (auto simp: startOf_def Let_def)
  then show "8 dvd startOf (unat al) p" using a8(1) dvd_trans by blast
  show "startOf (unat al) p = p + 8 \<or> p + 24 \<le> startOf (unat al) p" using ge(2) a8(2) by (auto simp: startOf_def Let_def)
qed

section \<open>Allocation\<close>

definition fits :: "nat \<Rightarrow> nat \<Rightarrow> node \<Rightarrow> bool" where
  "fits al s x \<longleftrightarrow> startOf al (fst x) + s \<le> fst x + 8 + snd x"

lemma alignedScan_chain:
  assumes "fchain h loc fl 0" "power2 al" "\<forall>x \<in> set fl. 8 dvd fst x \<and> fst x + 8 \<le> 2 ^ 31"
  shows "alignedScan h al s (getLink h loc) =
    Some (case find (fits (unat al) s) fl of None \<Rightarrow> (0, 0) | Some x \<Rightarrow> (fst x, startOf (unat al) (fst x)))"
  using assms
proof (induction fl arbitrary: loc)
  case Nil
  then show ?case by (subst alignedScan.simps) simp
next
  case (Cons x fl)
  obtain p n where x: "x = (p, n)" by (cases x)
  have p: "getLink h loc = p" "0 < p" "hdr h p n False" "fchain h (NextFree p) fl 0" using Cons.prems(1) by (auto simp: x)
  have a: "alignedStart p al = Some (startOf (unat al) p)" using alignedStart_ok(1) [OF Cons.prems(2)] Cons.prems(3) by (simp add: x)
  have "alignedScan h al s (next_free h p) =
      Some (case find (fits (unat al) s) fl of None \<Rightarrow> (0, 0) | Some x \<Rightarrow> (fst x, startOf (unat al) (fst x)))"
    using Cons.IH [of "NextFree p"] p(4) Cons.prems(2,3) by simp
  then show ?case using p(2) a hdr_size(1) [OF p(3)]
    by (subst alignedScan.simps) (simp add: p(1) x fits_def packet_consts)
qed

lemma freeSet_scan:
  assumes "freeSet h F" "power2 al" "\<forall>x \<in> F. 8 dvd fst x \<and> fst x + 8 \<le> 2 ^ 31"
  shows "\<exists>p a. alignedScan h al s (sys_free h) = Some (p, a) \<and>
    (if p = 0 then \<forall>x \<in> F. \<not> fits (unat al) s x
     else a = startOf (unat al) p \<and> (\<exists>n. (p, n) \<in> F \<and> fits (unat al) s (p, n) \<and>
       (\<forall>(q, k) \<in> F. fits (unat al) s (q, k) \<longrightarrow> n \<le> k)))"
proof -
  from assms(1) obtain fl where fl: "fchain h SysFree fl 0" "sorted_wrt (\<lambda>x y. snd x \<le> snd y) fl" "set fl = F"
    by (auto simp: freeSet_def)
  note sc = alignedScan_chain [OF fl(1) assms(2), of s]
  show ?thesis
  proof (cases "find (fits (unat al) s) fl")
    case None
    then have "\<forall>x \<in> F. \<not> fits (unat al) s x" using fl(3) by (auto simp: find_None_iff)
    with None show ?thesis using sc assms(3) fl(3) by (intro exI [of _ 0]) simp
  next
    case (Some x)
    then obtain i where i: "i < length fl" "x = fl ! i" "fits (unat al) s x" "\<forall>j < i. \<not> fits (unat al) s (fl ! j)"
      by (auto simp: find_Some_iff)
    have xF: "x \<in> F" using i(1,2) fl(3) by auto
    then have "0 < fst x" using fchain_nodes [OF fl(1), of "fst x" "snd x"] fl(3) by simp
    moreover have "snd x \<le> snd y" if y: "y \<in> F" "fits (unat al) s y" for y
    proof -
      obtain j where j: "j < length fl" "y = fl ! j" using y(1) fl(3) by (auto simp: in_set_conv_nth)
      then have "i \<le> j" using i(4) y(2) by (meson not_le)
      then show ?thesis using sorted_wrt_nth_less [OF fl(2), of i j] i(2) j by (cases "i = j") auto
    qed
    ultimately show ?thesis using sc assms(3) fl(3) Some xF i(3)
      by (intro exI [of _ "fst x"] exI [of _ "startOf (unat al) (fst x)"]) (auto intro!: exI [of _ "snd x"])
  qed
qed

text \<open>Cutting a slice off the front of the packet in flux.\<close>

lemma flux_slice:
  assumes fl: "flux h xs p n ys {}" and m: "8 dvd m" "8 \<le> m" "m + 16 \<le> n"
    and h1: "h1 = set_payload_size_and_mark_used (p + m + 8) (n - m - 8) (set_payload_size_and_mark_free p m h)"
  shows "next_packet (set_payload_size_and_mark_free p m h) p = p + m + 8"
    "\<exists>h'. free_list_insert p h1 = Some h' \<and> flux h' (xs @ [(p, m, False)]) (p + m + 8) (n - m - 8) ys {} \<and>
      hdr h' (p + m + 8) (n - m - 8) True \<and> frame ({p..<p + n + 8} \<union> linksOf (freesOf (xs @ ys))) h h'"
proof -
  let ?h0 = "set_payload_size_and_mark_free p m h" let ?r = "p + m + 8" let ?k = "n - m - 8"
  have b: "n < 2 ^ 31" "8 dvd n" using flux_bounds [OF fl] by auto
  have fr0: "frame {p..<p + 4} h ?h0" by (rule frame_headers)
  have f0: "flux ?h0 xs p n ys {}" by (rule flux_write [OF fl fr0]) simp_all
  have p0: "hdr ?h0 p m False" using m b by (intro hdr_set_free) auto
  show "next_packet ?h0 p = p + m + 8" by (rule hdr_size(3) [OF p0])
  have fr1: "frame {?r..<?r + 4} ?h0 h1" unfolding h1 by (rule frame_headers)
  have f1: "flux h1 xs p n ys {}" by (rule flux_write [OF f0 fr1]) (use m in \<open>auto simp: h1\<close>)
  have p1: "hdr h1 p m False" by (rule hdr_frame [OF p0 fr1]) (rule clear_interval, simp)
  have k: "8 dvd ?k" "8 \<le> ?k" "?k < 2 ^ 31" using m b by (auto simp: dvd_diff_nat)
  have r1: "hdr h1 ?r ?k True" unfolding h1 by (rule hdr_set_used [OF k])
  obtain h' where h': "free_list_insert p h1 = Some h'" "flux h' xs p n ys {(p, m)}"
      "frame (linksOf (insert (p, m) (freesOf (xs @ ys)))) h1 h'" "hdr h' p m False"
    using flux_insert [OF f1 p1] m by auto
  have "clear (linksOf (insert (p, m) (freesOf (xs @ ys)))) ?r 4"
    unfolding linksOf_insert clear_Un using links_clear_region [OF f1, of ?r 4] m by (auto intro: clear_interval)
  then have "hdr h' ?r ?k True" using r1 hdr_frame [OF _ h'(3)] by blast
  moreover have "flux h' (xs @ [(p, m, False)]) ?r ?k ys {}"
    using h'(2,4) k m by (auto simp: flux_def tiles_append apartNodes_def)
  moreover have "frame (({p..<p + 4} \<union> {?r..<?r + 4}) \<union> linksOf (insert (p, m) (freesOf (xs @ ys)))) h h'"
    by (rule frame_trans [OF frame_trans [OF fr0 fr1] h'(3)])
  then have "frame ({p..<p + n + 8} \<union> linksOf (freesOf (xs @ ys))) h h'"
    by (rule frame_mono) (use m in \<open>auto simp: linksOf_insert\<close>)
  ultimately show "\<exists>h'. free_list_insert p h1 = Some h' \<and> flux h' (xs @ [(p, m, False)]) ?r ?k ys {} \<and>
      hdr h' ?r ?k True \<and> frame ({p..<p + n + 8} \<union> linksOf (freesOf (xs @ ys))) h h'"
    using h'(1) by blast
qed

text \<open>The packets after an allocation at \<open>a\<close> from the free packet at \<open>p\<close>.\<close>

definition allocBlocks :: "nat \<Rightarrow> nat \<Rightarrow> nat \<Rightarrow> nat \<Rightarrow> block list \<Rightarrow> block list" where
  "allocBlocks p n a s ys =
     (if a = p + 8 then splitBlocks p n s ys
      else (p, a - p - 16, False) # splitBlocks (a - 8) (n - (a - p - 8)) s ys)"

lemma carve_slice:
  assumes fl: "flux h xs p (m + 8 + k) ys {}" "hdr h p (m + 8 + k) False" and m: "8 dvd m" "8 \<le> m" "8 \<le> k"
  shows "\<exists>h'. carve p (p + m + 16) h = Some (p + m + 8, h') \<and> flux h' (xs @ [(p, m, False)]) (p + m + 8) k ys {} \<and>
    hdr h' (p + m + 8) k True \<and> frame ({p..<p + m + k + 16} \<union> linksOf (freesOf (xs @ ys))) h h'"
proof -
  let ?h0 = "set_payload_size_and_mark_free p m h"
  define h1 where "h1 = set_payload_size_and_mark_used (p + m + 8) (m + 8 + k - m - 8) ?h0"
  have m16: "m + 16 \<le> m + 8 + k" using m(3) by simp
  note sl = flux_slice [OF fl(1) m(1,2) m16 h1_def]
  obtain h' where h': "free_list_insert p h1 = Some h'" "flux h' (xs @ [(p, m, False)]) (p + m + 8) k ys {}"
      "hdr h' (p + m + 8) k True" "frame ({p..<p + (m + 8 + k) + 8} \<union> linksOf (freesOf (xs @ ys))) h h'"
    using sl(2) by auto
  have "set_payload_size_and_mark_used (p + m + 8) k ?h0 = h1" by (simp add: h1_def)
  then have "carve p (p + m + 16) h = Some (p + m + 8, h')"
    using h'(1) sl(1) by (simp add: carve_def hdr_size(1) [OF fl(2)] packet_consts Let_def)
  moreover have "p + (m + 8 + k) + 8 = p + m + k + 16" by simp
  ultimately show ?thesis using h'(2-4) by metis
qed

lemma allocate_packet:
  assumes inv: "heapInv h (xs @ (p, n, False) # ys)"
    and a: "8 dvd a" "a = p + 8 \<or> p + 24 \<le> a" "a + s \<le> p + 8 + n" and s: "8 dvd s" "8 \<le> s"
  shows "\<exists>h'. do { h \<leftarrow> free_list_remove p h; (aln_packet, h) \<leftarrow> carve p a h; h \<leftarrow> split aln_packet s h;
        Some (aln_packet + PACKET_OVERHEAD, h) } = Some (a, h') \<and>
    heapInv h' (xs @ allocBlocks p n a s ys) \<and> frame ({p..<p + n + 8} \<union> linksOf (freesOf (xs @ ys))) h h'"
proof -
  note op = flux_open [OF inv, simplified]
  obtain h1 where h1: "free_list_remove p h = Some h1" "flux h1 xs p n ys {}" "frame (linksOf (freesOf (xs @ ys))) h h1"
      "hdr h1 p n False"
    using flux_remove_in [OF op(1)] by blast
  show ?thesis
  proof (cases "a = p + 8")
    case True
    obtain h' where h': "split p s h1 = Some h'" "heapInv h' (xs @ splitBlocks p n s ys)"
        "frame ({p..<p + 4} \<union> {p + 8 + s..<p + n + 8} \<union> linksOf (freesOf (xs @ ys))) h1 h'"
      using split_ok [OF h1(2,4) s _ op(3,4)] a(3) True by auto
    have "frame ({p..<p + n + 8} \<union> linksOf (freesOf (xs @ ys))) h h'"
      by (rule frame_mono [OF frame_trans [OF h1(3) h'(3)]]) (use a(3) True in auto)
    with h' h1(1) True show ?thesis by (simp add: allocBlocks_def carve_def packet_consts)
  next
    case False
    define m k where "m = a - p - 16" and "k = n - m - 8"
    have am: "a = p + m + 16" using a(2) False by (auto simp: m_def)
    have nk: "n = m + 8 + k" using a(3) s(2) am by (auto simp: k_def)
    have m: "8 dvd m" "8 \<le> m" "8 \<le> k" "s \<le> k"
    proof -
      have "8 dvd p + m + 16" "8 dvd p" using a(1) am flux_bounds(6) [OF op(1)] by simp_all
      then show "8 dvd m" by presburger
      show "8 \<le> m" "8 \<le> k" "s \<le> k" using a(2,3) False am nk s(2) by auto
    qed
    obtain h2 where h2: "carve p a h1 = Some (p + m + 8, h2)" "flux h2 (xs @ [(p, m, False)]) (p + m + 8) k ys {}"
        "hdr h2 (p + m + 8) k True" "frame ({p..<p + m + k + 16} \<union> linksOf (freesOf (xs @ ys))) h1 h2"
      using carve_slice [OF h1(2,4) [unfolded nk] m(1-3)] am by auto
    have adj: "noAdj (xs @ [(p, m, False)])" using inv by (auto simp: heapInv_def noAdj_append)
    obtain h' where h': "split (p + m + 8) s h2 = Some h'"
        "heapInv h' ((xs @ [(p, m, False)]) @ splitBlocks (p + m + 8) k s ys)"
        "frame ({p + m + 8..<p + m + 8 + 4} \<union> {p + m + 8 + 8 + s..<p + m + 8 + k + 8} \<union>
          linksOf (freesOf ((xs @ [(p, m, False)]) @ ys))) h2 h'"
      using split_ok [OF h2(2,3) s m(4) adj op(4)] by blast
    have "frame ({p..<p + n + 8} \<union> linksOf (freesOf (xs @ ys))) h h'"
      by (rule frame_mono [OF frame_trans [OF frame_trans [OF h1(3) h2(4)] h'(3)]])
        (use m nk in \<open>auto simp: linksOf_insert linksOf_def\<close>)
    moreover have "allocBlocks p n a s ys = (p, m, False) # splitBlocks (p + m + 8) k s ys"
      by (simp add: allocBlocks_def am nk ac_simps)
    ultimately show ?thesis using h1(1) h2(1) h'(1,2) by (simp add: packet_consts am)
  qed
qed

end
