(* ===== verification/Heap_Operations.thy ===== *)
theory Heap_Operations
  imports Heap_Alloc
begin

text \<open>
  \<open>free\<close> with its coalescing, \<open>aligned_alloc\<close>, \<open>malloc\<close>, \<open>calloc\<close> and \<open>realloc\<close> on a heap in order. \<open>live h\<close> is the set of
  blocks in use with their capacities, computed from the headers; \<open>keeps\<close> says that blocks hold the same bytes.
\<close>

section \<open>Release\<close>

definition prevFree :: "block list \<Rightarrow> nat" where
  "prevFree xs = (if xs \<noteq> [] \<and> \<not> snd (snd (last xs)) then fst (last xs) else 0)"

definition nextFree :: "block list \<Rightarrow> nat" where
  "nextFree ys = (if ys \<noteq> [] \<and> \<not> snd (snd (hd ys)) then fst (hd ys) else 0)"

lemma freeWalk_tiles:
  assumes "tiles a bs e" "blocks h bs" "packet \<le> e"
  shows "freeWalk h packet prev a =
    (let ws = takeWhile (\<lambda>b. fst b < packet) bs; rs = dropWhile (\<lambda>b. fst b < packet) bs in
     Some (if ws = [] then prev else fst (last ws), if rs = [] then e else fst (hd rs)))"
  using assms
proof (induction a bs e arbitrary: prev rule: tiles.induct)
  case (1 a e)
  then show ?case by (subst freeWalk.simps) simp
next
  case (2 a p n u bs e)
  then have n: "next_packet h a = p + n + 8" using hdr_size(3) [of h p n u] by auto
  show ?case
  proof (cases "p < packet")
    case True
    have "p = a" "tiles (p + n + 8) bs e" "blocks h bs" using "2.prems" by auto
    then show ?thesis using True "2.IH" "2.prems"(3) n by (subst freeWalk.simps) (simp add: Let_def)
  next
    case False
    then show ?thesis using 2 by (subst freeWalk.simps) simp
  qed
qed

lemma freeWalk_at:
  assumes "heapInv h (xs @ (p, n, u) # ys)"
  shows "freeWalk h p 0 (sys_memory h) = Some (if xs = [] then 0 else fst (last xs), p)"
proof -
  have t: "tiles (sys_memory h) (xs @ (p, n, u) # ys) (regionEnd h)" "blocks h (xs @ (p, n, u) # ys)"
    using assms by (auto simp: heapInv_def)
  have xs: "\<forall>b \<in> set xs. fst b < p"
  proof
    fix b assume "b \<in> set xs"
    then show "fst b < p" using t(1) tiles_mem [of "sys_memory h" xs p "fst b" "fst (snd b)" "snd (snd b)"]
      by (auto simp: tiles_append)
  qed
  have "p \<le> regionEnd h" using tiles_mem [OF t(1), of p n u] by simp
  from freeWalk_tiles [OF t this, of 0] show ?thesis using xs by (simp add: takeWhile_append2 dropWhile_append2 Let_def)
qed

lemma prev_next_free:
  assumes "heapInv h (xs @ (p, n, u) # ys)"
  shows "(let prev = (if xs = [] then 0 else fst (last xs)) in if prev \<noteq> 0 \<and> \<not> packet_is_free h prev then 0 else prev) = prevFree xs"
    "(let next = (if heap_end h < next_packet h p then 0 else next_packet h p)
      in if next \<noteq> 0 \<and> \<not> packet_is_free h next then 0 else next) = nextFree ys"
proof -
  have b: "blocks h (xs @ (p, n, u) # ys)" "tiles (sys_memory h) (xs @ (p, n, u) # ys) (regionEnd h)" "regionOk h"
    using assms by (auto simp: heapInv_def)
  show "(let prev = (if xs = [] then 0 else fst (last xs)) in if prev \<noteq> 0 \<and> \<not> packet_is_free h prev then 0 else prev) = prevFree xs"
  proof (cases xs rule: rev_cases)
    case (snoc zs z)
    then have "hdr h (fst z) (fst (snd z)) (snd (snd z))" using b(1) by (cases z) simp
    then show ?thesis using snoc hdr_size(2) by (auto simp: prevFree_def Let_def)
  qed (simp add: prevFree_def)
  have np: "next_packet h p = p + n + 8" using b(1) hdr_size(3) [of h p n u] by simp
  have he: "heap_end h = regionEnd h - 8" "16 \<le> SYSMEM_SIZE h"
    using b(3) by (auto simp: heap_end_def heap_start_def heap_size_def packet_consts regionOk_def)
  show "(let next = (if heap_end h < next_packet h p then 0 else next_packet h p)
      in if next \<noteq> 0 \<and> \<not> packet_is_free h next then 0 else next) = nextFree ys"
  proof (cases ys)
    case Nil
    then have "heap_end h < next_packet h p" using b(2) np he by (auto simp: tiles_append)
    then show ?thesis by (simp add: Nil nextFree_def)
  next
    case (Cons y zs)
    then obtain q k v where y: "y = (q, k, v)" "q = p + n + 8" "q + k + 8 \<le> regionEnd h" "8 \<le> k" "hdr h q k v"
      using b tiles_le by (cases y) (fastforce simp: tiles_append)
    then have "\<not> heap_end h < p + n + 8" using he by linarith
    then show ?thesis using Cons y np hdr_size(2) [OF y(5)] by (simp add: nextFree_def Let_def)
  qed
qed

lemma noAdj_Cons: "noAdj ((p, n, u) # ys) \<longleftrightarrow> noAdj ys \<and> (ys \<noteq> [] \<longrightarrow> u \<or> snd (snd (hd ys)))"
  by (cases ys) auto

lemma free_finish:
  assumes fl: "flux h xs P N ys {}" and h1: "frame {P..<P + 4} h h1" "hdr h1 P N False" "sys_free h1 = sys_free h"
    and adj: "noAdj xs" "noAdj ys" "prevFree xs = 0" "nextFree ys = 0"
  shows "\<exists>h'. free_list_insert P h1 = Some h' \<and> heapInv h' (xs @ (P, N, False) # ys) \<and>
    frame ({P..<P + N + 8} \<union> linksOf (freesOf (xs @ ys))) h h'"
proof -
  have f1: "flux h1 xs P N ys {}" by (rule flux_write [OF fl h1(1)]) (simp_all add: h1(3))
  obtain h' where h': "free_list_insert P h1 = Some h'" "flux h' xs P N ys {(P, N)}"
      "frame (linksOf (insert (P, N) (freesOf (xs @ ys)))) h1 h'" "hdr h' P N False"
    using flux_insert [OF f1 h1(2)] by auto
  have b: "8 dvd N" "8 \<le> N" "0 < P" using flux_bounds [OF fl] by auto
  have pos: "0 < q" if "(q, k, v) \<in> set (xs @ ys)" for q k v
    using fl that tiles_mem [of "sys_memory h" xs P q k v] tiles_mem [of "P + N + 8" ys "regionEnd h" q k v]
    by (auto simp: flux_def regionOk_def)
  have "xs = [] \<or> snd (snd (last xs))" using adj(3) pos [of "fst (last xs)" "fst (snd (last xs))" "snd (snd (last xs))"]
    by (cases "xs = []") (auto simp: prevFree_def split: if_splits)
  moreover have "ys = [] \<or> snd (snd (hd ys))" using adj(4) pos [of "fst (hd ys)" "fst (snd (hd ys))" "snd (snd (hd ys))"]
    by (cases "ys = []") (auto simp: nextFree_def split: if_splits)
  ultimately have "noAdj (xs @ [(P, N, False)] @ ys)" using adj(1,2) by (auto simp: noAdj_append noAdj_Cons)
  then have "heapInv h' (xs @ [(P, N, False)] @ ys)" using h'(2,4) b by (intro flux_close) auto
  moreover have "frame ({P..<P + N + 8} \<union> linksOf (freesOf (xs @ ys))) h h'"
    by (rule frame_mono [OF frame_trans [OF h1(1) h'(3)]]) (use b(2) in \<open>auto simp: linksOf_insert\<close>)
  ultimately show ?thesis using h'(1) by simp
qed

text \<open>The packets after a release.\<close>

definition freeBlocks :: "block list \<Rightarrow> nat \<Rightarrow> nat \<Rightarrow> block list \<Rightarrow> block list" where
  "freeBlocks xs p n ys =
     (let (xs, p, n) = (if prevFree xs \<noteq> 0 then (butlast xs, fst (last xs), fst (snd (last xs)) + n + 8) else (xs, p, n));
          (n, ys) = (if nextFree ys \<noteq> 0 then (n + fst (snd (hd ys)) + 8, tl ys) else (n, ys)) in
      xs @ (p, n, False) # ys)"

lemma prevFree_snoc: "prevFree xs \<noteq> 0 \<Longrightarrow> \<exists>zs k. xs = zs @ [(prevFree xs, k, False)] \<and> prevFree xs = fst (last xs)"
  by (cases xs rule: rev_cases) (auto simp: prevFree_def split: if_splits)

lemma nextFree_Cons: "nextFree ys \<noteq> 0 \<Longrightarrow> \<exists>zs k. ys = (nextFree ys, k, False) # zs"
  by (cases ys) (auto simp: nextFree_def split: if_splits)

lemma used_around:
  assumes "noAdj (xs @ [(p, n, False)])" shows "prevFree xs = 0"
  using assms by (auto simp: noAdj_append prevFree_def)

lemma used_after:
  assumes "noAdj ((p, n, False) # ys)" shows "nextFree ys = 0"
  using assms by (auto simp: noAdj_Cons nextFree_def)

lemma links_keep_hdr:
  assumes "flux h xs P N ys {}" "F \<subseteq> freesOf (xs @ ys)" "frame (linksOf F) h h'" "hdr h a m v" "P \<le> a" "a \<le> P + N"
  shows "hdr h' a m v"
proof (rule hdr_frame [OF assms(4,3)])
  have "clear (linksOf (freesOf (xs @ ys))) a 4" by (rule links_clear_region [OF assms(1,5)]) (use assms(6) in simp)
  then show "clear (linksOf F) a 4" by (rule clear_mono) (use assms(2) in \<open>auto simp: linksOf_def\<close>)
qed

lemma merge_prev:
  assumes fl: "flux h xs p n ys {}" and p: "hdr h p n u" and adj: "noAdj xs"
  shows "\<exists>h1 xs1 P N. (if prevFree xs \<noteq> 0 then free_list_remove (prevFree xs) h else Some h) = Some h1 \<and>
    flux h1 xs1 P N ys {} \<and> hdr h1 p n u \<and> P \<le> p \<and> p \<le> P + N \<and> frame (linksOf (freesOf (xs1 @ ys))) h h1 \<and>
    noAdj xs1 \<and> prevFree xs1 = 0 \<and>
    (prevFree xs = 0 \<and> xs1 = xs \<and> P = p \<and> N = n \<or>
     (\<exists>k. xs = xs1 @ [(P, k, False)] \<and> prevFree xs = P \<and> P \<noteq> 0 \<and> N = k + n + 8 \<and> hdr h1 P k False))"
proof (cases "prevFree xs = 0")
  case False
  define q where "q = prevFree xs"
  obtain zs k where xs: "xs = zs @ [(q, k, False)]" using False prevFree_snoc unfolding q_def by blast
  note f = fl [unfolded xs]
  obtain h1 where h1: "free_list_remove q h = Some h1" "flux h1 zs q (k + n + 8) ys {}"
      "frame (linksOf (freesOf (zs @ ys))) h h1" "hdr h1 q k False"
    using flux_remove_before [OF f] by blast
  have "hdr h1 p n u" by (rule links_keep_hdr [OF f _ h1(3) p]) auto
  moreover have "p = q + k + 8" using f by (auto simp: flux_def tiles_append)
  moreover have "noAdj zs" "prevFree zs = 0" using adj used_around [of zs q k] unfolding xs by (auto simp: noAdj_append)
  moreover have "prevFree xs = q" "q \<noteq> 0" using False by (simp_all add: q_def)
  ultimately show ?thesis using h1 xs
    by (intro exI [of _ h1] exI [of _ zs] exI [of _ q] exI [of _ "k + n + 8"]) simp
next
  case True
  then show ?thesis using assms by (intro exI [of _ h] exI [of _ xs] exI [of _ p] exI [of _ n]) simp
qed

lemma merge_next:
  assumes fl: "flux h xs P N ys {}" and adj: "noAdj ys"
  shows "\<exists>h1 ys1 M. (if nextFree ys \<noteq> 0 then free_list_remove (nextFree ys) h else Some h) = Some h1 \<and>
    flux h1 xs P M ys1 {} \<and> frame (linksOf (freesOf (xs @ ys1))) h h1 \<and>
    (\<forall>a m v. hdr h a m v \<and> P \<le> a \<and> a \<le> P + N \<longrightarrow> hdr h1 a m v) \<and> noAdj ys1 \<and> nextFree ys1 = 0 \<and>
    (nextFree ys = 0 \<and> ys1 = ys \<and> M = N \<or>
     (\<exists>r l. ys = (r, l, False) # ys1 \<and> nextFree ys = r \<and> r \<noteq> 0 \<and> M = N + l + 8 \<and> hdr h1 r l False))"
proof (cases "nextFree ys = 0")
  case False
  define r where "r = nextFree ys"
  obtain zs l where ys: "ys = (r, l, False) # zs" using False nextFree_Cons unfolding r_def by blast
  note f = fl [unfolded ys]
  obtain h1 where h1: "free_list_remove r h = Some h1" "flux h1 xs P (N + l + 8) zs {}"
      "frame (linksOf (freesOf (xs @ zs))) h h1" "hdr h1 r l False"
    using flux_remove_after [OF f] by blast
  have "\<forall>a m v. hdr h a m v \<and> P \<le> a \<and> a \<le> P + N \<longrightarrow> hdr h1 a m v"
    using links_keep_hdr [OF f _ h1(3)] by auto
  moreover have "noAdj zs" "nextFree zs = 0" using adj used_after [of r l zs] noAdj_Cons [of r l False zs] unfolding ys by simp_all
  moreover have "nextFree ys = r" "r \<noteq> 0" using False by (simp_all add: r_def)
  ultimately show ?thesis using h1 ys
    by (intro exI [of _ h1] exI [of _ zs] exI [of _ "N + l + 8"]) simp
qed (use assms in auto)

definition areaOf :: "node set \<Rightarrow> nat set" where
  "areaOf F = (\<Union>x \<in> F. {fst x..<fst x + snd x + 8})"

lemma coalesce_ok:
  assumes p: "hdr h p n True" and M: "M < 2 ^ 31" "8 dvd M" "8 \<le> M"
    and c1: "prev = 0 \<and> P = p \<and> N = n \<or> (\<exists>k. prev = P \<and> P \<noteq> 0 \<and> N = k + n + 8 \<and> hdr h P k False)"
    and c2: "next = 0 \<and> M = N \<or> (\<exists>l. next \<noteq> 0 \<and> M = N + l + 8 \<and> hdr h next l False)"
  shows "\<exists>h'. coalesce prev p next h = (P, h') \<and> frame {P..<P + 4} h h' \<and> hdr h' P M False \<and> sys_free h' = sys_free h"
proof -
  let ?h = "set_payload_size_and_mark_free P M h"
  have s: "hdr ?h P M False" "frame {P..<P + 4} h ?h" using M by (simp_all add: hdr_set_free frame_headers)
  show ?thesis
  proof (cases "prev = 0 \<and> next = 0")
    case True
    then have "P = p" "M = n" using c1 c2 by auto
    then show ?thesis using True hdr_mark_free [OF p] frame_headers(4) by (simp add: coalesce_def)
  next
    case False
    have "coalesce prev p next h = (P, ?h)" using False c1 c2 hdr_size(1) [OF p]
      by (auto simp: coalesce_def packet_consts hdr_size(1) ac_simps)
    then show ?thesis using s by simp
  qed
qed

lemma linksOf_mono: "F \<subseteq> G \<Longrightarrow> linksOf F \<subseteq> linksOf G"
  by (auto simp: linksOf_def)

lemma areaOf_mono: "F \<subseteq> G \<Longrightarrow> areaOf F \<subseteq> areaOf G"
  by (auto simp: areaOf_def)

lemma linksOf_areaOf:
  assumes "tiles a bs e"
  shows "linksOf (freesOf bs) \<subseteq> areaOf (freesOf bs)"
proof
  fix x assume "x \<in> linksOf (freesOf bs)"
  then obtain q k where q: "(q, k) \<in> freesOf bs" "x \<in> {q + 8..<q + 12}" by (auto simp: linksOf_def)
  then have "x \<in> {q..<q + k + 8}" using freesOf_mem [OF assms q(1)] by auto
  then show "x \<in> areaOf (freesOf bs)" using q(1) by (force simp: areaOf_def)
qed

lemma merged_area:
  assumes inv: "heapInv h (xs @ (p, n, True) # ys)"
    and c1: "xs1 = xs \<and> P = p \<and> N = n \<or> (\<exists>k. xs = xs1 @ [(P, k, False)] \<and> N = k + n + 8)"
    and c2: "ys1 = ys \<and> M = N \<or> (\<exists>r l. ys = (r, l, False) # ys1 \<and> M = N + l + 8)"
  shows "linksOf (freesOf (xs1 @ ys)) \<union> linksOf (freesOf (xs1 @ ys1)) \<union> ({P..<P + M + 8} \<union> linksOf (freesOf (xs1 @ ys1))) \<subseteq>
    areaOf (insert (p, n) (freesOf (xs @ ys)))"
proof -
  let ?F = "freesOf (xs @ ys)" let ?A = "areaOf (insert (p, n) ?F)"
  have t: "tiles (sys_memory h) (xs @ (p, n, True) # ys) (regionEnd h)" using inv by (simp add: heapInv_def)
  have sub: "freesOf (xs1 @ ys) \<subseteq> ?F" "freesOf (xs1 @ ys1) \<subseteq> ?F" using c1 c2 by auto
  have "linksOf ?F \<subseteq> ?A" using linksOf_areaOf [OF t] areaOf_mono [of ?F "insert (p, n) ?F"] by auto
  then have l: "linksOf F \<subseteq> ?A" if "F \<subseteq> ?F" for F using linksOf_mono [OF that] by auto
  have "{P..<P + M + 8} \<subseteq> ?A"
  proof
    fix a assume a: "a \<in> {P..<P + M + 8}"
    consider "a < p" | "p \<le> a" "a < p + n + 8" | "p + n + 8 \<le> a" by linarith
    then show "a \<in> ?A"
    proof cases
      case 1
      with a c1 obtain k where k: "xs = xs1 @ [(P, k, False)]" by auto
      then have "p = P + k + 8" using t by (auto simp: tiles_append)
      then show ?thesis using 1 a k by (auto simp: areaOf_def)
    next
      case 2
      then show ?thesis by (auto simp: areaOf_def)
    next
      case 3
      have N: "P + N = p + n" using c1 t by (auto simp: tiles_append)
      with 3 a c2 obtain r l where r: "ys = (r, l, False) # ys1" "M = N + l + 8" by auto
      then have "r = p + n + 8" using t by (auto simp: tiles_append)
      then show ?thesis using 3 a r N by (auto simp: areaOf_def)
    qed
  qed
  then show ?thesis using l sub by simp
qed

lemma merge_neighbours:
  assumes inv: "heapInv h (xs @ (p, n, True) # ys)"
  shows "\<exists>h2 xs1 P N ys1 M. do {
      h \<leftarrow> (if prevFree xs \<noteq> 0 then free_list_remove (prevFree xs) h else Some h);
      (if nextFree ys \<noteq> 0 then free_list_remove (nextFree ys) h else Some h) } = Some h2 \<and>
    flux h2 xs1 P M ys1 {} \<and> hdr h2 p n True \<and>
    (prevFree xs = 0 \<and> P = p \<and> N = n \<or> (\<exists>k. prevFree xs = P \<and> P \<noteq> 0 \<and> N = k + n + 8 \<and> hdr h2 P k False)) \<and>
    (nextFree ys = 0 \<and> M = N \<or> (\<exists>l. nextFree ys \<noteq> 0 \<and> M = N + l + 8 \<and> hdr h2 (nextFree ys) l False)) \<and>
    noAdj xs1 \<and> noAdj ys1 \<and> prevFree xs1 = 0 \<and> nextFree ys1 = 0 \<and> freeBlocks xs p n ys = xs1 @ (P, M, False) # ys1 \<and>
    frame (areaOf (insert (p, n) (freesOf (xs @ ys)))) h h2 \<and>
    {P..<P + M + 8} \<union> linksOf (freesOf (xs1 @ ys1)) \<subseteq> areaOf (insert (p, n) (freesOf (xs @ ys)))"
proof -
  note op = flux_open [OF inv, simplified]
  obtain h1 xs1 P N where h1: "(if prevFree xs \<noteq> 0 then free_list_remove (prevFree xs) h else Some h) = Some h1"
    "flux h1 xs1 P N ys {}" "hdr h1 p n True" "P \<le> p" "p \<le> P + N" "frame (linksOf (freesOf (xs1 @ ys))) h h1"
    "noAdj xs1" "prevFree xs1 = 0" and
    c1: "prevFree xs = 0 \<and> xs1 = xs \<and> P = p \<and> N = n \<or>
      (\<exists>k. xs = xs1 @ [(P, k, False)] \<and> prevFree xs = P \<and> P \<noteq> 0 \<and> N = k + n + 8 \<and> hdr h1 P k False)"
    using merge_prev [OF op(1,2,3)] by blast
  obtain h2 ys1 M where h2: "(if nextFree ys \<noteq> 0 then free_list_remove (nextFree ys) h1 else Some h1) = Some h2"
    "flux h2 xs1 P M ys1 {}" "frame (linksOf (freesOf (xs1 @ ys1))) h1 h2"
    "\<forall>a m v. hdr h1 a m v \<and> P \<le> a \<and> a \<le> P + N \<longrightarrow> hdr h2 a m v" "noAdj ys1" "nextFree ys1 = 0" and
    c2: "nextFree ys = 0 \<and> ys1 = ys \<and> M = N \<or>
     (\<exists>r l. ys = (r, l, False) # ys1 \<and> nextFree ys = r \<and> r \<noteq> 0 \<and> M = N + l + 8 \<and> hdr h2 r l False)"
    using merge_next [OF h1(2) op(4)] by blast
  have d1: "xs1 = xs \<and> P = p \<and> N = n \<or> (\<exists>k. xs = xs1 @ [(P, k, False)] \<and> N = k + n + 8)"
    using c1 by (elim disjE exE conjE) simp_all
  have d2: "ys1 = ys \<and> M = N \<or> (\<exists>r l. ys = (r, l, False) # ys1 \<and> M = N + l + 8)"
    using c2 by (elim disjE exE conjE) (rule disjI1, simp, rule disjI2, intro exI conjI)
  have p2: "hdr h2 p n True" using h2(4) h1(3-5) by blast
  have k2: "hdr h1 P k False \<Longrightarrow> hdr h2 P k False" for k using h2(4) by simp
  have c1': "prevFree xs = 0 \<and> P = p \<and> N = n \<or> (\<exists>k. prevFree xs = P \<and> P \<noteq> 0 \<and> N = k + n + 8 \<and> hdr h2 P k False)"
    using c1 k2 by (elim disjE exE conjE) auto
  have c2': "nextFree ys = 0 \<and> M = N \<or> (\<exists>l. nextFree ys \<noteq> 0 \<and> M = N + l + 8 \<and> hdr h2 (nextFree ys) l False)"
    using c2 by (elim disjE exE conjE) auto
  have "nextFree ys = 0 \<and> ys1 = ys \<and> M = N \<or> nextFree ys \<noteq> 0 \<and> tl ys = ys1 \<and> M = N + fst (snd (hd ys)) + 8"
    using c2
  proof (elim disjE exE conjE)
    fix r l assume "ys = (r, l, False) # ys1" "nextFree ys = r" "r \<noteq> 0" "M = N + l + 8"
    then show ?thesis by (cases ys) simp_all
  qed simp
  then have fb: "freeBlocks xs p n ys = xs1 @ (P, M, False) # ys1" using c1 by (auto simp: freeBlocks_def)
  note area = merged_area [OF inv d1 d2]
  have "frame (areaOf (insert (p, n) (freesOf (xs @ ys)))) h h2"
    by (rule frame_mono [OF frame_trans [OF h1(6) h2(3)]]) (use area in blast)
  moreover have "{P..<P + M + 8} \<union> linksOf (freesOf (xs1 @ ys1)) \<subseteq> areaOf (insert (p, n) (freesOf (xs @ ys)))" using area by blast
  moreover have "do { h \<leftarrow> (if prevFree xs \<noteq> 0 then free_list_remove (prevFree xs) h else Some h);
      (if nextFree ys \<noteq> 0 then free_list_remove (nextFree ys) h else Some h) } = Some h2" unfolding h1(1) using h2(1) by simp
  ultimately show ?thesis using h2(2) p2 c1' c2' h1(7) h2(5) h1(8) h2(6) fb
    by (intro exI [of _ h2] exI [of _ xs1] exI [of _ P] exI [of _ N] exI [of _ ys1] exI [of _ M] conjI)
qed

lemma free_merge:
  assumes inv: "heapInv h (xs @ (p, n, True) # ys)"
  shows "\<exists>h'. do {
      h \<leftarrow> (if prevFree xs \<noteq> 0 then free_list_remove (prevFree xs) h else Some h);
      h \<leftarrow> (if nextFree ys \<noteq> 0 then free_list_remove (nextFree ys) h else Some h);
      (case coalesce (prevFree xs) p (nextFree ys) h of (packet, h) \<Rightarrow> free_list_insert packet h) } = Some h' \<and>
    heapInv h' (freeBlocks xs p n ys) \<and> frame (areaOf (insert (p, n) (freesOf (xs @ ys)))) h h'"
proof -
  let ?A = "areaOf (insert (p, n) (freesOf (xs @ ys)))"
  obtain h2 xs1 P N ys1 M where m: "do {
      h \<leftarrow> (if prevFree xs \<noteq> 0 then free_list_remove (prevFree xs) h else Some h);
      (if nextFree ys \<noteq> 0 then free_list_remove (nextFree ys) h else Some h) } = Some h2"
    "flux h2 xs1 P M ys1 {}" "hdr h2 p n True"
    "prevFree xs = 0 \<and> P = p \<and> N = n \<or> (\<exists>k. prevFree xs = P \<and> P \<noteq> 0 \<and> N = k + n + 8 \<and> hdr h2 P k False)"
    "nextFree ys = 0 \<and> M = N \<or> (\<exists>l. nextFree ys \<noteq> 0 \<and> M = N + l + 8 \<and> hdr h2 (nextFree ys) l False)"
    "noAdj xs1" "noAdj ys1" "prevFree xs1 = 0" "nextFree ys1 = 0" "freeBlocks xs p n ys = xs1 @ (P, M, False) # ys1"
    "frame ?A h h2" "{P..<P + M + 8} \<union> linksOf (freesOf (xs1 @ ys1)) \<subseteq> ?A"
    using merge_neighbours [OF inv] by (elim exE conjE)
  have M: "M < 2 ^ 31" "8 dvd M" "8 \<le> M" using flux_bounds [OF m(2)] by auto
  obtain h3 where h3: "coalesce (prevFree xs) p (nextFree ys) h2 = (P, h3)" "frame {P..<P + 4} h2 h3" "hdr h3 P M False"
      "sys_free h3 = sys_free h2"
    using coalesce_ok [OF m(3) M m(4,5)] by blast
  obtain h' where h': "free_list_insert P h3 = Some h'" "heapInv h' (xs1 @ (P, M, False) # ys1)"
      "frame ({P..<P + M + 8} \<union> linksOf (freesOf (xs1 @ ys1))) h2 h'"
    using free_finish [OF m(2) h3(2-4) m(6-9)] by blast
  have "frame ?A h h'" by (rule frame_mono [OF frame_trans [OF m(11) h'(3)]]) (use m(12) in blast)
  moreover have "do {
      h \<leftarrow> (if prevFree xs \<noteq> 0 then free_list_remove (prevFree xs) h else Some h);
      h \<leftarrow> (if nextFree ys \<noteq> 0 then free_list_remove (nextFree ys) h else Some h);
      (case coalesce (prevFree xs) p (nextFree ys) h of (packet, h) \<Rightarrow> free_list_insert packet h) } = Some h'"
    using m(1) h3(1) h'(1) by (auto simp: bind_eq_Some_conv)
  ultimately show ?thesis using h'(2) m(10) by auto
qed

section \<open>The packets of a heap\<close>

fun packetsFrom :: "rts_heap \<Rightarrow> nat \<Rightarrow> nat \<Rightarrow> block list" where
  "packetsFrom h 0 a = []"
| "packetsFrom h (Suc i) a =
     (if a < regionEnd h then (a, packet_payload_size h a, \<not> packet_is_free h a) # packetsFrom h i (next_packet h a) else [])"

definition packets :: "rts_heap \<Rightarrow> block list" where
  "packets h = (if memory_is_initialized h then packetsFrom h (SYSMEM_SIZE h) (sys_memory h)
                else [(sys_memory h, SYSMEM_SIZE h - 8, False)])"

definition liveOf :: "block list \<Rightarrow> (nat \<times> nat) set" where
  "liveOf bs = {(p + 8, n) | p n. (p, n, True) \<in> set bs}"

definition live :: "rts_heap \<Rightarrow> (nat \<times> nat) set" where
  "live h = liveOf (packets h)"

definition heapOk :: "rts_heap \<Rightarrow> bool" where
  "heapOk h \<longleftrightarrow> regionOk h \<and> (memory_is_initialized h \<longrightarrow> heapInv h (packets h))"

lemma liveOf_simps [simp]:
  "liveOf [] = {}" "liveOf ((p, n, u) # bs) = (if u then insert (p + 8, n) (liveOf bs) else liveOf bs)"
  "liveOf (bs @ cs) = liveOf bs \<union> liveOf cs"
  by (auto simp: liveOf_def)

lemma packetsFrom_tiles:
  assumes "tiles a bs (regionEnd h)" "blocks h bs" "regionEnd h \<le> a + i"
  shows "packetsFrom h i a = bs"
  using assms
proof (induction i arbitrary: a bs)
  case 0
  then have "a = regionEnd h" using tiles_le by force
  then show ?case using 0 tiles_mem [of a bs "regionEnd h"] by (cases bs) fastforce+
next
  case (Suc i)
  show ?case
  proof (cases bs)
    case Nil
    then show ?thesis using Suc.prems by simp
  next
    case (Cons b cs)
    obtain p n u where b: "b = (p, n, u)" by (cases b)
    have p: "p = a" "tiles (a + n + 8) cs (regionEnd h)" "hdr h a n u" "blocks h cs" using Suc.prems by (auto simp: Cons b)
    have "packetsFrom h i (a + n + 8) = cs" using Suc.IH [OF p(2,4)] Suc.prems(3) by simp
    moreover have "a < regionEnd h" using tiles_le [OF p(2)] by simp
    ultimately show ?thesis using p hdr_size [OF p(3)] by (simp add: Cons b)
  qed
qed

lemma packets_heapInv: "heapInv h bs \<Longrightarrow> packets h = bs"
  using packetsFrom_tiles [of "sys_memory h" bs h "SYSMEM_SIZE h"] by (simp add: heapInv_def packets_def)

lemma heapInv_ok: "heapInv h bs \<Longrightarrow> heapOk h \<and> live h = liveOf bs"
  using packets_heapInv [of h bs] by (auto simp: heapOk_def live_def) (simp add: heapInv_def)

lemma meminit_ok:
  assumes "regionOk h"
  shows "heapInv (meminit h) [(sys_memory h, SYSMEM_SIZE h - 8, False)]"
proof -
  let ?b = "sys_memory h" let ?n = "SYSMEM_SIZE h - 8"
  have r: "16 \<le> SYSMEM_SIZE h" "8 dvd SYSMEM_SIZE h" "0 < ?b" "?b + SYSMEM_SIZE h \<le> 2 ^ 31" using assms by (auto simp: regionOk_def)
  have hs: "heap_size h = ?n" "?n \<noteq> 0" using r(1) by (simp_all add: heap_size_def packet_consts)
  let ?h0 = "h\<lparr>sys_free := ?b\<rparr>" let ?h1 = "set_next_free ?b 0 ?h0" let ?h2 = "set_payload_size_and_mark_free ?b ?n ?h1"
  have sf: "sys_free ?h1 = ?b" "sys_memory ?h1 = ?b" "SYSMEM_SIZE ?h1 = SYSMEM_SIZE h" by (simp_all add: set_next_free_def)
  have mi: "meminit h = ?h2\<lparr>memory_is_initialized := True\<rparr>"
    using hs sf by (simp add: meminit_def Let_def heap_start_def heap_size_def packet_consts set_next_free_def)
  have "8 dvd ?n" "8 \<le> ?n" "?n < 2 ^ 31" using r by (auto simp: dvd_diff_nat)
  then have hd: "hdr ?h2 ?b ?n False" by (rule hdr_set_free)
  have "next_free ?h2 ?b = next_free ?h1 ?b" by (rule frame_next_free [OF frame_headers(1)]) (rule clear_interval, simp)
  then have nx: "next_free ?h2 ?b = 0" by simp
  let ?h = "meminit h"
  have "hdr ?h ?b ?n False" "next_free ?h ?b = 0" "sys_free ?h = ?b"
    using hd nx sf(1) by (simp_all add: mi hdr_def payload_size_def next_free_def)
  then have "fchain ?h SysFree [(?b, ?n)] 0" using r by simp
  then have "freeSet ?h {(?b, ?n)}" unfolding freeSet_def by (intro exI [of _ "[(?b, ?n)]"]) simp
  moreover have "regionOk ?h" "memory_is_initialized ?h" "sys_memory ?h = ?b" "SYSMEM_SIZE ?h = SYSMEM_SIZE h"
    using assms by (simp_all add: mi regionOk_def set_payload_size_and_mark_free_def set_payload_size_def set_next_free_def)
  ultimately show ?thesis using \<open>hdr ?h ?b ?n False\<close> r \<open>8 dvd ?n\<close> \<open>8 \<le> ?n\<close> by (simp add: heapInv_def)
qed

lemma initialised:
  assumes "heapOk h"
  shows "heapInv (if \<not> memory_is_initialized h then meminit h else h) (packets h)"
  using assms meminit_ok [of h] by (simp add: heapOk_def packets_def)

text \<open>Packets in use are left alone by what happens in other packets.\<close>

lemma live_kept:
  assumes inv: "heapInv h bs" and fr: "frame A h h'" "A \<subseteq> areaOf G"
    and G: "\<forall>(r, l) \<in> G. \<exists>v. (r, l, v) \<in> set bs" and q: "(q, k) \<in> liveOf bs" "(q - 8, k) \<notin> G"
  shows "readMem (hmem h') q k = readMem (hmem h) q k"
proof (rule frame_readMem [OF fr(1)])
  have t: "tiles (sys_memory h) bs (regionEnd h)" using inv by (simp add: heapInv_def)
  obtain p where p: "q = p + 8" "(p, k, True) \<in> set bs" using q(1) by (auto simp: liveOf_def)
  have "a < q \<or> q + k \<le> a" if "a \<in> A" for a
  proof -
    from that fr(2) obtain r l where r: "(r, l) \<in> G" "r \<le> a" "a < r + l + 8" by (fastforce simp: areaOf_def)
    then obtain v where "(r, l, v) \<in> set bs" using G by blast
    then have "p + k + 8 \<le> r \<or> r + l + 8 \<le> p" using tiles_pair [OF t p(2), of r l v] r(1) q(2) p(1) by auto
    then show ?thesis using r p(1) by auto
  qed
  then show "clear A q k" by (simp add: clear_def)
qed

section \<open>Operations\<close>

definition effAlign :: "u32 \<Rightarrow> u32" where
  "effAlign al = (if al < 8 \<or> al AND (al - 1) \<noteq> 0 then 8 else al)"

definition allocates :: "rts_heap \<Rightarrow> nat \<Rightarrow> nat \<Rightarrow> rts_heap \<Rightarrow> bool" where
  "allocates h s ptr h' \<longleftrightarrow> ptr \<noteq> 0 \<and> 8 dvd ptr \<and> (\<exists>c. s \<le> c \<and> ptr \<notin> fst ` live h \<and> live h' = insert (ptr, c) (live h))"

definition keeps :: "(nat \<times> nat) set \<Rightarrow> rts_heap \<Rightarrow> rts_heap \<Rightarrow> bool" where
  "keeps L h h' \<longleftrightarrow> (\<forall>(q, k) \<in> L. readMem (hmem h') q k = readMem (hmem h) q k)"

lemma allocates_mono: "allocates h s ptr h' \<Longrightarrow> t \<le> s \<Longrightarrow> allocates h t ptr h'"
  by (auto simp: allocates_def intro: order_trans)

lemma power2_effAlign: "power2 (effAlign al)"
  using power2_guard [of al] power2_8 by (simp add: effAlign_def)

lemma liveOf_splitBlocks: "liveOf (splitBlocks p n s ys) = insert (p + 8, if 16 \<le> n - s then s else n) (liveOf ys)"
  by (auto simp: splitBlocks_def split: list.splits bool.splits)

lemma liveOf_allocBlocks:
  assumes "a = p + 8 \<or> p + 24 \<le> a" "a + s \<le> p + 8 + n"
  shows "\<exists>c. s \<le> c \<and> liveOf (allocBlocks p n a s ys) = insert (a, c) (liveOf ys)"
proof -
  let ?n = "if a = p + 8 then n else n - (a - p - 8)"
  show ?thesis using assms
    by (intro exI [of _ "if 16 \<le> ?n - s then s else ?n"]) (auto simp: allocBlocks_def liveOf_splitBlocks)
qed

lemma liveOf_freeBlocks: "liveOf (freeBlocks xs p n ys) = liveOf (xs @ ys)"
proof -
  have "liveOf (butlast xs) = liveOf xs" if "prevFree xs \<noteq> 0" using prevFree_snoc [OF that] by (metis butlast_snoc liveOf_simps sup_bot_right)
  moreover have "liveOf (tl ys) = liveOf ys" if "nextFree ys \<noteq> 0" using nextFree_Cons [OF that] by (metis list.sel(3) liveOf_simps(2))
  ultimately show ?thesis by (auto simp: freeBlocks_def Let_def)
qed

lemma liveOf_fst: "tiles a bs e \<Longrightarrow> (q, k) \<in> liveOf bs \<Longrightarrow> a + 8 \<le> q \<and> q + k \<le> e \<and> 8 \<le> k"
  using tiles_mem by (fastforce simp: liveOf_def)

lemma heap_bounds:
  assumes "heapInv h bs"
  shows "heap_size h = SYSMEM_SIZE h - 8" "8 dvd heap_size h" "heap_size h < 2 ^ 31"
    "\<forall>x \<in> freesOf bs. 8 dvd fst x \<and> fst x + 8 \<le> 2 ^ 31" "sys_memory h + SYSMEM_SIZE h \<le> 2 ^ 31"
proof -
  have r: "regionOk h" "tiles (sys_memory h) bs (regionEnd h)" using assms by (auto simp: heapInv_def)
  show "heap_size h = SYSMEM_SIZE h - 8" using r(1) by (simp add: heap_size_def packet_consts regionOk_def)
  then show "8 dvd heap_size h" "heap_size h < 2 ^ 31" "sys_memory h + SYSMEM_SIZE h \<le> 2 ^ 31"
    using r(1) by (auto simp: regionOk_def dvd_diff_nat)
  show "\<forall>x \<in> freesOf bs. 8 dvd fst x \<and> fst x + 8 \<le> 2 ^ 31"
  proof
    fix x assume x: "x \<in> freesOf bs"
    then have "(fst x, snd x, False) \<in> set bs" by (auto simp: freesOf_def)
    moreover have "8 dvd sys_memory h" "regionEnd h \<le> 2 ^ 31" using r(1) by (simp_all add: regionOk_def)
    ultimately have "8 dvd fst x" using tiles_aligned [OF r(2)] by blast
    moreover have "fst x + 8 \<le> 2 ^ 31" using freesOf_mem [OF r(2) x] \<open>regionEnd h \<le> 2 ^ 31\<close> by linarith
    ultimately show "8 dvd fst x \<and> fst x + 8 \<le> 2 ^ 31" by simp
  qed
qed

lemma frame_free_area:
  assumes "heapInv h (xs @ (p, n, u) # ys)"
  shows "{p..<p + n + 8} \<union> linksOf (freesOf (xs @ ys)) \<subseteq> areaOf (insert (p, n) (freesOf (xs @ ys)))"
proof -
  have "tiles (sys_memory h) (xs @ (p, n, True) # ys) (regionEnd h)" using assms by (auto simp: heapInv_def tiles_append)
  from linksOf_areaOf [OF this] show ?thesis using areaOf_mono [of "freesOf (xs @ ys)" "insert (p, n) (freesOf (xs @ ys))"]
    by (auto simp: areaOf_def)
qed

text \<open>The scan and what follows it, on an initialised heap.\<close>

lemma allocate_ok:
  assumes inv: "heapInv h bs" and al: "power2 al" and s: "8 dvd s" "8 \<le> s"
  shows "\<exists>p a. alignedScan h al s (sys_free h) = Some (p, a) \<and>
    (if p = 0 then \<forall>x \<in> freesOf bs. \<not> fits (unat al) s x
     else \<exists>h' c. do { h \<leftarrow> free_list_remove p h; (aln_packet, h) \<leftarrow> carve p a h; h \<leftarrow> split aln_packet s h;
          Some (aln_packet + PACKET_OVERHEAD, h) } = Some (a, h') \<and>
        heapOk h' \<and> a \<noteq> 0 \<and> s \<le> c \<and> a \<notin> fst ` liveOf bs \<and> live h' = insert (a, c) (liveOf bs) \<and> unat al dvd a \<and> 8 dvd a \<and>
        (\<forall>(q, k) \<in> liveOf bs. readMem (hmem h') q k = readMem (hmem h) q k) \<and> (\<exists>x \<in> freesOf bs. s \<le> snd x))"
proof -
  have F: "freeSet h (freesOf bs)" and t: "tiles (sys_memory h) bs (regionEnd h)" using inv by (auto simp: heapInv_def)
  obtain p a where sc: "alignedScan h al s (sys_free h) = Some (p, a)"
    and c: "if p = 0 then \<forall>x \<in> freesOf bs. \<not> fits (unat al) s x
       else a = startOf (unat al) p \<and> (\<exists>n. (p, n) \<in> freesOf bs \<and> fits (unat al) s (p, n) \<and>
         (\<forall>(q, k) \<in> freesOf bs. fits (unat al) s (q, k) \<longrightarrow> n \<le> k))"
    using freeSet_scan [OF F al heap_bounds(4) [OF inv], of s] by blast
  show ?thesis
  proof (cases "p = 0")
    case False
    then obtain n where n: "a = startOf (unat al) p" "(p, n) \<in> freesOf bs" "fits (unat al) s (p, n)" using c by auto
    then obtain xs ys where bs: "bs = xs @ (p, n, False) # ys" by (auto simp: freesOf_def dest: split_list)
    have st: "unat al dvd a" "8 dvd a" "a = p + 8 \<or> p + 24 \<le> a" "a + s \<le> p + 8 + n"
      using alignedStart_ok(2-4) [OF al, of p] heap_bounds(4) [OF inv] n by (force simp: fits_def)+
    obtain h' where h': "do { h \<leftarrow> free_list_remove p h; (aln_packet, h) \<leftarrow> carve p a h; h \<leftarrow> split aln_packet s h;
          Some (aln_packet + PACKET_OVERHEAD, h) } = Some (a, h')"
        "heapInv h' (xs @ allocBlocks p n a s ys)" "frame ({p..<p + n + 8} \<union> linksOf (freesOf (xs @ ys))) h h'"
      using allocate_packet [OF inv [unfolded bs] st(2-4) s] by blast
    obtain c where c: "s \<le> c" "liveOf (allocBlocks p n a s ys) = insert (a, c) (liveOf ys)"
      using liveOf_allocBlocks [OF st(3,4)] by blast
    have "heapOk h'" "live h' = insert (a, c) (liveOf bs)" using heapInv_ok [OF h'(2)] c(2) by (auto simp: bs)
    moreover have "a \<notin> fst ` liveOf bs"
    proof
      assume "a \<in> fst ` liveOf bs"
      then obtain q k where "(q, k, True) \<in> set bs" "a = q + 8" by (auto simp: liveOf_def)
      then show False using tiles_pair [OF t, of p n False q k True] st(3,4) s(2) bs by auto
    qed
    moreover have "\<forall>(q, k) \<in> liveOf bs. readMem (hmem h') q k = readMem (hmem h) q k"
    proof (clarify)
      fix q k assume q: "(q, k) \<in> liveOf bs"
      then obtain r where r: "q = r + 8" "(r, k, True) \<in> set bs" by (auto simp: liveOf_def)
      have "(r, k, False) \<notin> set bs" using tiles_pair [OF t r(2), of r k False] by auto
      then have "(q - 8, k) \<notin> insert (p, n) (freesOf (xs @ ys))" using r(1) by (auto simp: bs freesOf_def)
      moreover have "\<forall>(r, l) \<in> insert (p, n) (freesOf (xs @ ys)). \<exists>v. (r, l, v) \<in> set bs" by (auto simp: bs freesOf_def)
      ultimately show "readMem (hmem h') q k = readMem (hmem h) q k"
        using live_kept [OF inv h'(3) frame_free_area [OF inv [unfolded bs]]] q by blast
    qed
    moreover have "a \<noteq> 0" "\<exists>x \<in> freesOf bs. s \<le> snd x" using st(3,4) n(2) by (auto intro!: bexI [of _ "(p, n)"])
    ultimately show ?thesis using sc False h'(1) c(1) st(1,2) by auto
  qed (use sc c in auto)
qed

lemma aligned_alloc_ok:
  assumes ok: "heapOk h"
  shows "\<exists>ptr h'. aligned_alloc al s h = Some (ptr, h') \<and> heapOk h' \<and>
    (if ptr = 0 then packets h' = packets h \<and>
       (s = 0 \<or> heap_size h < unat s \<or> (\<forall>x \<in> freesOf (packets h). \<not> fits (unat (effAlign al)) (unat (roundSize s)) x))
     else s \<noteq> 0 \<and> unat s \<le> unat (roundSize s) \<and> allocates h (unat (roundSize s)) ptr h' \<and> unat (effAlign al) dvd ptr \<and>
       (\<exists>x \<in> freesOf (packets h). unat (roundSize s) \<le> snd x)) \<and>
    keeps (live h) h h'"
proof (cases "s = 0 \<or> heap_size h < unat s")
  case True
  then show ?thesis using ok by (auto simp: aligned_alloc_def keeps_def)
next
  case False
  define g where "g = (if \<not> memory_is_initialized h then meminit h else h)"
  let ?s = "unat (roundSize s)"
  have inv: "heapInv g (packets h)" unfolding g_def by (rule initialised [OF ok])
  have hs: "8 dvd heap_size h" "heap_size h < 2 ^ 31" using ok by (auto simp: heapOk_def regionOk_def heap_size_def packet_consts dvd_diff_nat)
  have s: "8 dvd ?s" "8 \<le> ?s" "unat s \<le> ?s" using roundSize_ok [of s "heap_size h"] False hs by auto
  have kept: "readMem (hmem g) q k = readMem (hmem h) q k" if "(q, k) \<in> live h" for q k
    using that by (auto simp: g_def live_def packets_def split: if_splits)
  have call: "aligned_alloc al s h = do { (current, aln_start) \<leftarrow> alignedScan g (effAlign al) ?s (sys_free g);
      if current = 0 then Some (0, g)
      else do { h \<leftarrow> free_list_remove current g; (aln_packet, h) \<leftarrow> carve current aln_start h; h \<leftarrow> split aln_packet ?s h;
        Some (aln_packet + PACKET_OVERHEAD, h) } }"
    unfolding aligned_alloc_def effAlign_def g_def Let_def MIN_PAYLOAD_ALIGN_def of_nat_numeral
    using False by (simp only: if_False de_Morgan_disj simp_thms)
  obtain p a where pa: "alignedScan g (effAlign al) ?s (sys_free g) = Some (p, a)"
    and c: "if p = 0 then \<forall>x \<in> freesOf (packets h). \<not> fits (unat (effAlign al)) ?s x
     else \<exists>h' c. do { h \<leftarrow> free_list_remove p g; (aln_packet, h) \<leftarrow> carve p a h; h \<leftarrow> split aln_packet ?s h;
          Some (aln_packet + PACKET_OVERHEAD, h) } = Some (a, h') \<and>
        heapOk h' \<and> a \<noteq> 0 \<and> ?s \<le> c \<and> a \<notin> fst ` liveOf (packets h) \<and> live h' = insert (a, c) (liveOf (packets h)) \<and>
        unat (effAlign al) dvd a \<and> 8 dvd a \<and> (\<forall>(q, k) \<in> liveOf (packets h). readMem (hmem h') q k = readMem (hmem g) q k) \<and>
        (\<exists>x \<in> freesOf (packets h). ?s \<le> snd x)"
    using allocate_ok [OF inv power2_effAlign s(1,2)] by blast
  show ?thesis
  proof (cases "p = 0")
    case True
    then have "aligned_alloc al s h = Some (0, g)" using pa by (simp add: call)
    moreover have "heapOk g" "packets g = packets h" using heapInv_ok [OF inv] packets_heapInv [OF inv] by auto
    ultimately show ?thesis using True c kept by (auto simp: keeps_def)
  next
    case p: False
    then obtain h' c where h': "do { h \<leftarrow> free_list_remove p g; (aln_packet, h) \<leftarrow> carve p a h; h \<leftarrow> split aln_packet ?s h;
          Some (aln_packet + PACKET_OVERHEAD, h) } = Some (a, h')" "heapOk h'" "a \<noteq> 0" "?s \<le> c"
        "a \<notin> fst ` live h" "live h' = insert (a, c) (live h)" "unat (effAlign al) dvd a" "8 dvd a"
        "\<forall>(q, k) \<in> live h. readMem (hmem h') q k = readMem (hmem g) q k" "\<exists>x \<in> freesOf (packets h). ?s \<le> snd x"
      using c by (auto simp: live_def)
    have "aligned_alloc al s h = Some (a, h')" using pa p h'(1) by (simp add: call)
    moreover have "allocates h ?s a h'" using h'(3-6,8) unfolding allocates_def by blast
    moreover have "keeps (live h) h h'" using h'(9) kept unfolding keeps_def by fastforce
    ultimately show ?thesis using h'(2,3,7,10) False s(3) by (intro exI [of _ a] exI [of _ h']) simp
  qed
qed

lemma keeps_trans: "keeps L h h1 \<Longrightarrow> keeps M h1 h2 \<Longrightarrow> keeps (L \<inter> M) h h2"
  by (fastforce simp: keeps_def)

lemma keeps_mono: "keeps L h h' \<Longrightarrow> M \<subseteq> L \<Longrightarrow> keeps M h h'"
  by (auto simp: keeps_def)

lemma live_packet:
  assumes "heapOk h" "(ptr, c) \<in> live h"
  shows "\<exists>xs p ys. ptr = p + 8 \<and> heapInv h (xs @ (p, c, True) # ys) \<and> packets h = xs @ (p, c, True) # ys \<and>
    live h - {(ptr, c)} = liveOf (xs @ ys) \<and> 0 < p"
proof -
  have init: "memory_is_initialized h" using assms(2) by (auto simp: live_def packets_def split: if_splits)
  then have inv: "heapInv h (packets h)" using assms(1) by (simp add: heapOk_def)
  obtain p where p: "ptr = p + 8" "(p, c, True) \<in> set (packets h)" using assms(2) by (auto simp: live_def liveOf_def)
  then obtain xs ys where bs: "packets h = xs @ (p, c, True) # ys" by (auto dest: split_list)
  have t: "tiles (sys_memory h) xs p" "tiles (p + c + 8) ys (regionEnd h)" "0 < sys_memory h"
    using inv by (auto simp: bs heapInv_def tiles_append regionOk_def)
  have "(ptr, c) \<notin> liveOf (xs @ ys)" using liveOf_fst [OF t(1), of ptr c] liveOf_fst [OF t(2), of ptr c] p(1) by auto
  moreover have "live h = insert (ptr, c) (liveOf (xs @ ys))" by (auto simp: live_def bs p(1))
  moreover have "0 < p" using t tiles_le by force
  ultimately show ?thesis using p(1) inv bs by auto
qed

lemma keeps_others:
  assumes inv: "heapInv h (xs @ (p, n, u) # ys)" and fr: "frame A h h'" "A \<subseteq> areaOf (insert (p, n) (freesOf (xs @ ys)))"
  shows "keeps (liveOf (xs @ ys)) h h'"
  unfolding keeps_def
proof (clarify)
  fix q k assume q: "(q, k) \<in> liveOf (xs @ ys)"
  then obtain r where r: "q = r + 8" "(r, k, True) \<in> set (xs @ ys)" by (auto simp: liveOf_def)
  have t: "tiles (sys_memory h) (xs @ (p, n, u) # ys) (regionEnd h)" using inv by (simp add: heapInv_def)
  have "(r, k, False) \<notin> set (xs @ ys)" using tiles_pair [OF t, of r k True r k False] r(2) by auto
  moreover have "r \<noteq> p"
    using t r(2) tiles_mem [of "sys_memory h" xs p r k True] tiles_mem [of "p + n + 8" ys "regionEnd h" r k True]
    by (auto simp: tiles_append)
  ultimately have "(q - 8, k) \<notin> insert (p, n) (freesOf (xs @ ys))" using r(1) by (auto simp: freesOf_def)
  moreover have "\<forall>(r, l) \<in> insert (p, n) (freesOf (xs @ ys)). \<exists>v. (r, l, v) \<in> set (xs @ (p, n, u) # ys)"
    by (auto simp: freesOf_def)
  moreover have "(q, k) \<in> liveOf (xs @ (p, n, u) # ys)" using q by auto
  ultimately show "readMem (hmem h') q k = readMem (hmem h) q k" by (intro live_kept [OF inv fr])
qed

lemma free_ok:
  assumes ok: "heapOk h" "(ptr, c) \<in> live h"
  shows "\<exists>h'. free ptr h = Some h' \<and> heapOk h' \<and> live h' = live h - {(ptr, c)} \<and> keeps (live h - {(ptr, c)}) h h'"
proof -
  obtain xs p ys where p: "ptr = p + 8" "heapInv h (xs @ (p, c, True) # ys)" "live h - {(ptr, c)} = liveOf (xs @ ys)" "0 < p"
    using live_packet [OF ok] by blast
  obtain h' where h': "do {
      h \<leftarrow> (if prevFree xs \<noteq> 0 then free_list_remove (prevFree xs) h else Some h);
      h \<leftarrow> (if nextFree ys \<noteq> 0 then free_list_remove (nextFree ys) h else Some h);
      (case coalesce (prevFree xs) p (nextFree ys) h of (packet, h) \<Rightarrow> free_list_insert packet h) } = Some h'"
    "heapInv h' (freeBlocks xs p c ys)" "frame (areaOf (insert (p, c) (freesOf (xs @ ys)))) h h'"
    using free_merge [OF p(2)] by blast
  have "hdr h p c True" using p(2) by (simp add: heapInv_def)
  then have "\<not> packet_is_free h p" by (simp add: hdr_size(2))
  then have "free ptr h = Some h'"
    using h'(1) prev_next_free [OF p(2), unfolded Let_def] freeWalk_at [OF p(2)]
    by (simp add: free_def p(1) PACKET_OVERHEAD_def Let_def)
  moreover have "heapOk h'" "live h' = liveOf (xs @ ys)" using heapInv_ok [OF h'(2)] by (simp_all add: liveOf_freeBlocks)
  moreover have "keeps (liveOf (xs @ ys)) h h'" by (rule keeps_others [OF p(2) h'(3)]) simp
  ultimately show ?thesis using p(3) by metis
qed

text \<open>A pointer into the heap that is not the start of a live block, such as one that has been released before, is ignored.\<close>

lemma free_ignored:
  assumes ok: "heapOk h" "memory_is_initialized h" and ptr: "sys_memory h + 8 \<le> ptr" "ptr \<le> regionEnd h" "ptr \<notin> fst ` live h"
  shows "free ptr h = Some h"
proof -
  let ?bs = "packets h" let ?q = "ptr - 8"
  have inv: "tiles (sys_memory h) ?bs (regionEnd h)" "blocks h ?bs" using ok by (auto simp: heapOk_def heapInv_def)
  let ?rs = "dropWhile (\<lambda>b. fst b < ?q) ?bs"
  have "?q \<le> regionEnd h" using ptr by simp
  from freeWalk_tiles [OF inv this, of 0] obtain prev where
    w: "freeWalk h ?q 0 (sys_memory h) = Some (prev, if ?rs = [] then regionEnd h else fst (hd ?rs))"
    by (simp add: Let_def)
  define cur where "cur = (if ?rs = [] then regionEnd h else fst (hd ?rs))"
  have "cur \<noteq> ?q \<or> packet_is_free h cur"
  proof (cases "?rs = []")
    case True
    then show ?thesis using ptr by (auto simp: cur_def)
  next
    case False
    then have "hd ?rs \<in> set ?bs" using hd_in_set set_dropWhileD by metis
    moreover have "hd ?rs = (cur, fst (snd (hd ?rs)), snd (snd (hd ?rs)))" using False by (simp add: cur_def del: dropWhile_eq_Nil_conv)
    ultimately obtain n u where b: "(cur, n, u) \<in> set ?bs" by metis
    then have hd: "hdr h cur n u" using inv(2) by (auto simp: blocks_def)
    show ?thesis
    proof (cases u)
      case True
      then have "(cur + 8, n) \<in> live h" using b by (auto simp: live_def liveOf_def)
      then show ?thesis using ptr(1,3) by force
    next
      case False
      then show ?thesis using hdr_size(2) [OF hd] by simp
    qed
  qed
  then show ?thesis using w ptr(1) by (auto simp: free_def PACKET_OVERHEAD_def cur_def Let_def)
qed

lemma write_ok:
  assumes ok: "heapOk h" "(ptr, c) \<in> live h" and bs: "length bs \<le> c" and h': "h' = h\<lparr>hmem := writeMem (hmem h) ptr bs\<rparr>"
  shows "heapOk h'" "live h' = live h" "keeps (live h - {(ptr, c)}) h h'" "readMem (hmem h') ptr (length bs) = bs"
proof -
  obtain xs p ys where p: "ptr = p + 8" "heapInv h (xs @ (p, c, True) # ys)" "live h - {(ptr, c)} = liveOf (xs @ ys)" "0 < p"
    using live_packet [OF ok] by blast
  note op = flux_open [OF p(2), simplified]
  have fr: "frame {p + 8..<p + 8 + c} h h'" using bs by (auto simp: frame_def h' p(1) intro!: writeMem_out)
  have f: "flux h' xs p c ys {}" by (rule flux_write [OF op(1) fr]) (simp_all add: h')
  have hd: "hdr h' p c True" by (rule hdr_frame [OF op(2) fr]) (rule clear_interval, simp)
  have "noAdj (xs @ [(p, c, True)] @ ys)" using p(2) by (simp add: heapInv_def)
  then have inv: "heapInv h' (xs @ [(p, c, True)] @ ys)"
    using f hd flux_bounds(4,5) [OF op(1)] by (intro flux_close [of h' xs p c ys "{}"]) auto
  show "heapOk h'" "live h' = live h" using heapInv_ok [OF inv] heapInv_ok [OF p(2)] by simp_all
  have "{p + 8..<p + 8 + c} \<subseteq> areaOf (insert (p, c) (freesOf (xs @ ys)))" by (auto simp: areaOf_def)
  then show "keeps (live h - {(ptr, c)}) h h'" unfolding p(3) by (rule keeps_others [OF p(2) fr])
  show "readMem (hmem h') ptr (length bs) = bs" by (simp add: h' readMem_writeMem_same)
qed

lemma malloc_ok:
  assumes ok: "heapOk h"
  shows "\<exists>ptr h'. malloc s h = Some (ptr, h') \<and> heapOk h' \<and> keeps (live h) h h' \<and>
    (if ptr = 0 then packets h' = packets h \<and>
       (s = 0 \<or> heap_size h < unat s \<or> (\<forall>x \<in> freesOf (packets h). snd x < unat (roundSize s)))
     else s \<noteq> 0 \<and> unat s \<le> unat (roundSize s) \<and> allocates h (unat (roundSize s)) ptr h' \<and>
       (\<exists>x \<in> freesOf (packets h). unat (roundSize s) \<le> snd x))"
proof -
  have e: "effAlign 8 = 8" by (simp add: effAlign_def)
  have f: "fits 8 (unat (roundSize s)) x \<longleftrightarrow> unat (roundSize s) \<le> snd x" if "x \<in> freesOf (packets h)" for x
  proof -
    have "8 dvd fst x" using heap_bounds(4) [OF initialised [OF ok]] that by auto
    then have "8 dvd fst x + 8" by simp
    then have "roundUp 8 (fst x + 8) = fst x + 8" by (auto simp: roundUp_def elim!: dvdE)
    then show ?thesis by (simp add: fits_def startOf_def)
  qed
  obtain ptr h' where h': "aligned_alloc 8 s h = Some (ptr, h')" "heapOk h'" "keeps (live h) h h'"
    and c: "if ptr = 0 then packets h' = packets h \<and>
       (s = 0 \<or> heap_size h < unat s \<or> (\<forall>x \<in> freesOf (packets h). \<not> fits (unat (effAlign 8)) (unat (roundSize s)) x))
     else s \<noteq> 0 \<and> unat s \<le> unat (roundSize s) \<and> allocates h (unat (roundSize s)) ptr h' \<and> unat (effAlign 8) dvd ptr \<and>
       (\<exists>x \<in> freesOf (packets h). unat (roundSize s) \<le> snd x)"
    using aligned_alloc_ok [OF ok, of 8 s] by blast
  have "(\<forall>x \<in> freesOf (packets h). \<not> fits (unat (effAlign 8)) (unat (roundSize s)) x) \<longleftrightarrow>
      (\<forall>x \<in> freesOf (packets h). snd x < unat (roundSize s))" using f by (simp add: e not_le)
  then show ?thesis using h' c by (intro exI [of _ ptr] exI [of _ h']) (simp add: malloc_def packet_consts split: if_splits)
qed

lemma calloc_ok:
  assumes ok: "heapOk h" and s: "s \<noteq> 0"
  shows "\<exists>ptr h'. calloc num s h = Some (ptr, h') \<and> heapOk h' \<and> keeps (live h) h h' \<and>
    (if ptr = 0 then live h' = live h
     else allocates h (unat num * unat s) ptr h' \<and>
       readMem (hmem h') ptr (unat num * unat s) = replicate (unat num * unat s) 0)"
proof (cases "heap_size h div unat s < unat num")
  case True
  then show ?thesis using ok s by (auto simp: calloc_def keeps_def)
next
  case False
  have "unat num * unat s \<le> heap_size h div unat s * unat s" using False by (intro mult_le_mono1) simp
  also have "\<dots> \<le> heap_size h" by simp
  also have "\<dots> < 2 ^ 32" using ok by (auto simp: heapOk_def regionOk_def heap_size_def)
  finally have "unat s * unat num < 2 ^ LENGTH(32)" by (simp add: mult.commute)
  then have "unat (s * num) = unat s * unat num" by (simp only: unat_mult_lem)
  then have e: "unat (s * num) = unat num * unat s" by simp
  obtain ptr h1 where h1: "malloc (s * num) h = Some (ptr, h1)" "heapOk h1" "keeps (live h) h h1"
    and c: "if ptr = 0 then packets h1 = packets h
      else unat (s * num) \<le> unat (roundSize (s * num)) \<and> allocates h (unat (roundSize (s * num))) ptr h1"
    using malloc_ok [OF ok, of "s * num"] by (auto split: if_splits)
  show ?thesis
  proof (cases "ptr = 0")
    case True
    then show ?thesis using h1 c s False by (simp add: calloc_def live_def)
  next
    case p: False
    then have al: "allocates h (unat (s * num)) ptr h1" using c allocates_mono by auto
    then obtain k where k: "unat (s * num) \<le> k" "ptr \<notin> fst ` live h" "live h1 = insert (ptr, k) (live h)"
      by (auto simp: allocates_def)
    define h2 where "h2 = h1\<lparr>hmem := writeMem (hmem h1) ptr (replicate (unat (s * num)) 0)\<rparr>"
    have l: "(ptr, k) \<in> live h1" "length (replicate (unat (s * num)) (0 :: u8)) \<le> k" using k by simp_all
    note w = write_ok [OF h1(2) l h2_def]
    have "live h1 - {(ptr, k)} = live h" using k(2,3) by force
    then have "keeps (live h) h h2" using keeps_trans [OF h1(3) w(3)] by simp
    moreover have "allocates h (unat num * unat s) ptr h2" using al w(2) e by (simp add: allocates_def)
    moreover have "calloc num s h = Some (ptr, h2)" using s False p h1(1) by (simp add: calloc_def h2_def)
    ultimately show ?thesis using w(1,4) p e by (intro exI [of _ ptr] exI [of _ h2]) simp
  qed
qed

text \<open>What \<open>realloc\<close> promises: the block at \<open>ptr\<close> is replaced by one at \<open>ptr'\<close> with at least \<open>s\<close> bytes that begins with
  the bytes of the old one, and no other block changes.\<close>

definition reallocates :: "rts_heap \<Rightarrow> nat \<Rightarrow> nat \<Rightarrow> nat \<Rightarrow> nat \<Rightarrow> rts_heap \<Rightarrow> bool" where
  "reallocates h ptr c s ptr' h' \<longleftrightarrow>
     (\<exists>c'. s \<le> c' \<and> ptr' \<notin> fst ` (live h - {(ptr, c)}) \<and> live h' = insert (ptr', c') (live h - {(ptr, c)})) \<and>
     readMem (hmem h') ptr' (min c s) = readMem (hmem h) ptr (min c s) \<and> keeps (live h - {(ptr, c)}) h h'"

lemma readMem_prefix:
  assumes "readMem m p n = readMem m' q n" "k \<le> n"
  shows "readMem m p k = readMem m' q k"
proof -
  obtain j where "n = k + j" using assms(2) le_Suc_ex by blast
  then show ?thesis using assms(1) by (simp add: readMem_append)
qed

lemma reallocates_mono:
  assumes "reallocates h ptr c s ptr' h'" "t \<le> s"
  shows "reallocates h ptr c t ptr' h'"
proof -
  have "readMem (hmem h') ptr' (min c t) = readMem (hmem h) ptr (min c t)"
    by (rule readMem_prefix [of _ _ "min c s"]) (use assms in \<open>auto simp: reallocates_def\<close>)
  then show ?thesis using assms unfolding reallocates_def by (meson order_trans)
qed

lemma liveOf_unique:
  assumes "heapInv h (xs @ (p, n, u) # ys)"
  shows "p + 8 \<notin> fst ` liveOf (xs @ ys)"
proof
  assume "p + 8 \<in> fst ` liveOf (xs @ ys)"
  then have "\<exists>k. (p, k, True) \<in> set (xs @ ys)" by (auto simp: liveOf_def)
  then obtain k where "(p, k, True) \<in> set (xs @ ys)" by blast
  moreover have "tiles (sys_memory h) xs p" "tiles (p + n + 8) ys (regionEnd h)" using assms by (auto simp: heapInv_def tiles_append)
  ultimately show False using tiles_mem [of "sys_memory h" xs p p k True] tiles_mem [of "p + n + 8" ys "regionEnd h" p k True] by auto
qed

text \<open>Resizing in place, with or without the free packet behind.\<close>

lemma split_resizes:
  assumes inv: "heapInv h (xs @ (p, c, True) # ys)" and L: "live h - {(p + 8, c)} = liveOf (xs @ ys)"
    and g: "flux g xs p n zs {}" "hdr g p n True" "frame A h g" "A \<subseteq> {p..<p + 4} \<union> linksOf (freesOf (xs @ zs))"
    and s: "8 dvd s" "8 \<le> s" "s \<le> n" and zs: "noAdj xs" "noAdj zs" "liveOf zs = liveOf ys" "freesOf zs \<subseteq> freesOf ys"
    and area: "{p + c + 8..<p + n + 8} \<subseteq> areaOf (freesOf ys)" "min c s + p + 8 \<le> p + n + 8"
  shows "\<exists>h'. split p s g = Some h' \<and> heapOk h' \<and> reallocates h (p + 8) c s (p + 8) h'"
proof -
  obtain h' where h': "split p s g = Some h'" "heapInv h' (xs @ splitBlocks p n s zs)"
      "frame ({p..<p + 4} \<union> {p + 8 + s..<p + n + 8} \<union> linksOf (freesOf (xs @ zs))) g h'"
    using split_ok [OF g(1,2) s zs(1,2)] by blast
  let ?B = "{p..<p + 4} \<union> {p + 8 + s..<p + n + 8} \<union> linksOf (freesOf (xs @ zs))"
  have fr: "frame ?B h h'" by (rule frame_mono [OF frame_trans [OF g(3) h'(3)]]) (use g(4) in auto)
  have l: "live h' = insert (p + 8, if 16 \<le> n - s then s else n) (liveOf (xs @ ys))"
    using heapInv_ok [OF h'(2)] zs(3) by (simp add: liveOf_splitBlocks)
  have "p + 8 \<notin> fst ` liveOf (xs @ ys)" by (rule liveOf_unique [OF inv])
  then have "\<exists>c'. s \<le> c' \<and> p + 8 \<notin> fst ` liveOf (xs @ ys) \<and> live h' = insert (p + 8, c') (liveOf (xs @ ys))"
    using l s(3) by auto
  moreover have "clear ?B (p + 8) (min c s)"
    using links_clear_region [OF g(1), of "p + 8" "min c s"] area(2) by (auto intro: clear_interval)
  then have "readMem (hmem h') (p + 8) (min c s) = readMem (hmem h) (p + 8) (min c s)" by (rule frame_readMem [OF fr])
  moreover have "?B \<subseteq> areaOf (insert (p, c) (freesOf (xs @ ys)))"
  proof -
    have "{p..<p + c + 8} \<union> linksOf (freesOf (xs @ ys)) \<subseteq> areaOf (insert (p, c) (freesOf (xs @ ys)))"
      by (rule frame_free_area [OF inv])
    moreover have "linksOf (freesOf (xs @ zs)) \<subseteq> linksOf (freesOf (xs @ ys))" using zs(4) by (intro linksOf_mono) auto
    moreover have "{p + c + 8..<p + n + 8} \<subseteq> areaOf (insert (p, c) (freesOf (xs @ ys)))" using area(1) areaOf_mono [of "freesOf ys" "insert (p, c) (freesOf (xs @ ys))"] by auto
    moreover have "{p..<p + 4} \<subseteq> {p..<p + c + 8}" "{p + 8 + s..<p + n + 8} \<subseteq> {p..<p + c + 8} \<union> {p + c + 8..<p + n + 8}" by auto
    ultimately show ?thesis by blast
  qed
  then have "keeps (liveOf (xs @ ys)) h h'" by (rule keeps_others [OF inv fr])
  ultimately show ?thesis using h'(1) heapInv_ok [OF h'(2)] unfolding reallocates_def L by blast
qed

lemma realloc_in_place:
  assumes inv: "heapInv h (xs @ (p, c, True) # ys)" and L: "live h - {(p + 8, c)} = liveOf (xs @ ys)" and s: "8 dvd s" "8 \<le> s" "s \<le> c"
  shows "\<exists>h'. split p s h = Some h' \<and> heapOk h' \<and> reallocates h (p + 8) c s (p + 8) h'"
proof -
  note op = flux_open [OF inv, simplified]
  show ?thesis
    by (rule split_resizes [OF inv L op(1,2), of "{}" s]) (use s op(3,4) in auto)
qed

lemma realloc_extends:
  assumes inv: "heapInv h (xs @ (p, c, True) # (q, k, False) # zs)"
    and L: "live h - {(p + 8, c)} = liveOf (xs @ (q, k, False) # zs)" and s: "8 dvd s" "8 \<le> s" "s \<le> c + k + 8"
  shows "\<exists>h'. do { h \<leftarrow> free_list_remove q h; split p s (set_payload_size_and_mark_used p (c + k + 8) h) } = Some h' \<and>
    heapOk h' \<and> reallocates h (p + 8) c s (p + 8) h'"
proof -
  note op = flux_open [OF inv, simplified]
  have q: "q = p + c + 8" "8 dvd k" using inv by (auto simp: heapInv_def tiles_append)
  obtain h1 where h1: "free_list_remove q h = Some h1" "flux h1 xs p (c + k + 8) zs {}" "frame (linksOf (freesOf (xs @ zs))) h h1"
      "hdr h1 q k False"
    using flux_remove_after [OF op(1)] by blast
  let ?g = "set_payload_size_and_mark_used p (c + k + 8) h1"
  have fr: "frame {p..<p + 4} h1 ?g" by (rule frame_headers)
  have g: "flux ?g xs p (c + k + 8) zs {}" by (rule flux_write [OF h1(2) fr]) simp_all
  have hd: "hdr ?g p (c + k + 8) True" using flux_bounds [OF h1(2)] by (intro hdr_set_used) auto
  have adj: "noAdj zs" using op(4) by (simp add: noAdj_Cons)
  have "\<exists>h'. split p s ?g = Some h' \<and> heapOk h' \<and> reallocates h (p + 8) c s (p + 8) h'"
    by (rule split_resizes [OF inv L g hd frame_trans [OF h1(3) fr]])
      (use s op(3) adj q in \<open>auto simp: areaOf_def\<close>)
  then show ?thesis using h1(1) by simp
qed

lemma live_size:
  assumes "heapOk h" "(ptr, c) \<in> live h"
  shows "packet_payload_size h (ptr - 8) = c" "\<not> packet_is_free h (ptr - 8)" "0 < ptr"
proof -
  obtain xs p ys where p: "ptr = p + 8" "heapInv h (xs @ (p, c, True) # ys)" using live_packet [OF assms] by blast
  then have "hdr h p c True" by (simp add: heapInv_def)
  then show "packet_payload_size h (ptr - 8) = c" "\<not> packet_is_free h (ptr - 8)" "0 < ptr"
    using hdr_size p(1) by auto
qed

lemma roundSize_idem: "unat s + 7 < 2 ^ 31 \<Longrightarrow> roundSize (roundSize s) = roundSize s"
proof -
  assume a: "unat s + 7 < 2 ^ 31"
  have r: "unat (roundSize s) = unat s + 7 - (unat s + 7) mod 8" using a by (intro roundSize_nat) simp
  then have "8 dvd unat (roundSize s)" "unat (roundSize s) + 7 < 2 ^ 32" using a by (simp_all add: dvd_minus_mod)
  then have "unat (roundSize (roundSize s)) = unat (roundSize s)" using roundSize_nat [of "roundSize s"] by (auto elim!: dvdE)
  then show ?thesis by (simp add: word_unat_eq_iff)
qed

lemma realloc_moves:
  assumes ok: "heapOk h" "(ptr, c) \<in> live h" and big: "c < unat (roundSize s)"
  shows "\<exists>new h'. do {
      (new, h) \<leftarrow> malloc s h;
      (if new \<noteq> 0 then
         do {
           let h = h\<lparr>hmem := writeMem (hmem h) new (readMem (hmem h) ptr (packet_payload_size h (ptr - 8)))\<rparr>;
           h \<leftarrow> free ptr h;
           Some (new, h)
         }
       else Some (new, h)) } = Some (new, h') \<and> heapOk h' \<and>
    (if new = 0 then live h' = live h \<and> keeps (live h) h h' else reallocates h ptr c (unat (roundSize s)) new h')"
proof -
  obtain new h1 where h1: "malloc s h = Some (new, h1)" "heapOk h1" "keeps (live h) h h1"
    and al: "if new = 0 then packets h1 = packets h else allocates h (unat (roundSize s)) new h1"
    using malloc_ok [OF ok(1), of s] by (auto split: if_splits)
  show ?thesis
  proof (cases "new = 0")
    case True
    then show ?thesis using h1 al by (simp add: live_def)
  next
    case False
    obtain k where k: "unat (roundSize s) \<le> k" "new \<notin> fst ` live h" "live h1 = insert (new, k) (live h)"
      using al False by (auto simp: allocates_def)
    define h2 where "h2 = h1\<lparr>hmem := writeMem (hmem h1) new (readMem (hmem h1) ptr c)\<rparr>"
    have l: "(new, k) \<in> live h1" "length (readMem (hmem h1) ptr c) \<le> k" using k big by simp_all
    note w = write_ok [OF h1(2) l h2_def]
    have pc: "(ptr, c) \<in> live h2" using w(2) k(3) ok(2) by simp
    obtain h3 where h3: "free ptr h2 = Some h3" "heapOk h3" "live h3 = live h2 - {(ptr, c)}" "keeps (live h2 - {(ptr, c)}) h2 h3"
      using free_ok [OF w(1) pc] by blast
    have ne: "new \<noteq> ptr" "live h1 - {(new, k)} = live h" using k(2,3) ok(2) by force+
    have kp: "keeps (live h) h h2" using keeps_trans [OF h1(3) w(3)] ne(2) by simp
    have lv: "live h3 = insert (new, k) (live h - {(ptr, c)})" using h3(3) w(2) k(3) ne by auto
    have "readMem (hmem h3) new k = readMem (hmem h2) new k" using h3(4) w(2) k(3) ne(1) by (auto simp: keeps_def)
    then have "readMem (hmem h3) new c = readMem (hmem h2) new c" by (rule readMem_prefix) (use k(1) big in simp)
    then have copied: "readMem (hmem h3) new c = readMem (hmem h) ptr c"
      using w(4) h1(3) ok(2) by (auto simp: keeps_def)
    have "keeps (live h \<inter> (live h2 - {(ptr, c)})) h h3" by (rule keeps_trans [OF kp h3(4)])
    then have "keeps (live h - {(ptr, c)}) h h3" by (rule keeps_mono) (use w(2) k(3) in auto)
    then have "reallocates h ptr c (unat (roundSize s)) new h3"
      unfolding reallocates_def using lv k(1,2) copied big by (auto simp: min_def)
    moreover have "packet_payload_size h1 (ptr - 8) = c" using live_size(1) [OF h1(2)] k(3) ok(2) by simp
    ultimately show ?thesis using h1(1) False h3(1,2) by (intro exI [of _ new] exI [of _ h3]) (simp add: Let_def h2_def)
  qed
qed

lemma realloc_unfold:
  assumes "hdr h p c True" "0 < p" "s \<noteq> 0" "\<not> heap_size h < unat s"
  shows "realloc (p + 8) s h = (if unat (roundSize s) \<le> c then do { h \<leftarrow> split p (unat (roundSize s)) h; Some (p + 8, h) }
      else let next = p + c + 8; combined_size = c + packet_payload_size h next + 8 in
        if next < heap_end h \<and> packet_is_free h next \<and> unat (roundSize s) \<le> combined_size then
          do { h \<leftarrow> free_list_remove next h;
               h \<leftarrow> split p (unat (roundSize s)) (set_payload_size_and_mark_used p combined_size h); Some (p + 8, h) }
        else do {
          (new, h) \<leftarrow> malloc (roundSize s) h;
          (if new \<noteq> 0 then
             do {
               let h = h\<lparr>hmem := writeMem (hmem h) new (readMem (hmem h) (p + 8) (packet_payload_size h (p + 8 - 8)))\<rparr>;
               h \<leftarrow> free (p + 8) h;
               Some (new, h)
             }
           else Some (new, h)) })"
  unfolding realloc_def PACKET_OVERHEAD_def Let_def add_diff_cancel_right' using hdr_size [OF assms(1)] assms(2-4) by simp

lemma heap_end_region: "heapInv h bs \<Longrightarrow> heap_end h = regionEnd h - 8"
  using heap_bounds(1) [of h bs] by (auto simp: heap_end_def heap_start_def heapInv_def regionOk_def)

lemma no_extension:
  assumes inv: "heapInv h (xs @ (p, c, True) # ys)" and no: "\<not> (\<exists>q k zs. ys = (q, k, False) # zs \<and> s \<le> c + k + 8)"
  shows "\<not> (p + c + 8 < heap_end h \<and> packet_is_free h (p + c + 8) \<and> s \<le> c + packet_payload_size h (p + c + 8) + 8)"
proof (cases ys)
  case Nil
  then have "p + c + 8 = regionEnd h" using inv by (auto simp: heapInv_def tiles_append)
  then show ?thesis using heap_end_region [OF inv] by linarith
next
  case (Cons y zs)
  then obtain k u where y: "y = (p + c + 8, k, u)" "hdr h (p + c + 8) k u"
    using inv by (cases y) (auto simp: heapInv_def tiles_append)
  then show ?thesis using no Cons hdr_size [OF y(2)] by auto
qed

lemma realloc_ok:
  assumes ok: "heapOk h" "(ptr, c) \<in> live h" and s: "s \<noteq> 0"
  shows "\<exists>new h'. realloc ptr s h = Some (new, h') \<and> heapOk h' \<and>
    (if new = 0 then live h' = live h \<and> keeps (live h) h h' else reallocates h ptr c (unat s) new h')"
proof (cases "heap_size h < unat s")
  case True
  then show ?thesis using live_size(3) [OF ok] s ok(1) by (auto simp: realloc_def keeps_def)
next
  case False
  obtain xs p ys where p: "ptr = p + 8" "heapInv h (xs @ (p, c, True) # ys)" "live h - {(ptr, c)} = liveOf (xs @ ys)" "0 < p"
    using live_packet [OF ok] by blast
  let ?s = "unat (roundSize s)"
  have L: "live h - {(p + 8, c)} = liveOf (xs @ ys)" and hd: "hdr h p c True" using p by (simp_all add: heapInv_def)
  have r: "8 dvd ?s" "8 \<le> ?s" "unat s \<le> ?s" using roundSize_ok [of s "heap_size h"] False s heap_bounds [OF p(2)] by auto
  note unf = realloc_unfold [OF hd p(4) s False]
  consider "?s \<le> c" | q k zs where "\<not> ?s \<le> c" "ys = (q, k, False) # zs" "?s \<le> c + k + 8"
    | "\<not> ?s \<le> c" "\<not> (\<exists>q k zs. ys = (q, k, False) # zs \<and> ?s \<le> c + k + 8)" by blast
  then show ?thesis
  proof cases
    case 1
    obtain h' where h': "split p ?s h = Some h'" "heapOk h'" "reallocates h (p + 8) c ?s (p + 8) h'"
      using realloc_in_place [OF p(2) L r(1,2) 1] by blast
    have "realloc ptr s h = Some (p + 8, h')" using h'(1) 1 unfolding p(1) by (simp add: unf)
    then show ?thesis using h'(2,3) p(1) reallocates_mono [OF _ r(3)] by (intro exI [of _ "p + 8"] exI [of _ h']) simp
  next
    case 2
    obtain h' where h': "do { h \<leftarrow> free_list_remove q h; split p ?s (set_payload_size_and_mark_used p (c + k + 8) h) } = Some h'"
        "heapOk h'" "reallocates h (p + 8) c ?s (p + 8) h'"
      using realloc_extends [OF p(2) [unfolded 2(2)] L [unfolded 2(2)] r(1,2) 2(3)] by blast
    have q: "q = p + c + 8" "q + k + 8 \<le> regionEnd h" "8 \<le> k" "hdr h q k False"
      using p(2) tiles_le by (auto simp: 2(2) heapInv_def tiles_append)
    then have "q < heap_end h" using heap_end_region [OF p(2)] by linarith
    then have "realloc ptr s h = Some (p + 8, h')"
      using 2(1,3) h'(1) hdr_size [OF q(4)] q(1) unfolding p(1) by (auto simp: unf Let_def split: Option.bind_splits)
    then show ?thesis using h'(2,3) p(1) reallocates_mono [OF _ r(3)] by (intro exI [of _ "p + 8"] exI [of _ h']) simp
  next
    case 3
    have "unat s + 7 < 2 ^ 31" using False heap_bounds(1,5) [OF p(2)] p(2) by (auto simp: heapInv_def regionOk_def)
    then have id: "roundSize (roundSize s) = roundSize s" by (rule roundSize_idem)
    have "c < unat (roundSize (roundSize s))" using 3(1) id by simp
    from realloc_moves [OF ok this] obtain new h' where "realloc ptr s h = Some (new, h')" "heapOk h'"
      "if new = 0 then live h' = live h \<and> keeps (live h) h h' else reallocates h ptr c ?s new h'"
      unfolding p(1) unf Let_def if_not_P [OF 3(1)] if_not_P [OF no_extension [OF p(2) 3(2)]] id by blast
    then show ?thesis using reallocates_mono [OF _ r(3)] by (intro exI [of _ new] exI [of _ h']) (simp split: if_splits)
  qed
qed

end
