(* ===== verification/Heap_Contract.thy ===== *)
theory Heap_Contract
  imports Heap_Operations
begin

text \<open>
  The heap as its callers see it: the locale \<open>allocator\<close> is the contract of allocation and release, met by \<open>malloc\<close> and by
  \<open>aligned_alloc\<close>; every sequence of requests keeps the invariant, and the statistics describe the free packets.
\<close>

section \<open>Statistics\<close>

lemma sumFree_chain: "fchain h loc fl 0 \<Longrightarrow> sumFree h avail (getLink h loc) = Some (avail + sum_list (map snd fl))"
proof (induction fl arbitrary: loc avail)
  case Nil
  then show ?case by (subst sumFree.simps) simp
next
  case (Cons x fl)
  obtain p n where x: "x = (p, n)" by (cases x)
  then have p: "getLink h loc = p" "0 < p" "fchain h (NextFree p) fl 0" "packet_payload_size h p = n"
    using Cons.prems hdr_size(1) by auto
  then show ?case using Cons.IH [OF p(3), of "avail + n"] by (subst sumFree.simps) (simp add: x)
qed

lemma maxFree_chain: "fchain h loc fl 0 \<Longrightarrow> maxFree h largest (getLink h loc) = Some (fold max (map snd fl) largest)"
proof (induction fl arbitrary: loc largest)
  case Nil
  then show ?case by (subst maxFree.simps) simp
next
  case (Cons x fl)
  obtain p n where x: "x = (p, n)" by (cases x)
  then have p: "getLink h loc = p" "0 < p" "fchain h (NextFree p) fl 0" "packet_payload_size h p = n"
    using Cons.prems hdr_size(1) by auto
  then show ?case using Cons.IH [OF p(3), of "max largest n"] by (subst maxFree.simps) (simp add: x max.commute)
qed

lemma fold_max_less: "fold max ns (m :: nat) < s \<longleftrightarrow> m < s \<and> (\<forall>n \<in> set ns. n < s)"
  by (induction ns arbitrary: m) auto

lemma fold_max_in: "fold max ns (m :: nat) = m \<or> fold max ns m \<in> set ns"
proof (induction ns arbitrary: m)
  case (Cons n ns)
  from Cons [of "max n m"] show ?case by (auto simp: max_def split: if_splits)
qed simp

lemma heap_statistics:
  assumes "heapOk h" "memory_is_initialized h"
  shows "heap_total_available h = Some (\<Sum>x\<in>freesOf (packets h). snd x)"
    "\<exists>m. heap_largest_available h = Some m \<and> (m = 0 \<or> m \<in> snd ` freesOf (packets h)) \<and> (\<forall>x \<in> freesOf (packets h). snd x \<le> m)"
proof -
  obtain fl where fl: "fchain h SysFree fl 0" "distinct fl" "set fl = freesOf (packets h)"
    using assms by (auto simp: heapOk_def heapInv_def freeSet_def)
  have "sum_list (map snd fl) = (\<Sum>x\<in>set fl. snd x)" using fl(2) by (simp add: sum_list_distinct_conv_sum_set)
  then show "heap_total_available h = Some (\<Sum>x\<in>freesOf (packets h). snd x)"
    using sumFree_chain [OF fl(1), of 0] assms(2) fl(3) by (simp add: heap_total_available_def)
  let ?m = "fold max (map snd fl) 0"
  have "heap_largest_available h = Some ?m" using maxFree_chain [OF fl(1), of 0] assms(2) by (simp add: heap_largest_available_def)
  moreover have "?m = 0 \<or> ?m \<in> snd ` freesOf (packets h)" using fold_max_in [of "map snd fl" 0] fl(3) by auto
  moreover have "\<forall>x \<in> freesOf (packets h). snd x \<le> ?m" using fold_max_less [of "map snd fl" 0 "Suc ?m"] fl(3) by force
  ultimately show "\<exists>m. heap_largest_available h = Some m \<and> (m = 0 \<or> m \<in> snd ` freesOf (packets h)) \<and> (\<forall>x \<in> freesOf (packets h). snd x \<le> m)"
    by blast
qed

section \<open>The contract of an allocator\<close>

locale allocator =
  fixes ok :: "'h \<Rightarrow> bool"
    and held :: "'h \<Rightarrow> (nat \<times> nat) set"
    and alloc :: "u32 \<Rightarrow> 'h \<Rightarrow> (nat \<times> 'h) option"
    and release :: "nat \<Rightarrow> 'h \<Rightarrow> 'h option"
  assumes alloc_total: "ok h \<Longrightarrow> \<exists>p h'. alloc s h = Some (p, h') \<and> ok h' \<and>
      (if p = 0 then held h' = held h else \<exists>c. unat s \<le> c \<and> p \<notin> fst ` held h \<and> held h' = insert (p, c) (held h))"
    and release_total: "ok h \<Longrightarrow> (p, c) \<in> held h \<Longrightarrow> \<exists>h'. release p h = Some h' \<and> ok h' \<and> held h' = held h - {(p, c)}"
    and held_apart: "ok h \<Longrightarrow> (p, c) \<in> held h \<Longrightarrow> (q, d) \<in> held h \<Longrightarrow> p = q \<and> c = d \<or> p + c \<le> q \<or> q + d \<le> p"
begin

lemma alloc_release:
  assumes "ok h" "alloc s h = Some (p, h')" "p \<noteq> 0"
  shows "\<exists>h''. release p h' = Some h'' \<and> ok h'' \<and> held h'' = held h"
proof -
  obtain c where c: "ok h'" "p \<notin> fst ` held h" "held h' = insert (p, c) (held h)"
    using alloc_total [OF assms(1), of s] assms(2,3) by auto
  obtain h'' where "release p h' = Some h''" "ok h''" "held h'' = held h' - {(p, c)}"
    using release_total [OF c(1), of p c] c(3) by blast
  moreover have "held h' - {(p, c)} = held h" using c(2,3) by force
  ultimately show ?thesis by auto
qed

lemma alloc_new_region:
  assumes "ok h" "alloc s h = Some (p, h')" "p \<noteq> 0" "(q, d) \<in> held h"
  shows "p + unat s \<le> q \<or> q + d \<le> p"
proof -
  obtain c where c: "ok h'" "unat s \<le> c" "p \<notin> fst ` held h" "held h' = insert (p, c) (held h)"
    using alloc_total [OF assms(1), of s] assms(2,3) by auto
  have "p \<noteq> q" using c(3) assms(4) by force
  then show ?thesis using held_apart [OF c(1), of p c q d] c(2,4) assms(4) by auto
qed

end

lemma live_apart:
  assumes "heapOk h" "(p, c) \<in> live h" "(q, d) \<in> live h"
  shows "p = q \<and> c = d \<or> p + c \<le> q \<or> q + d \<le> p"
proof -
  obtain xs r ys where r: "p = r + 8" "heapInv h (xs @ (r, c, True) # ys)" "packets h = xs @ (r, c, True) # ys"
    using live_packet [OF assms(1,2)] by blast
  obtain t where t: "q = t + 8" "(t, d, True) \<in> set (packets h)" using assms(3) by (auto simp: live_def liveOf_def)
  have "tiles (sys_memory h) (packets h) (regionEnd h)" using r(2,3) by (simp add: heapInv_def)
  from tiles_pair [OF this _ t(2), of r c True] show ?thesis using r(1,3) t(1) by auto
qed

lemma aligned_alloc_total:
  assumes "heapOk h"
  shows "\<exists>p h'. aligned_alloc al s h = Some (p, h') \<and> heapOk h' \<and>
      (if p = 0 then live h' = live h else \<exists>c. unat s \<le> c \<and> p \<notin> fst ` live h \<and> live h' = insert (p, c) (live h))"
proof -
  obtain p h' where h': "aligned_alloc al s h = Some (p, h')" "heapOk h'"
    and c: "if p = 0 then packets h' = packets h else unat s \<le> unat (roundSize s) \<and> allocates h (unat (roundSize s)) p h'"
    using aligned_alloc_ok [OF assms, of al s] by (auto split: if_splits)
  show ?thesis
  proof (cases "p = 0")
    case False
    then have "allocates h (unat s) p h'" using c allocates_mono by auto
    then show ?thesis using h' False by (auto simp: allocates_def)
  qed (use h' c in \<open>auto simp: live_def\<close>)
qed

interpretation rts: allocator heapOk live malloc free
proof unfold_locales
  fix h s assume "heapOk h"
  from aligned_alloc_total [OF this, of "of_nat MIN_PAYLOAD_ALIGN" s] show "\<exists>p h'. malloc s h = Some (p, h') \<and> heapOk h' \<and>
      (if p = 0 then live h' = live h else \<exists>c. unat s \<le> c \<and> p \<notin> fst ` live h \<and> live h' = insert (p, c) (live h))"
    unfolding malloc_def .
next
  fix h p c assume "heapOk h" "(p, c) \<in> live h"
  from free_ok [OF this] show "\<exists>h'. free p h = Some h' \<and> heapOk h' \<and> live h' = live h - {(p, c)}" by blast
qed (rule live_apart)

interpretation rts_aligned: allocator heapOk live "aligned_alloc al" free for al
proof unfold_locales
  fix h s assume "heapOk h"
  then show "\<exists>p h'. aligned_alloc al s h = Some (p, h') \<and> heapOk h' \<and>
      (if p = 0 then live h' = live h else \<exists>c. unat s \<le> c \<and> p \<notin> fst ` live h \<and> live h' = insert (p, c) (live h))"
    by (rule aligned_alloc_total)
qed (rule rts.release_total live_apart; assumption)+

section \<open>Sequences of requests\<close>

text \<open>What a program does with the heap: the library calls, and stores into its blocks.\<close>

datatype request = Malloc u32 | AlignedAlloc u32 u32 | Calloc u32 u32 | Realloc nat u32 | Free nat | Store nat nat "u8 list"

primrec serve :: "request \<Rightarrow> rts_heap \<Rightarrow> (nat \<times> rts_heap) option" where
  "serve (Malloc s) h = malloc s h"
| "serve (AlignedAlloc al s) h = aligned_alloc al s h"
| "serve (Calloc num s) h = calloc num s h"
| "serve (Realloc p s) h = realloc p s h"
| "serve (Free p) h = map_option (\<lambda>h. (0, h)) (free p h)"
| "serve (Store p i bs) h = Some (0, h\<lparr>hmem := writeMem (hmem h) (p + i) bs\<rparr>)"

text \<open>Requests within the rules: no element size of zero, \<open>realloc\<close> and stores on blocks that are held. The pointer passed to \<open>free\<close>
  only has to be null or inside the heap.\<close>

primrec proper :: "request \<Rightarrow> rts_heap \<Rightarrow> bool" where
  "proper (Malloc s) h = True"
| "proper (AlignedAlloc al s) h = True"
| "proper (Calloc num s) h = (s \<noteq> 0)"
| "proper (Realloc p s) h = (p = 0 \<or> p \<in> fst ` live h)"
| "proper (Free p) h = (p = 0 \<or> memory_is_initialized h \<and> sys_memory h + 8 \<le> p \<and> p \<le> regionEnd h)"
| "proper (Store p i bs) h = (\<exists>(q, c) \<in> live h. q = p \<and> i + length bs \<le> c)"

primrec named :: "request \<Rightarrow> nat set" where
  "named (Malloc s) = {}"
| "named (AlignedAlloc al s) = {}"
| "named (Calloc num s) = {}"
| "named (Realloc p s) = {p}"
| "named (Free p) = {p}"
| "named (Store p i bs) = {p}"

inductive heapStep :: "rts_heap \<Rightarrow> request \<Rightarrow> rts_heap \<Rightarrow> bool" where
  "proper r h \<Longrightarrow> serve r h = Some (ptr, h') \<Longrightarrow> heapStep h r h'"

inductive heapRun :: "rts_heap \<Rightarrow> request list \<Rightarrow> rts_heap \<Rightarrow> bool" where
  start: "heapRun h [] h"
| step: "heapRun h rs g \<Longrightarrow> heapStep g r h' \<Longrightarrow> heapRun h (rs @ [r]) h'"

inductive_cases heapStepE: "heapStep h r h'"

lemma store_ok:
  assumes ok: "heapOk h" "(p, c) \<in> live h" "i + length bs \<le> c" and h': "h' = h\<lparr>hmem := writeMem (hmem h) (p + i) bs\<rparr>"
  shows "heapOk h'" "live h' = live h" "keeps (live h - {(p, c)}) h h'"
proof -
  let ?bs = "readMem (hmem h) p i @ bs"
  have "writeMem (hmem h) p ?bs = writeMem (writeMem (hmem h) p (readMem (hmem h) p i)) (p + i) bs"
    using writeMem_append [of "hmem h" p "readMem (hmem h) p i" bs] by simp
  also have "writeMem (hmem h) p (readMem (hmem h) p i) = hmem h"
    by (rule ext) (auto simp: writeMem_def nth_readMem)
  finally have e: "h' = h\<lparr>hmem := writeMem (hmem h) p ?bs\<rparr>" by (simp add: h')
  have "length ?bs \<le> c" using ok(3) by simp
  from write_ok [OF ok(1,2) this e] show "heapOk h'" "live h' = live h" "keeps (live h - {(p, c)}) h h'" by simp_all
qed

lemma named_removed: "heapOk h \<Longrightarrow> (p, c) \<in> live h \<Longrightarrow> {b \<in> live h. fst b \<notin> {p}} \<subseteq> live h - {(p, c)}"
  by auto

lemma serve_ok:
  assumes ok: "heapOk h" "proper r h"
  shows "\<exists>ptr h'. serve r h = Some (ptr, h') \<and> heapOk h' \<and> keeps {b \<in> live h. fst b \<notin> named r} h h'"
proof (cases r)
  case (Malloc s)
  obtain ptr h' where "malloc s h = Some (ptr, h')" "heapOk h'" "keeps (live h) h h'" using malloc_ok [OF ok(1)] by blast
  then show ?thesis by (simp add: Malloc)
next
  case (AlignedAlloc al s)
  obtain ptr h' where "aligned_alloc al s h = Some (ptr, h')" "heapOk h'" "keeps (live h) h h'" using aligned_alloc_ok [OF ok(1)] by blast
  then show ?thesis by (simp add: AlignedAlloc)
next
  case (Calloc num s)
  then have "s \<noteq> 0" using ok(2) by simp
  then obtain ptr h' where "calloc num s h = Some (ptr, h')" "heapOk h'" "keeps (live h) h h'" using calloc_ok [OF ok(1)] by blast
  then show ?thesis by (simp add: Calloc)
next
  case (Realloc p s)
  show ?thesis
  proof (cases "p = 0")
    case True
    obtain ptr h' where "malloc s h = Some (ptr, h')" "heapOk h'" "keeps (live h) h h'" using malloc_ok [OF ok(1)] by blast
    then show ?thesis using keeps_mono [of "live h" h h'] by (auto simp: Realloc True realloc_def)
  next
    case False
    then obtain c where c: "(p, c) \<in> live h" using ok(2) Realloc by auto
    have sub: "{b \<in> live h. fst b \<notin> named r} \<subseteq> live h - {(p, c)}" using named_removed [OF ok(1) c] by (simp add: Realloc)
    show ?thesis
    proof (cases "s = 0")
      case True
      obtain h' where "free p h = Some h'" "heapOk h'" "keeps (live h - {(p, c)}) h h'" using free_ok [OF ok(1) c] by blast
      then show ?thesis using keeps_mono [OF _ sub] False True by (simp add: Realloc realloc_def)
    next
      case s: False
      obtain new h' where h': "realloc p s h = Some (new, h')" "heapOk h'"
        "if new = 0 then live h' = live h \<and> keeps (live h) h h' else reallocates h p c (unat s) new h'"
        using realloc_ok [OF ok(1) c s] by blast
      then have "keeps (live h - {(p, c)}) h h'" by (auto simp: reallocates_def intro: keeps_mono split: if_splits)
      then show ?thesis using h'(1,2) keeps_mono [OF _ sub] by (simp add: Realloc)
    qed
  qed
next
  case (Free p)
  show ?thesis
  proof (cases "p \<in> fst ` live h")
    case True
    then obtain c where c: "(p, c) \<in> live h" by auto
    have sub: "{b \<in> live h. fst b \<notin> named r} \<subseteq> live h - {(p, c)}" using named_removed [OF ok(1) c] by (simp add: Free)
    obtain h' where "free p h = Some h'" "heapOk h'" "keeps (live h - {(p, c)}) h h'" using free_ok [OF ok(1) c] by blast
    then show ?thesis using keeps_mono [OF _ sub] by (simp add: Free)
  next
    case False
    then have "free p h = Some h" using ok free_ignored [of h p] by (cases "p = 0") (auto simp: Free free_def)
    then show ?thesis using ok(1) by (simp add: Free keeps_def)
  qed
next
  case (Store p i bs)
  then obtain c where c: "(p, c) \<in> live h" "i + length bs \<le> c" using ok(2) by auto
  have sub: "{b \<in> live h. fst b \<notin> named r} \<subseteq> live h - {(p, c)}" using named_removed [OF ok(1) c(1)] by (simp add: Store)
  show ?thesis using store_ok [OF ok(1) c refl] keeps_mono [OF _ sub] by (simp add: Store)
qed

lemma heapRun_ok: "heapRun h rs h' \<Longrightarrow> heapOk h \<Longrightarrow> heapOk h'"
proof (induction rule: heapRun.induct)
  case (step h rs g r h')
  from step.hyps(2) obtain ptr where "proper r g" "serve r g = Some (ptr, h')" by (rule heapStepE)
  then show ?case using serve_ok [of g r] step.IH step.prems by auto
qed

lemma packets_all_free:
  assumes "heapOk h" "live h = {}"
  shows "packets h = [(sys_memory h, SYSMEM_SIZE h - 8, False)]"
proof (cases "memory_is_initialized h")
  case True
  then have inv: "heapInv h (packets h)" using assms(1) by (simp add: heapOk_def)
  have unused: "\<forall>(p, n, u) \<in> set (packets h). \<not> u" using assms(2) by (auto simp: live_def liveOf_def)
  show ?thesis
  proof (cases "packets h")
    case Nil
    then show ?thesis using inv by (auto simp: heapInv_def regionOk_def)
  next
    case (Cons b bs)
    then have "bs = []" using inv unused by (cases b; cases bs) (auto simp: heapInv_def)
    then show ?thesis using Cons inv unused by (cases b) (auto simp: heapInv_def)
  qed
qed (simp add: packets_def)

lemma live_bounds: "heapOk h \<Longrightarrow> (p, c) \<in> live h \<Longrightarrow> sys_memory h + 8 \<le> p \<and> p + c \<le> regionEnd h \<and> 8 dvd p"
proof -
  assume a: "heapOk h" "(p, c) \<in> live h"
  obtain xs r ys where r: "p = r + 8" "heapInv h (xs @ (r, c, True) # ys)" using live_packet [OF a] by blast
  then have t: "tiles (sys_memory h) (xs @ (r, c, True) # ys) (regionEnd h)" "8 dvd sys_memory h" by (auto simp: heapInv_def regionOk_def)
  show ?thesis using tiles_mem [OF t(1), of r c True] tiles_aligned [OF t, of r c True] r(1) by auto
qed

text \<open>C22. From a heap that has not been used, every sequence of allocations, releases, resizings and stores that keeps to the rules
  can be continued: the next request within the rules returns, and it changes no byte of a block that it does not name. The blocks in use
  are aligned, inside the heap and apart from each other, and when none is in use the heap is one free packet again. A pointer
  passed to \<open>free\<close> may be any address in the heap; released twice, it does no harm.\<close>

theorem heap_requests_safe:
  assumes "regionOk h0" "\<not> memory_is_initialized h0" "heapRun h0 rs h"
  shows "(\<forall>r. proper r h \<longrightarrow> (\<exists>ptr h'. serve r h = Some (ptr, h') \<and> keeps {b \<in> live h. fst b \<notin> named r} h h')) \<and>
    (\<forall>(p, c) \<in> live h. sys_memory h + 8 \<le> p \<and> p + c \<le> regionEnd h \<and> 8 dvd p) \<and>
    (\<forall>(p, c) \<in> live h. \<forall>(q, d) \<in> live h. (p, c) = (q, d) \<or> p + c \<le> q \<or> q + d \<le> p) \<and>
    (live h = {} \<longrightarrow> packets h = [(sys_memory h, SYSMEM_SIZE h - 8, False)])"
proof -
  have ok: "heapOk h" using heapRun_ok [OF assms(3)] assms(1,2) by (simp add: heapOk_def)
  have "\<forall>(p, c) \<in> live h. sys_memory h + 8 \<le> p \<and> p + c \<le> regionEnd h \<and> 8 dvd p" using live_bounds [OF ok] by blast
  moreover have "\<forall>(p, c) \<in> live h. \<forall>(q, d) \<in> live h. (p, c) = (q, d) \<or> p + c \<le> q \<or> q + d \<le> p"
    using rts.held_apart [OF ok] by blast
  ultimately show ?thesis using serve_ok [OF ok] packets_all_free [OF ok] by blast
qed

definition demoHeap :: rts_heap where
  "demoHeap = \<lparr>hmem = (\<lambda>a. 0xAA), sys_free = 0, memory_is_initialized = False, sys_memory = 0x20001000, SYSMEM_SIZE = 256\<rparr>"

lemma demoHeap_ok: "regionOk demoHeap" "\<not> memory_is_initialized demoHeap" "heapOk demoHeap"
  by (simp_all add: demoHeap_def regionOk_def heapOk_def)

lemma demoHeap_started:
  "packets (meminit demoHeap) = [(0x20001000, 248, False)]" "heapOk (meminit demoHeap)" "memory_is_initialized (meminit demoHeap)"
proof -
  have inv: "heapInv (meminit demoHeap) [(0x20001000, 248, False)]" using meminit_ok [OF demoHeap_ok(1)] by (simp add: demoHeap_def)
  show "packets (meminit demoHeap) = [(0x20001000, 248, False)]" by (rule packets_heapInv [OF inv])
  show "heapOk (meminit demoHeap)" using heapInv_ok [OF inv] by simp
  show "memory_is_initialized (meminit demoHeap)" using inv by (simp add: heapInv_def)
qed

theorem heap_requests_safe_witness:
  "\<exists>h. heapRun demoHeap [Malloc 10, AlignedAlloc 64 20] h \<and>
    (\<forall>(p, c) \<in> live h. \<forall>(q, d) \<in> live h. (p, c) = (q, d) \<or> p + c \<le> q \<or> q + d \<le> p)"
proof -
  obtain ptr1 h1 where h1: "serve (Malloc 10) demoHeap = Some (ptr1, h1)" "heapOk h1"
    using serve_ok [OF demoHeap_ok(3), of "Malloc 10"] by auto
  obtain ptr2 h2 where h2: "serve (AlignedAlloc 64 20) h1 = Some (ptr2, h2)" using serve_ok [OF h1(2), of "AlignedAlloc 64 20"] by auto
  have "heapRun demoHeap ([] @ [Malloc 10]) h1" by (rule heapRun.step [OF heapRun.start]) (rule heapStep.intros, simp, rule h1(1))
  then have "heapRun demoHeap (([] @ [Malloc 10]) @ [AlignedAlloc 64 20]) h2"
    by (rule heapRun.step) (rule heapStep.intros, simp, rule h2)
  then have r: "heapRun demoHeap [Malloc 10, AlignedAlloc 64 20] h2" by simp
  from heap_requests_safe [OF demoHeap_ok(1,2) r] r show ?thesis by blast
qed

text \<open>C26. On a heap in use, \<open>malloc\<close> fails exactly for a size of zero and for one above what \<open>__TI_heap_largest_available\<close>
  reports, and then changes no packet. Otherwise the new block overlaps no other, and releasing it restores the blocks in use.\<close>

theorem malloc_fails_only_when_full:
  assumes "heapOk h" "memory_is_initialized h"
  shows "\<exists>ptr h' m. malloc s h = Some (ptr, h') \<and> heap_largest_available h = Some m \<and>
    (ptr = 0 \<longleftrightarrow> s = 0 \<or> m < unat s) \<and>
    (ptr = 0 \<longrightarrow> packets h' = packets h) \<and>
    (ptr \<noteq> 0 \<longrightarrow> (\<forall>(q, d) \<in> live h. ptr + unat s \<le> q \<or> q + d \<le> ptr) \<and>
       (\<exists>h''. free ptr h' = Some h'' \<and> heapOk h'' \<and> live h'' = live h))"
proof -
  obtain m where m: "heap_largest_available h = Some m" "m = 0 \<or> m \<in> snd ` freesOf (packets h)"
      "\<forall>x \<in> freesOf (packets h). snd x \<le> m"
    using heap_statistics(2) [OF assms] by blast
  have inv: "heapInv h (packets h)" using assms by (simp add: heapOk_def)
  have t: "tiles (sys_memory h) (packets h) (regionEnd h)" "8 dvd sys_memory h" using inv by (auto simp: heapInv_def regionOk_def)
  have m8: "8 dvd m" "m \<le> heap_size h"
  proof -
    have "8 dvd n \<and> n \<le> heap_size h" if "(p, n) \<in> freesOf (packets h)" for p n
      using that tiles_mem [OF t(1), of p n False] tiles_aligned [OF t, of p n False] heap_bounds(1) [OF inv] by (auto simp: freesOf_def)
    then show "8 dvd m" "m \<le> heap_size h" using m(2) by auto
  qed
  obtain ptr h' where h': "malloc s h = Some (ptr, h')" "heapOk h'"
    and c: "if ptr = 0 then packets h' = packets h \<and>
       (s = 0 \<or> heap_size h < unat s \<or> (\<forall>x \<in> freesOf (packets h). snd x < unat (roundSize s)))
     else s \<noteq> 0 \<and> unat s \<le> unat (roundSize s) \<and> allocates h (unat (roundSize s)) ptr h' \<and>
       (\<exists>x \<in> freesOf (packets h). unat (roundSize s) \<le> snd x)"
    using malloc_ok [OF assms(1), of s] by blast
  have "ptr = 0 \<longleftrightarrow> s = 0 \<or> m < unat s"
  proof (cases "ptr = 0")
    case True
    have "m < unat s" if "s \<noteq> 0" "\<forall>x \<in> freesOf (packets h). snd x < unat (roundSize s)"
    proof (rule ccontr)
      assume "\<not> m < unat s"
      then have "unat (roundSize s) \<le> m" "8 \<le> unat (roundSize s)" using roundSize_ok [of s m] that(1) m8 heap_bounds(3) [OF inv] by auto
      then show False using that(2) m(2) by fastforce
    qed
    then show ?thesis using True c m8(2) by auto
  next
    case False
    then obtain x where "x \<in> freesOf (packets h)" "unat (roundSize s) \<le> snd x" using c by auto
    then show ?thesis using False c m(3) by fastforce
  qed
  moreover have "\<forall>(q, d) \<in> live h. ptr + unat s \<le> q \<or> q + d \<le> ptr" if "ptr \<noteq> 0"
    using rts.alloc_new_region [OF assms(1) h'(1) that] by blast
  moreover have "\<exists>h''. free ptr h' = Some h'' \<and> heapOk h'' \<and> live h'' = live h" if "ptr \<noteq> 0"
    by (rule rts.alloc_release [OF assms(1) h'(1) that])
  ultimately show ?thesis using h'(1) m(1) c by auto
qed

theorem malloc_fails_only_when_full_witness:
  "\<exists>ptr h' h''. malloc 200 (meminit demoHeap) = Some (ptr, h') \<and> ptr \<noteq> 0 \<and> free ptr h' = Some h'' \<and>
    live h'' = live (meminit demoHeap)"
proof -
  obtain ptr h' m where p: "malloc 200 (meminit demoHeap) = Some (ptr, h')" "heap_largest_available (meminit demoHeap) = Some m"
      "ptr = 0 \<longleftrightarrow> (200 :: u32) = 0 \<or> m < unat (200 :: u32)"
      "ptr \<noteq> 0 \<longrightarrow> (\<exists>h''. free ptr h' = Some h'' \<and> live h'' = live (meminit demoHeap))"
    using malloc_fails_only_when_full [OF demoHeap_started(2,3), of 200] by blast
  have "m = 248"
    using heap_statistics(2) [OF demoHeap_started(2,3)] p(2) by (auto simp: demoHeap_started(1))
  then show ?thesis using p(1,3,4) by auto
qed

end
