(* ===== verification/Mem_Alloc.thy ===== *)
theory Mem_Alloc
  imports Heap_Contract
begin

text \<open>
  The C heap of the RTOS image: \<open>malloc\<close>, \<open>memalign\<close>, \<open>calloc\<close>, \<open>free\<close> and \<open>realloc\<close> as the generated configuration defines them
  (\<open>boot_build/release_boot_cfg.c\<close>, template \<open>ti.sysbios.rts.MemAlloc\<close>). They put a header in front of each block and obtain memory from the
  \<open>Memory\<close> module of the RTOS, which is not part of the repository: it is a parameter, with what the module documents as
  the locale \<open>memory_module\<close>. The bytes of RAM are part of its state.
\<close>

section \<open>Operations\<close>

record 'm memory_ops =
  Memory_alloc :: "u32 \<Rightarrow> u32 \<Rightarrow> 'm \<Rightarrow> nat \<times> 'm"
  Memory_free :: "nat \<Rightarrow> u32 \<Rightarrow> 'm \<Rightarrow> 'm"
  ramBytes :: "'m \<Rightarrow> memory"
  storeBytes :: "nat \<Rightarrow> u8 list \<Rightarrow> 'm \<Rightarrow> 'm"

definition sizeof_Header :: nat where "sizeof_Header = 8"

definition actualBuf :: "'m memory_ops \<Rightarrow> 'm \<Rightarrow> nat \<Rightarrow> nat" where
  "actualBuf ops m packet = unat (loadUint32Le (readMem (ramBytes ops m) packet 4))"

definition headerSize :: "'m memory_ops \<Rightarrow> 'm \<Rightarrow> nat \<Rightarrow> u32" where
  "headerSize ops m packet = loadUint32Le (readMem (ramBytes ops m) (packet + 4) 4)"

definition setHeader :: "'m memory_ops \<Rightarrow> nat \<Rightarrow> nat \<Rightarrow> u32 \<Rightarrow> 'm \<Rightarrow> 'm" where
  "setHeader ops packet buf sz m =
     storeBytes ops (packet + 4) (storeUint32Le sz) (storeBytes ops packet (storeUint32Le (of_nat buf)) m)"

definition MemAlloc_alloc :: "'m memory_ops \<Rightarrow> u32 \<Rightarrow> 'm \<Rightarrow> nat \<times> 'm" where
  "MemAlloc_alloc ops sz m =
     (if sz = 0 then (0, m)
      else let allocSize = sz + of_nat sizeof_Header in
      if allocSize < sz then (0, m)
      else case Memory_alloc ops allocSize 0 m of (packet, m) \<Rightarrow>
        if packet = 0 then (0, m)
        else (packet + sizeof_Header, setHeader ops packet packet allocSize m))"

definition bios_malloc :: "'m memory_ops \<Rightarrow> u32 \<Rightarrow> 'm \<Rightarrow> nat \<times> 'm" where
  "bios_malloc ops sz m = MemAlloc_alloc ops sz m"

definition bios_memalign :: "'m memory_ops \<Rightarrow> u32 \<Rightarrow> u32 \<Rightarrow> 'm \<Rightarrow> nat \<times> 'm" where
  "bios_memalign ops alignment sz m =
     (let alignment = (if alignment < of_nat sizeof_Header then of_nat sizeof_Header else alignment) in
      if sz = 0 \<or> alignment AND (alignment - 1) \<noteq> 0 then (0, m)
      else case Memory_alloc ops (alignment + sz) alignment m of (tmp, m) \<Rightarrow>
        if tmp = 0 then (0, m)
        else let packet = tmp + unat alignment - sizeof_Header in
          (packet + sizeof_Header, setHeader ops packet tmp (sz + of_nat sizeof_Header) m))"

definition bios_calloc :: "'m memory_ops \<Rightarrow> u32 \<Rightarrow> u32 \<Rightarrow> 'm \<Rightarrow> nat \<times> 'm" where
  "bios_calloc ops nmemb sz m =
     (let nbytes = nmemb * sz in
      if nmemb \<noteq> 0 \<and> sz \<noteq> nbytes div nmemb then (0, m)
      else case MemAlloc_alloc ops nbytes m of (retval, m) \<Rightarrow>
        (retval, if retval \<noteq> 0 then storeBytes ops retval (replicate (unat nbytes) 0) m else m))"

definition bios_free :: "'m memory_ops \<Rightarrow> nat \<Rightarrow> 'm \<Rightarrow> 'm" where
  "bios_free ops ptr m =
     (if ptr \<noteq> 0 then
        let packet = ptr - sizeof_Header in
        Memory_free ops (actualBuf ops m packet)
          (headerSize ops m packet + (of_nat packet - of_nat (actualBuf ops m packet))) m
      else m)"

definition bios_realloc :: "'m memory_ops \<Rightarrow> nat \<Rightarrow> u32 \<Rightarrow> 'm \<Rightarrow> nat \<times> 'm" where
  "bios_realloc ops ptr sz m =
     (if ptr = 0 then bios_malloc ops sz m
      else if sz = 0 then (0, bios_free ops ptr m)
      else let packet = ptr - sizeof_Header in
        case bios_malloc ops sz m of (retval, m) \<Rightarrow>
        if retval \<noteq> 0 then
          let oldSize = headerSize ops m packet - of_nat sizeof_Header;
              m = storeBytes ops retval (readMem (ramBytes ops m) ptr (unat (if sz < oldSize then sz else oldSize))) m
          in (retval, bios_free ops ptr m)
        else (retval, m))"

section \<open>The Memory module\<close>

text \<open>The bytes of a region, given by its address and size, are the same in two states.\<close>

definition sameAt :: "'m memory_ops \<Rightarrow> nat \<times> nat \<Rightarrow> 'm \<Rightarrow> 'm \<Rightarrow> bool" where
  "sameAt ops r m m' \<longleftrightarrow> (\<forall>a. fst r \<le> a \<and> a < fst r + snd r \<longrightarrow> ramBytes ops m' a = ramBytes ops m a)"

locale memory_module =
  fixes ops :: "'m memory_ops"
    and ok :: "'m \<Rightarrow> bool"
    and granted :: "'m \<Rightarrow> (nat \<times> nat) set"
  assumes alloc_law: "ok m \<Longrightarrow> sz \<noteq> 0 \<Longrightarrow> Memory_alloc ops sz al m = (p, m') \<Longrightarrow>
      ok m' \<and> (\<forall>r \<in> granted m. sameAt ops r m m') \<and>
      (if p = 0 then granted m' = granted m
       else granted m' = insert (p, unat sz) (granted m) \<and> p \<notin> fst ` granted m \<and> 8 dvd p \<and>
         (8 \<le> al \<and> al AND (al - 1) = 0 \<longrightarrow> unat al dvd p))"
    and free_law: "ok m \<Longrightarrow> (p, unat sz) \<in> granted m \<Longrightarrow> m' = Memory_free ops p sz m \<Longrightarrow>
      ok m' \<and> granted m' = granted m - {(p, unat sz)} \<and>
      (\<forall>r \<in> granted m'. sameAt ops r m m')"
    and store_law: "ok m \<Longrightarrow> (p, n) \<in> granted m \<Longrightarrow> p \<le> a \<Longrightarrow> a + length bs \<le> p + n \<Longrightarrow>
      ok (storeBytes ops a bs m) \<and> granted (storeBytes ops a bs m) = granted m \<and>
      ramBytes ops (storeBytes ops a bs m) = writeMem (ramBytes ops m) a bs"
    and apart_law: "ok m \<Longrightarrow> (p, n) \<in> granted m \<Longrightarrow> (q, k) \<in> granted m \<Longrightarrow> (p, n) = (q, k) \<or> p + n \<le> q \<or> q + k \<le> p"
    and range_law: "ok m \<Longrightarrow> (p, n) \<in> granted m \<Longrightarrow> 0 < p \<and> p + n \<le> 2 ^ 32"

section \<open>The blocks of the program\<close>

text \<open>The blocks that the program holds, by address with the size it asked for; the granted region behind each of them is read from its
  header. The module's other clients hold the regions in \<open>G\<close>.\<close>

definition region :: "'m memory_ops \<Rightarrow> 'm \<Rightarrow> nat \<Rightarrow> nat \<Rightarrow> nat \<times> nat" where
  "region ops m p n = (actualBuf ops m (p - 8), p + n - actualBuf ops m (p - 8))"

definition headed :: "'m memory_ops \<Rightarrow> 'm \<Rightarrow> nat \<Rightarrow> nat \<Rightarrow> bool" where
  "headed ops m p n \<longleftrightarrow> 8 \<le> p \<and> 0 < n \<and> n + 8 < 2 ^ 32 \<and> headerSize ops m (p - 8) = of_nat (n + 8) \<and> actualBuf ops m (p - 8) \<le> p - 8"

definition blocksOk :: "'m memory_ops \<Rightarrow> ('m \<Rightarrow> (nat \<times> nat) set) \<Rightarrow> (nat \<times> nat) set \<Rightarrow> (nat \<rightharpoonup> nat) \<Rightarrow> 'm \<Rightarrow> bool" where
  "blocksOk ops granted G B m \<longleftrightarrow>
     (\<forall>p n. B p = Some n \<longrightarrow> headed ops m p n \<and> region ops m p n \<notin> G) \<and>
     granted m = G \<union> {region ops m p n | p n. B p = Some n} \<and>
     (\<forall>p n q k. B p = Some n \<longrightarrow> B q = Some k \<longrightarrow> region ops m p n = region ops m q k \<longrightarrow> p = q)"

lemma sameAt_trans: "sameAt ops r m m1 \<Longrightarrow> sameAt ops r m1 m2 \<Longrightarrow> sameAt ops r m m2"
  by (simp add: sameAt_def)

lemma sameAt_read: "sameAt ops (q, k) m m' \<Longrightarrow> q \<le> a \<Longrightarrow> a + n \<le> q + k \<Longrightarrow> readMem (ramBytes ops m') a n = readMem (ramBytes ops m) a n"
  by (simp add: sameAt_def readMem_def)

lemma region_range:
  assumes "headed ops m p n"
  shows "fst (region ops m p n) + 8 \<le> p" "fst (region ops m p n) + snd (region ops m p n) = p + n"
  using assms by (auto simp: headed_def region_def)

lemma same_header:
  assumes "\<And>a. p - 8 \<le> a \<Longrightarrow> a < p \<Longrightarrow> ramBytes ops m' a = ramBytes ops m a" "headed ops m p n"
  shows "region ops m' p n = region ops m p n" "headed ops m' p n"
proof -
  have "sameAt ops (p - 8, 8) m m'" using assms by (auto simp: sameAt_def headed_def)
  from sameAt_read [OF this, of "p - 8" 4] sameAt_read [OF this, of "p - 8 + 4" 4]
  have "actualBuf ops m' (p - 8) = actualBuf ops m (p - 8)" "headerSize ops m' (p - 8) = headerSize ops m (p - 8)"
    by (simp_all add: actualBuf_def headerSize_def)
  then show "region ops m' p n = region ops m p n" "headed ops m' p n" using assms(2) by (simp_all add: region_def headed_def)
qed

lemma same_region:
  assumes "sameAt ops (region ops m p n) m m'" "headed ops m p n"
  shows "region ops m' p n = region ops m p n" "headed ops m' p n" "sameAt ops (p, n) m m'"
proof -
  have "ramBytes ops m' a = ramBytes ops m a" if "p - 8 \<le> a" "a < p + n" for a
    using assms region_range [OF assms(2)] that by (auto simp: sameAt_def)
  then show "region ops m' p n = region ops m p n" "headed ops m' p n" "sameAt ops (p, n) m m'"
    using same_header [of p ops m' m n] assms(2) by (auto simp: sameAt_def)
qed

text \<open>One operation: the other clients and the blocks that are not named keep their bytes.\<close>

definition blockStep :: "'m memory_ops \<Rightarrow> ('m \<Rightarrow> bool) \<Rightarrow> ('m \<Rightarrow> (nat \<times> nat) set) \<Rightarrow> (nat \<times> nat) set \<Rightarrow> nat set \<Rightarrow>
    (nat \<rightharpoonup> nat) \<Rightarrow> 'm \<Rightarrow> (nat \<rightharpoonup> nat) \<Rightarrow> 'm \<Rightarrow> bool" where
  "blockStep ops ok granted G N B m B' m' \<longleftrightarrow>
     ok m' \<and> blocksOk ops granted G B' m' \<and> (\<forall>r \<in> G. sameAt ops r m m') \<and>
     (\<forall>q k. B q = Some k \<longrightarrow> q \<notin> N \<longrightarrow> B' q = Some k \<and> sameAt ops (q, k) m m')"

lemma blockStep_trans:
  assumes "blockStep ops ok granted G N B m B1 m1" "blockStep ops ok granted G N' B1 m1 B2 m2" "\<And>p. p \<in> N' \<Longrightarrow> p \<in> dom B \<Longrightarrow> p \<in> N"
  shows "blockStep ops ok granted G N B m B2 m2"
  unfolding blockStep_def
proof (intro conjI ballI allI impI)
  show "ok m2" "blocksOk ops granted G B2 m2" using assms(2) by (auto simp: blockStep_def)
next
  fix r assume "r \<in> G"
  then show "sameAt ops r m m2" using assms(1,2) by (auto simp: blockStep_def intro: sameAt_trans)
next
  fix q k assume q: "B q = Some k" "q \<notin> N"
  then have q1: "B1 q = Some k" "sameAt ops (q, k) m m1" using assms(1) by (auto simp: blockStep_def)
  moreover have "q \<notin> N'" using assms(3) q by auto
  ultimately show "B2 q = Some k" "sameAt ops (q, k) m m2" using assms(2) by (auto simp: blockStep_def intro: sameAt_trans)
qed

lemma blocksOk_region:
  assumes "blocksOk ops granted G B m" "B p = Some n"
  shows "headed ops m p n" "region ops m p n \<in> granted m" "region ops m p n \<notin> G"
  using assms unfolding blocksOk_def by auto

lemma blocksOk_clients: "blocksOk ops granted G B m \<Longrightarrow> G \<subseteq> granted m"
  by (auto simp: blocksOk_def)

text \<open>The invariant and the step, from the regions that keep their bytes.\<close>

lemma blocks_kept:
  assumes "blocksOk ops granted G B m" "\<And>q k. B q = Some k \<Longrightarrow> q \<notin> N \<Longrightarrow> sameAt ops (region ops m q k) m m'"
    and "B q = Some k" "q \<notin> N"
  shows "headed ops m' q k" "region ops m' q k = region ops m q k" "sameAt ops (q, k) m m'"
  using same_region [OF assms(2) [OF assms(3,4)] blocksOk_region(1) [OF assms(1,3)]] by simp_all

text \<open>The two overflow tests of the code.\<close>

lemma no_wrap_add: "\<not> a + b < a \<Longrightarrow> unat (a + b) = unat a + unat (b :: u32)"
proof -
  assume a: "\<not> a + b < a"
  have e: "unat (a + b) = (unat a + unat b) mod 2 ^ 32" by (simp add: unat_word_ariths)
  show ?thesis
  proof (cases "unat a + unat b < 2 ^ 32")
    case False
    then have "(unat a + unat b) mod 2 ^ 32 = unat a + unat b - 2 ^ 32"
      using unat_u32_less [of a] unat_u32_less [of b] by (simp add: le_mod_geq)
    then show ?thesis using a e unat_u32_less [of b] False by (simp add: word_less_nat_alt)
  qed (simp add: e)
qed

lemma no_wrap_mult:
  assumes "a = 0 \<or> b = (a * b) div (a :: u32)"
  shows "unat (a * b) = unat a * unat b"
proof (cases "a = 0")
  case False
  then have "unat b = unat (a * b) div unat a" using assms by (metis unat_div)
  then have "unat a * unat b \<le> unat (a * b)" by simp
  then have "unat a * unat b < 2 ^ 32" using unat_u32_less [of "a * b"] by simp
  then show ?thesis by (simp add: unat_word_ariths)
qed simp

context memory_module
begin

lemma store_block:
  assumes ok: "ok m" "blocksOk ops granted G B m" "B p = Some n" "i + length bs \<le> n" and m': "m' = storeBytes ops (p + i) bs m"
  shows "blockStep ops ok granted G {p} B m B m'" "ramBytes ops m' = writeMem (ramBytes ops m) (p + i) bs"
proof -
  note p = blocksOk_region [OF ok(2,3)]
  note rr = region_range [OF p(1)]
  obtain b l where r: "region ops m p n = (b, l)" by (cases "region ops m p n")
  have st: "ok m'" "granted m' = granted m" and w: "ramBytes ops m' = writeMem (ramBytes ops m) (p + i) bs"
    using store_law [OF ok(1), of b l "p + i" bs] p(2) rr ok(4) by (auto simp: r m')
  have other: "sameAt ops x m m'" if "x \<in> granted m" "x \<noteq> region ops m p n" for x
    using apart_law [OF ok(1), of "fst x" "snd x" b l] that p(2) rr ok(4) by (auto simp: sameAt_def w r intro!: writeMem_out)
  have q: "region ops m q k \<noteq> region ops m p n" if "B q = Some k" "q \<notin> {p}" for q k
    using ok(2,3) that unfolding blocksOk_def by auto
  note kept = blocks_kept [OF ok(2), of "{p}" m', OF other [OF blocksOk_region(2) [OF ok(2)] q]]
  have own: "region ops m' p n = region ops m p n" "headed ops m' p n"
    by (rule same_header [OF _ p(1)]; simp add: w writeMem_out)+
  have reg: "region ops m' q k = region ops m q k \<and> headed ops m' q k" if "B q = Some k" for q k
    using kept [of q k] own that ok(3) by (cases "q = p") auto
  have "blocksOk ops granted G B m'"
    using ok(2) reg unfolding blocksOk_def st(2) by (smt (verit) Collect_cong)
  moreover have "\<forall>r \<in> G. sameAt ops r m m'" using other p(3) blocksOk_clients [OF ok(2)] by (metis subsetD)
  ultimately show "blockStep ops ok granted G {p} B m B m'" using st kept by (auto simp: blockStep_def)
  show "ramBytes ops m' = writeMem (ramBytes ops m) (p + i) bs" by (rule w)
qed

lemma header_written:
  assumes ok: "ok m" "(b, l) \<in> granted m" and p: "b + 8 \<le> p" "p \<le> b + l" and m': "m' = setHeader ops (p - 8) b sz m"
  shows "ok m'" "granted m' = granted m" "actualBuf ops m' (p - 8) = b" "headerSize ops m' (p - 8) = sz"
    "\<And>x. x \<in> granted m \<Longrightarrow> x \<noteq> (b, l) \<Longrightarrow> sameAt ops x m m'"
proof -
  let ?m = "storeBytes ops (p - 8) (storeUint32Le (of_nat b)) m"
  have b: "b < 2 ^ 32" using range_law [OF ok] p by simp
  have s1: "ok ?m" "granted ?m = granted m" "ramBytes ops ?m = writeMem (ramBytes ops m) (p - 8) (storeUint32Le (of_nat b))"
    using store_law [OF ok, of "p - 8" "storeUint32Le (of_nat b)"] p by auto
  then have s2: "ok m'" "granted m' = granted m"
    and w: "ramBytes ops m' = writeMem (writeMem (ramBytes ops m) (p - 8) (storeUint32Le (of_nat b))) (p - 8 + 4) (storeUint32Le sz)"
    using store_law [OF s1(1), of b l "p - 8 + 4" "storeUint32Le sz"] ok(2) p by (auto simp: m' setHeader_def)
  then show "ok m'" "granted m' = granted m" by simp_all
  have "readMem (ramBytes ops m') (p - 8) 4 = storeUint32Le (of_nat b)"
    using readMem_writeMem_apart [of "p - 8 + 4" "storeUint32Le sz" "p - 8" 4] readMem_writeMem_same [of _ "p - 8" "storeUint32Le (of_nat b)"]
    by (simp add: w apart_def)
  then show "actualBuf ops m' (p - 8) = b" using b by (simp add: actualBuf_def unat_of_nat_less)
  have "readMem (ramBytes ops m') (p - 8 + 4) 4 = storeUint32Le sz"
    using readMem_writeMem_same [of _ "p - 8 + 4" "storeUint32Le sz"] by (simp add: w)
  then show "headerSize ops m' (p - 8) = sz" by (simp add: headerSize_def)
  show "sameAt ops x m m'" if "x \<in> granted m" "x \<noteq> (b, l)" for x
    using apart_law [OF ok(1), of "fst x" "snd x" b l] that ok(2) p by (auto simp: sameAt_def w writeMem_def)
qed

lemma grant_block:
  assumes ok: "ok m" "blocksOk ops granted G B m" and al: "Memory_alloc ops sz al m = (b, m1)" "b \<noteq> 0" "sz \<noteq> 0"
    and p: "b + 8 \<le> p" "0 < n" "p + n = b + unat sz" and m': "m' = setHeader ops (p - 8) b (of_nat (n + 8)) m1"
  shows "blockStep ops ok granted G {} B m (B(p \<mapsto> n)) m' \<and> p \<notin> dom B"
proof -
  have a: "ok m1" "granted m1 = insert (b, unat sz) (granted m)" "b \<notin> fst ` granted m"
    and same1: "\<And>x. x \<in> granted m \<Longrightarrow> sameAt ops x m m1"
    using alloc_law [OF ok(1) al(3,1)] al(2) by auto
  have n: "n + 8 < 2 ^ 32" using range_law [OF a(1), of b "unat sz"] a(2) p by auto
  have "(b, unat sz) \<in> granted m1" "p \<le> b + unat sz" using a(2) p(2,3) by simp_all
  note h = header_written [OF a(1) this(1) p(1) this(2) m']
  have st: "ok m'" "granted m' = insert (b, unat sz) (granted m)" "actualBuf ops m' (p - 8) = b" "headerSize ops m' (p - 8) = of_nat (n + 8)"
    using h(1-4) unfolding a(2) by simp_all
  have same: "sameAt ops x m m'" if "x \<in> granted m" for x
  proof -
    have "x \<noteq> (b, unat sz)" using a(3) that by (metis fst_conv image_eqI)
    then have "sameAt ops x m1 m'" by (intro h(5)) (simp add: a(2) that)
    with same1 [OF that] show ?thesis by (rule sameAt_trans)
  qed
  have own: "region ops m' p n = (b, unat sz)" "headed ops m' p n"
  proof -
    have "p + n - b = unat sz" using p(3) by linarith
    then show "region ops m' p n = (b, unat sz)" unfolding region_def st(3) by simp
    have "8 \<le> p" "b \<le> p - 8" using p(1) by linarith+
    then show "headed ops m' p n" unfolding headed_def st(3,4) using p(2) n by blast
  qed
  note kept = blocks_kept [OF ok(2), of "{}" m', OF same [OF blocksOk_region(2) [OF ok(2)]], simplified]
  have new: "p \<notin> dom B"
  proof
    assume "p \<in> dom B"
    then obtain k where k: "B p = Some k" by auto
    note r = blocksOk_region [OF ok(2) k]
    have "region ops m p k \<in> granted m'" "(b, unat sz) \<in> granted m'" using r(2) st(2) by auto
    from apart_law [OF st(1), of "fst (region ops m p k)" "snd (region ops m p k)" b "unat sz"] this
    show False using region_range [OF r(1)] r(2) a(3) p by (auto intro: rev_image_eqI)
  qed
  have reg: "region ops m' q k = region ops m q k" if "B q = Some k" for q k using kept(2) that .
  have "{region ops m' q k | q k. (B(p \<mapsto> n)) q = Some k} = insert (b, unat sz) {region ops m q k | q k. B q = Some k}"
  proof (intro set_eqI iffI)
    fix x assume "x \<in> {region ops m' q k | q k. (B(p \<mapsto> n)) q = Some k}"
    then show "x \<in> insert (b, unat sz) {region ops m q k | q k. B q = Some k}" using own(1) reg by (auto split: if_splits)
  next
    fix x assume "x \<in> insert (b, unat sz) {region ops m q k | q k. B q = Some k}"
    then consider "x = region ops m' p n" | q k where "x = region ops m q k" "B q = Some k" using own(1) by auto
    then show "x \<in> {region ops m' q k | q k. (B(p \<mapsto> n)) q = Some k}"
    proof cases
      case 2
      then have "q \<noteq> p" using new by auto
      then show ?thesis using 2 reg by fastforce
    qed auto
  qed
  then have g: "granted m' = G \<union> {region ops m' q k | q k. (B(p \<mapsto> n)) q = Some k}"
    using ok(2) st(2) by (simp add: blocksOk_def)
  have fresh: "region ops m q k \<noteq> (b, unat sz)" if "B q = Some k" for q k
    using blocksOk_region(2) [OF ok(2) that] a(3) by (metis fst_conv image_eqI)
  have "(b, unat sz) \<notin> G" using blocksOk_clients [OF ok(2)] a(3) by force
  then have "blocksOk ops granted G (B(p \<mapsto> n)) m'"
    using ok(2) own kept(1) reg fresh unfolding blocksOk_def g by (auto simp: blocksOk_def split: if_splits) metis+
  then show ?thesis using st(1) new kept(3) same blocksOk_clients [OF ok(2)] by (auto simp: blockStep_def)
qed

lemma release_block:
  assumes ok: "ok m" "blocksOk ops granted G B m" "B p = Some n" and m': "m' = bios_free ops p m"
  shows "blockStep ops ok granted G {p} B m (B(p := None)) m'"
proof -
  note r = blocksOk_region [OF ok(2,3)]
  let ?b = "actualBuf ops m (p - 8)"
  let ?sz = "headerSize ops m (p - 8) + (of_nat (p - 8) - of_nat ?b)"
  have h: "?b \<le> p - 8" "8 \<le> p" "headerSize ops m (p - 8) = of_nat (n + 8)" "0 < n" using r(1) by (auto simp: headed_def)
  have "p + n - ?b < 2 ^ 32" using range_law [OF ok(1), of ?b "p + n - ?b"] r(2) h by (auto simp: region_def)
  moreover have "?sz = of_nat (p + n - ?b)"
  proof -
    have "n + 8 + (p - 8 - ?b) = p + n - ?b" using h by simp
    then have "of_nat (p + n - ?b) = (of_nat (n + 8) + of_nat (p - 8 - ?b) :: u32)" by (metis of_nat_add)
    then show ?thesis using h by (simp add: of_nat_diff)
  qed
  ultimately have sz: "region ops m p n = (?b, unat ?sz)" by (simp add: region_def unat_of_nat_less)
  have "m' = Memory_free ops ?b ?sz m" using h(2) by (simp add: m' bios_free_def sizeof_Header_def Let_def)
  from free_law [OF ok(1) _ this] r(2)
  have f: "ok m'" "granted m' = granted m - {region ops m p n}" and same: "\<And>x. x \<in> granted m' \<Longrightarrow> sameAt ops x m m'"
    unfolding sz by auto
  have q: "region ops m q k \<noteq> region ops m p n" if "B q = Some k" "q \<notin> {p}" for q k
    using ok(2,3) that unfolding blocksOk_def by auto
  have "sameAt ops (region ops m q k) m m'" if "B q = Some k" "q \<notin> {p}" for q k
    using same q [OF that] blocksOk_region(2) [OF ok(2) that(1)] f(2) by simp
  note kept = blocks_kept [OF ok(2), of "{p}", OF this]
  have "{region ops m' q k | q k. (B(p := None)) q = Some k} = {region ops m q k | q k. B q = Some k} - {region ops m p n}"
    using q kept(2) ok(3) by (auto simp: fun_upd_def split: if_splits) (metis option.inject singletonD)+
  then have g: "granted m' = G \<union> {region ops m' q k | q k. (B(p := None)) q = Some k}"
    using ok(2) f(2) r(3) by (auto simp: blocksOk_def)
  have "blocksOk ops granted G (B(p := None)) m'"
    using ok(2) kept(1,2) unfolding blocksOk_def g by (auto simp: blocksOk_def split: if_splits)
  moreover have "\<forall>x \<in> G. sameAt ops x m m'" using same blocksOk_clients [OF ok(2)] r(3) unfolding f(2) by blast
  ultimately show ?thesis using f(1) kept(3) by (auto simp: blockStep_def)
qed

lemma no_block:
  assumes "ok m" "blocksOk ops granted G B m" "Memory_alloc ops sz al m = (0, m')" "sz \<noteq> 0"
  shows "blockStep ops ok granted G {} B m B m'"
proof -
  have a: "ok m'" "granted m' = granted m" and same: "\<And>r. r \<in> granted m \<Longrightarrow> sameAt ops r m m'"
    using alloc_law [OF assms(1,4,3)] by auto
  note kept = blocks_kept [OF assms(2), of "{}" m', OF same [OF blocksOk_region(2) [OF assms(2)]], simplified]
  have "{region ops m' p n | p n. B p = Some n} = {region ops m p n | p n. B p = Some n}" using kept(2) by force
  moreover have "blocksOk ops granted G B m" by (rule assms(2))
  ultimately have "blocksOk ops granted G B m'" unfolding blocksOk_def a(2) using kept(1,2) by simp
  then show ?thesis using a(1) same kept(3) blocksOk_clients [OF assms(2)] by (auto simp: blockStep_def)
qed

lemma unchanged: "ok m \<Longrightarrow> blocksOk ops granted G B m \<Longrightarrow> blockStep ops ok granted G N B m B m"
  by (simp add: blockStep_def sameAt_def)

lemma alloc_block:
  assumes ok: "ok m" "blocksOk ops granted G B m" and r: "MemAlloc_alloc ops sz m = (p, m')"
  shows "blockStep ops ok granted G {} B m (if p = 0 then B else B(p \<mapsto> unat sz)) m' \<and> p \<notin> dom B \<and> (p \<noteq> 0 \<longrightarrow> sz \<noteq> 0 \<and> 8 dvd p)"
proof -
  have zero: "0 \<notin> dom B" using blocksOk_region(1) [OF ok(2), of 0] by (auto simp: headed_def)
  show ?thesis
  proof (cases "sz = 0 \<or> sz + 8 < sz")
    case True
    then have "p = 0" "m' = m" using r unfolding MemAlloc_alloc_def sizeof_Header_def Let_def by (auto split: if_splits)
    then show ?thesis using unchanged [OF ok] zero by auto
  next
    case False
    obtain b m1 where b: "Memory_alloc ops (sz + 8) 0 m = (b, m1)" by fastforce
    have n: "unat (sz + 8) = unat sz + 8" using no_wrap_add [of sz 8] False by simp
    then have s: "sz + 8 \<noteq> 0" "0 < unat sz" "(of_nat (unat sz + 8) :: u32) = sz + 8" using False by (auto simp: unat_gt_0)
    show ?thesis
    proof (cases "b = 0")
      case True
      then show ?thesis using r b False no_block [OF ok, of "sz + 8" 0 m1] s(1) zero by (auto simp: MemAlloc_alloc_def sizeof_Header_def Let_def)
    next
      case nz: False
      have r': "p = b + 8" "m' = setHeader ops (b + 8 - 8) b (of_nat (unat sz + 8)) m1"
        using r b False nz s(3) by (auto simp: MemAlloc_alloc_def sizeof_Header_def Let_def)
      have "8 dvd b" using alloc_law [OF ok(1) s(1) b] nz by simp
      then show ?thesis using grant_block [OF ok b nz s(1) _ s(2) _ r'(2)] n False r'(1) by auto
    qed
  qed
qed

lemma memalign_block:
  assumes ok: "ok m" "blocksOk ops granted G B m" and r: "bios_memalign ops al sz m = (p, m')" and fits: "max 8 (unat al) + unat sz < 2 ^ 32"
  shows "blockStep ops ok granted G {} B m (if p = 0 then B else B(p \<mapsto> unat sz)) m' \<and> p \<notin> dom B \<and>
    (p \<noteq> 0 \<longrightarrow> sz \<noteq> 0 \<and> max 8 (unat al) dvd p)"
proof -
  have zero: "0 \<notin> dom B" using blocksOk_region(1) [OF ok(2), of 0] by (auto simp: headed_def)
  define al' where "al' = (if al < 8 then 8 else al)"
  have al': "unat al' = max 8 (unat al)" by (auto simp: al'_def word_less_nat_alt)
  have def_r: "bios_memalign ops al sz m =
      (if sz = 0 \<or> al' AND (al' - 1) \<noteq> 0 then (0, m)
       else case Memory_alloc ops (al' + sz) al' m of (tmp, m) \<Rightarrow>
         if tmp = 0 then (0, m) else (tmp + unat al' - 8 + 8, setHeader ops (tmp + unat al' - 8) tmp (sz + 8) m))"
    unfolding bios_memalign_def sizeof_Header_def al'_def Let_def of_nat_numeral by (rule refl)
  show ?thesis
  proof (cases "sz = 0 \<or> al' AND (al' - 1) \<noteq> 0")
    case True
    then have "p = 0" "m' = m" using r unfolding def_r by (auto split: if_splits)
    then show ?thesis using unchanged [OF ok] zero by auto
  next
    case False
    obtain b m1 where b: "Memory_alloc ops (al' + sz) al' m = (b, m1)" by fastforce
    have n: "unat (al' + sz) = unat al' + unat sz" using fits by (simp add: al' unat_word_ariths)
    then have s: "al' + sz \<noteq> 0" "0 < unat sz" "(of_nat (unat sz + 8) :: u32) = sz + 8" "8 \<le> unat al'" using False al' by (auto simp: unat_gt_0)
    show ?thesis
    proof (cases "b = 0")
      case True
      then have "p = 0" "m' = m1" using r b False unfolding def_r by auto
      then show ?thesis using True b no_block [OF ok, of "al' + sz" al' m1] s(1) zero by auto
    next
      case nz: False
      have r': "p = b + unat al'" "m' = setHeader ops (b + unat al' - 8) b (of_nat (unat sz + 8)) m1"
        using r b False nz s(3,4) unfolding def_r by auto
      have "8 \<le> al'" using s(4) by (simp add: word_le_nat_alt)
      then have "unat al' dvd b" using alloc_law [OF ok(1) s(1) b] nz False by simp
      then have d: "unat al' dvd p" using r'(1) by simp
      have "b + 8 \<le> p" "p + unat sz = b + unat (al' + sz)" using r'(1) s(4) n by simp_all
      moreover have "m' = setHeader ops (p - 8) b (of_nat (unat sz + 8)) m1" using r' by simp
      ultimately show ?thesis using grant_block [OF ok b nz s(1) _ s(2)] d False r'(1) s(4) al' by auto
    qed
  qed
qed

lemma calloc_block:
  assumes ok: "ok m" "blocksOk ops granted G B m" and r: "bios_calloc ops nmemb sz m = (p, m')"
  shows "blockStep ops ok granted G {} B m (if p = 0 then B else B(p \<mapsto> unat nmemb * unat sz)) m' \<and> p \<notin> dom B \<and>
    (p \<noteq> 0 \<longrightarrow> readMem (ramBytes ops m') p (unat nmemb * unat sz) = replicate (unat nmemb * unat sz) 0)"
proof (cases "nmemb \<noteq> 0 \<and> sz \<noteq> nmemb * sz div nmemb")
  case True
  then have "p = 0" "m' = m" using r by (auto simp: bios_calloc_def)
  moreover have "0 \<notin> dom B" using blocksOk_region(1) [OF ok(2), of 0] by (auto simp: headed_def)
  ultimately show ?thesis using unchanged [OF ok] by auto
next
  case False
  then have n: "unat (nmemb * sz) = unat nmemb * unat sz" by (intro no_wrap_mult) auto
  obtain m1 where m1: "MemAlloc_alloc ops (nmemb * sz) m = (p, m1)"
      "m' = (if p \<noteq> 0 then storeBytes ops p (replicate (unat (nmemb * sz)) 0) m1 else m1)"
    using r False unfolding bios_calloc_def Let_def by (auto split: prod.splits)
  note a = alloc_block [OF ok m1(1), unfolded n]
  show ?thesis
  proof (cases "p = 0")
    case False
    let ?B = "B(p \<mapsto> unat nmemb * unat sz)"
    have st: "ok m1" "blocksOk ops granted G ?B m1" using a False by (auto simp: blockStep_def)
    note s = store_block [OF st, of p "unat nmemb * unat sz" 0 "replicate (unat nmemb * unat sz) 0" m']
    have "blockStep ops ok granted G {p} ?B m1 ?B m'" "ramBytes ops m' = writeMem (ramBytes ops m1) p (replicate (unat nmemb * unat sz) 0)"
      using s m1(2) False n by auto
    moreover have "blockStep ops ok granted G {} B m ?B m1" "p \<notin> dom B" using a False by auto
    ultimately show ?thesis using False readMem_writeMem_same [of _ p "replicate (unat nmemb * unat sz) 0"]
      by (auto intro: blockStep_trans)
  qed (use a m1(2) in auto)
qed

lemma free_block:
  assumes ok: "ok m" "blocksOk ops granted G B m" and p: "p = 0 \<or> p \<in> dom B"
  shows "blockStep ops ok granted G {p} B m (B(p := None)) (bios_free ops p m)"
proof (cases "p = 0")
  case True
  have "B 0 = None" using blocksOk_region(1) [OF ok(2), of 0] by (cases "B 0") (auto simp: headed_def)
  then have "B(0 := None) = B" by (simp add: fun_upd_idem)
  then show ?thesis using True unchanged [OF ok] by (simp add: bios_free_def)
next
  case False
  then show ?thesis using release_block [OF ok _ refl] p by auto
qed

lemma realloc_move:
  assumes ok: "ok m" "blocksOk ops granted G B m" "B p = Some n" and sz: "sz \<noteq> 0" and r: "bios_realloc ops p sz m = (r, m')"
  shows "blockStep ops ok granted G {p} B m (if r = 0 then B else (B(p := None))(r \<mapsto> unat sz)) m' \<and>
    (r \<noteq> 0 \<longrightarrow> readMem (ramBytes ops m') r (min n (unat sz)) = readMem (ramBytes ops m) p (min n (unat sz)))"
proof -
  have p: "p \<noteq> 0" "0 < n" "n + 8 < 2 ^ 32" using blocksOk_region(1) [OF ok(2,3)] by (auto simp: headed_def)
  obtain m1 where m1: "MemAlloc_alloc ops sz m = (r, m1)"
    using r sz p(1) by (auto simp: bios_realloc_def bios_malloc_def Let_def split: prod.splits if_splits)
  note a = alloc_block [OF ok(1,2) m1]
  show ?thesis
  proof (cases "r = 0")
    case True
    then have "m' = m1" using r m1 sz p(1) by (simp add: bios_realloc_def bios_malloc_def)
    then show ?thesis using a True by (auto simp: blockStep_def)
  next
    case False
    let ?B = "B(r \<mapsto> unat sz)" and ?k = "min n (unat sz)"
    have rp: "r \<noteq> p" using a ok(3) by auto
    have st: "ok m1" "blocksOk ops granted G ?B m1" "sameAt ops (p, n) m m1" using a False ok(3) by (auto simp: blockStep_def)
    have "headerSize ops m1 (p - 8) = of_nat (n + 8)" using blocksOk_region(1) [OF st(2), of p n] rp ok(3) by (auto simp: headed_def)
    then have "headerSize ops m1 (p - 8) - 8 = of_nat n" by simp
    moreover have "unat (if sz < of_nat n then sz else of_nat n :: u32) = ?k"
      using p(3) by (auto simp: word_less_nat_alt unat_of_nat_less)
    moreover have "m' = (let oldSize = headerSize ops m1 (p - 8) - 8 in
        bios_free ops p (storeBytes ops r (readMem (ramBytes ops m1) p (unat (if sz < oldSize then sz else oldSize))) m1))"
      using r m1 sz p(1) False unfolding bios_realloc_def bios_malloc_def sizeof_Header_def Let_def of_nat_numeral by auto
    ultimately obtain m2 where m2: "m2 = storeBytes ops (r + 0) (readMem (ramBytes ops m1) p ?k) m1" "m' = bios_free ops p m2"
      unfolding Let_def by (simp only:) simp
    have s: "blockStep ops ok granted G {r} ?B m1 ?B m2" "ramBytes ops m2 = writeMem (ramBytes ops m1) r (readMem (ramBytes ops m1) p ?k)"
      using store_block [OF st(1,2) _ _ m2(1), of "unat sz"] by auto
    have f: "blockStep ops ok granted G {p} ?B m2 (?B(p := None)) m'"
      using release_block [OF _ _ _ m2(2), of G ?B n] s(1) rp ok(3) by (auto simp: blockStep_def)
    have "blockStep ops ok granted G {p} B m ?B m1" using a False by (auto simp: blockStep_def)
    moreover have "blockStep ops ok granted G {r, p} ?B m1 (?B(p := None)) m'"
    proof (rule blockStep_trans [OF _ f])
      show "blockStep ops ok granted G {r, p} ?B m1 ?B m2" using s(1) by (auto simp: blockStep_def)
    qed auto
    ultimately have "blockStep ops ok granted G {p} B m (?B(p := None)) m'" by (rule blockStep_trans) (use a in auto)
    moreover have "?B(p := None) = (B(p := None))(r \<mapsto> unat sz)" using rp by (simp add: fun_upd_twist)
    moreover have "readMem (ramBytes ops m') r ?k = readMem (ramBytes ops m) p ?k"
    proof -
      have "sameAt ops (r, unat sz) m2 m'" using f rp by (auto simp: blockStep_def)
      then have "readMem (ramBytes ops m') r ?k = readMem (ramBytes ops m2) r ?k" by (rule sameAt_read) auto
      also have "\<dots> = readMem (ramBytes ops m1) p ?k"
        using readMem_writeMem_same [of _ r "readMem (ramBytes ops m1) p ?k"] by (simp add: s(2))
      also have "\<dots> = readMem (ramBytes ops m) p ?k" by (rule sameAt_read [OF st(3)]) auto
      finally show ?thesis .
    qed
    ultimately show ?thesis using False by simp
  qed
qed

end

section \<open>Sequences of requests\<close>

text \<open>The requests of a program, with the blocks it holds. The sum of alignment and size in \<open>memalign\<close> must not wrap: the code does not
  test it.\<close>

primrec biosServe :: "'m memory_ops \<Rightarrow> request \<Rightarrow> (nat \<rightharpoonup> nat) \<times> 'm \<Rightarrow> nat \<times> (nat \<rightharpoonup> nat) \<times> 'm" where
  "biosServe ops (Malloc sz) = (\<lambda>(B, m). case bios_malloc ops sz m of (p, m) \<Rightarrow> (p, if p = 0 then B else B(p \<mapsto> unat sz), m))"
| "biosServe ops (AlignedAlloc al sz) =
     (\<lambda>(B, m). case bios_memalign ops al sz m of (p, m) \<Rightarrow> (p, if p = 0 then B else B(p \<mapsto> unat sz), m))"
| "biosServe ops (Calloc num sz) =
     (\<lambda>(B, m). case bios_calloc ops num sz m of (p, m) \<Rightarrow> (p, if p = 0 then B else B(p \<mapsto> unat num * unat sz), m))"
| "biosServe ops (Realloc p sz) =
     (\<lambda>(B, m). case bios_realloc ops p sz m of (r, m) \<Rightarrow>
        (r, if r = 0 then (if sz = 0 then B(p := None) else B) else (B(p := None))(r \<mapsto> unat sz), m))"
| "biosServe ops (Free p) = (\<lambda>(B, m). (0, B(p := None), bios_free ops p m))"
| "biosServe ops (Store p i bs) = (\<lambda>(B, m). (0, B, storeBytes ops (p + i) bs m))"

primrec biosProper :: "request \<Rightarrow> (nat \<rightharpoonup> nat) \<Rightarrow> bool" where
  "biosProper (Malloc sz) B = True"
| "biosProper (AlignedAlloc al sz) B = (max 8 (unat al) + unat sz < 2 ^ 32)"
| "biosProper (Calloc num sz) B = True"
| "biosProper (Realloc p sz) B = (p = 0 \<or> p \<in> dom B)"
| "biosProper (Free p) B = (p = 0 \<or> p \<in> dom B)"
| "biosProper (Store p i bs) B = (case B p of None \<Rightarrow> False | Some n \<Rightarrow> i + length bs \<le> n)"

inductive biosRun :: "'m memory_ops \<Rightarrow> 'm \<Rightarrow> (nat \<rightharpoonup> nat) \<Rightarrow> 'm \<Rightarrow> bool" for ops m0 where
  start: "biosRun ops m0 Map.empty m0"
| request: "biosRun ops m0 B m \<Longrightarrow> biosProper r B \<Longrightarrow> biosServe ops r (B, m) = (p, B', m') \<Longrightarrow> biosRun ops m0 B' m'"

context memory_module
begin

lemma serve_block:
  assumes ok: "ok m" "blocksOk ops granted G B m" "biosProper r B" and r: "biosServe ops r (B, m) = (p, B', m')"
  shows "blockStep ops ok granted G (named r) B m B' m'"
proof (cases r)
  case (Malloc sz)
  then show ?thesis using r alloc_block [OF ok(1,2), of sz] by (auto simp: bios_malloc_def split: prod.splits)
next
  case (AlignedAlloc al sz)
  then show ?thesis using r ok(3) memalign_block [OF ok(1,2), of al sz] by (auto split: prod.splits)
next
  case (Calloc num sz)
  then show ?thesis using r calloc_block [OF ok(1,2), of num sz] by (auto split: prod.splits)
next
  case (Realloc q sz)
  have zero: "B 0 = None" using blocksOk_region(1) [OF ok(2), of 0] by (cases "B 0") (auto simp: headed_def)
  consider "q = 0" | "q \<noteq> 0" "sz = 0" | n where "q \<noteq> 0" "sz \<noteq> 0" "B q = Some n" using ok(3) Realloc by auto
  then show ?thesis
  proof cases
    case 1
    have B0: "B(0 := None) = B" using zero by (simp add: fun_upd_idem)
    have "MemAlloc_alloc ops sz m = (p, m')" "B' = (if p = 0 then B else B(p \<mapsto> unat sz))"
      using 1 r Realloc by (auto simp: bios_realloc_def bios_malloc_def B0 split: prod.splits if_splits)
    then have "blockStep ops ok granted G {} B m B' m'" using alloc_block [OF ok(1,2)] by blast
    then show ?thesis by (auto simp: blockStep_def)
  next
    case 2
    then show ?thesis using r Realloc ok(3) free_block [OF ok(1,2), of q] by (auto simp: bios_realloc_def)
  next
    case 3
    then show ?thesis using r Realloc realloc_move [OF ok(1,2), of q n sz] by (auto split: prod.splits)
  qed
next
  case (Free q)
  then show ?thesis using r ok(3) free_block [OF ok(1,2), of q] by auto
next
  case (Store q i bs)
  then obtain n where "B q = Some n" "i + length bs \<le> n" using ok(3) by (auto split: option.splits)
  then show ?thesis using r Store store_block(1) [OF ok(1,2) _ _ refl] by auto
qed

lemma run_blocks:
  assumes "ok m0" "biosRun ops m0 B m"
  shows "ok m \<and> blocksOk ops granted (granted m0) B m \<and> (\<forall>x \<in> granted m0. sameAt ops x m0 m)"
  using assms(2)
proof induction
  case start
  then show ?case using assms(1) by (simp add: blocksOk_def sameAt_def)
next
  case (request B m r p B' m')
  then show ?case using serve_block [of m "granted m0" B r p B' m'] by (auto simp: blockStep_def intro: sameAt_trans)
qed

lemma blocks_apart:
  assumes "ok m" "blocksOk ops granted G B m" "B p = Some n" "B q = Some k" "p \<noteq> q"
  shows "p + n + 8 \<le> q \<or> q + k + 8 \<le> p"
proof -
  note P = blocksOk_region [OF assms(2,3)] and Q = blocksOk_region [OF assms(2,4)]
  have "region ops m p n \<noteq> region ops m q k" using assms(2-5) unfolding blocksOk_def by blast
  then show ?thesis
    using apart_law [OF assms(1), of "fst (region ops m p n)" "snd (region ops m p n)" "fst (region ops m q k)" "snd (region ops m q k)"]
      P(2) Q(2) region_range [OF P(1)] region_range [OF Q(1)] by auto
qed

end

section \<open>The module on the allocator of the run-time library\<close>

text \<open>The contract is not empty: the allocator of the run-time library meets it, with a ledger of the sizes it was asked for, since the module's
  \<open>Memory_free\<close> is told the size of the region.\<close>

type_synonym ledger_heap = "rts_heap \<times> (nat \<rightharpoonup> u32)"

definition ledgerOps :: "ledger_heap memory_ops" where
  "ledgerOps = \<lparr>
     Memory_alloc = (\<lambda>sz al (h, g). case aligned_alloc al sz h of
        Some (p, h') \<Rightarrow> (p, h', if p = 0 then g else g(p \<mapsto> sz)) | None \<Rightarrow> (0, h, g)),
     Memory_free = (\<lambda>p sz (h, g). case free p h of Some h' \<Rightarrow> (h', g(p := None)) | None \<Rightarrow> (h, g)),
     ramBytes = (\<lambda>(h, g). hmem h),
     storeBytes = (\<lambda>a bs (h, g). (h\<lparr>hmem := writeMem (hmem h) a bs\<rparr>, g))\<rparr>"

definition ledgerOk :: "ledger_heap \<Rightarrow> bool" where
  "ledgerOk = (\<lambda>(h, g). heapOk h \<and> dom g = fst ` live h \<and>
     (\<forall>p s. g p = Some s \<longrightarrow> 0 < unat s \<and> (\<exists>c. (p, c) \<in> live h \<and> unat s \<le> c)))"

definition ledgerGranted :: "ledger_heap \<Rightarrow> (nat \<times> nat) set" where
  "ledgerGranted = (\<lambda>(h, g). {(p, unat s) | p s. g p = Some s})"

lemma ledger_live:
  assumes "ledgerOk (h, g)" "(p, n) \<in> ledgerGranted (h, g)"
  shows "\<exists>c. (p, c) \<in> live h \<and> n \<le> c \<and> 0 < n" "heapOk h"
  using assms by (auto simp: ledgerOk_def ledgerGranted_def)

lemma keeps_sameAt:
  assumes "keeps L h h'" "(q, c) \<in> L" "k \<le> c"
  shows "sameAt ledgerOps (q, k) (h, g) (h', g')"
proof -
  have e: "readMem (hmem h') q c = readMem (hmem h) q c" using assms(1,2) by (auto simp: keeps_def)
  have "hmem h' a = hmem h a" if "q \<le> a" "a < q + k" for a
    using arg_cong [OF e, of "\<lambda>xs. xs ! (a - q)"] that assms(3) by (simp add: nth_readMem)
  then show ?thesis by (auto simp: sameAt_def ledgerOps_def)
qed

lemma effAlign_power2: "8 \<le> al \<Longrightarrow> al AND (al - 1) = 0 \<Longrightarrow> effAlign al = al"
  by (auto simp: effAlign_def)

lemma ledger_alloc:
  assumes ok: "ledgerOk (h, g)" and sz: "sz \<noteq> 0" and r: "Memory_alloc ledgerOps sz al (h, g) = (p, h', g')"
  shows "ledgerOk (h', g') \<and> (\<forall>x \<in> ledgerGranted (h, g). sameAt ledgerOps x (h, g) (h', g')) \<and>
    (if p = 0 then ledgerGranted (h', g') = ledgerGranted (h, g)
     else ledgerGranted (h', g') = insert (p, unat sz) (ledgerGranted (h, g)) \<and> p \<notin> fst ` ledgerGranted (h, g) \<and> 8 dvd p \<and>
       (8 \<le> al \<and> al AND (al - 1) = 0 \<longrightarrow> unat al dvd p))"
proof -
  have h: "heapOk h" and dom_g: "dom g = fst ` live h" using ok by (auto simp: ledgerOk_def)
  obtain p1 h1 where a: "aligned_alloc al sz h = Some (p1, h1)" "heapOk h1" "keeps (live h) h h1"
    and c: "if p1 = 0 then packets h1 = packets h
       else unat sz \<le> unat (roundSize sz) \<and> allocates h (unat (roundSize sz)) p1 h1 \<and> unat (effAlign al) dvd p1"
    using aligned_alloc_ok [OF h, of al sz] by (auto split: if_splits)
  have e: "p1 = p" "h1 = h'" "g' = (if p = 0 then g else g(p \<mapsto> sz))" using r a(1) by (auto simp: ledgerOps_def)
  have same: "sameAt ledgerOps x (h, g) (h', g')" if "x \<in> ledgerGranted (h, g)" for x
  proof -
    obtain c where "(fst x, c) \<in> live h" "snd x \<le> c" using ledger_live(1) [OF ok, of "fst x" "snd x"] \<open>x \<in> _\<close> by auto
    then show ?thesis using keeps_sameAt [of "live h" h h' "fst x" c "snd x" g g'] a(3) e(2) by simp
  qed
  show ?thesis
  proof (cases "p = 0")
    case True
    then have "live h' = live h" using c e by (simp add: live_def)
    then show ?thesis using True same ok a(2) e by (simp add: ledgerOk_def ledgerGranted_def)
  next
    case False
    then obtain c where c': "unat sz \<le> c" "p \<notin> fst ` live h" "live h' = insert (p, c) (live h)" "8 dvd p" "unat (effAlign al) dvd p"
      using c e(1,2) by (auto simp: allocates_def intro: order_trans)
    then have new: "g p = None" using dom_g by auto
    then have g: "ledgerGranted (h', g') = insert (p, unat sz) (ledgerGranted (h, g))"
    proof -
      have "(g(p \<mapsto> sz)) q = Some s \<longleftrightarrow> q = p \<and> s = sz \<or> g q = Some s" for q s using new by auto
      then show ?thesis using False e(3) by (auto simp: ledgerGranted_def simp del: fun_upd_apply)
    qed
    have "ledgerOk (h', g')"
      using ok a(2) e False c'(1,3) sz new unfolding ledgerOk_def by (auto simp: unat_gt_0 dom_g intro: exI [of _ c])
    moreover have "p \<notin> fst ` ledgerGranted (h, g)" using new by (auto simp: ledgerGranted_def)
    moreover have "8 \<le> al \<and> al AND (al - 1) = 0 \<longrightarrow> unat al dvd p" using c'(5) effAlign_power2 [of al] by auto
    ultimately show ?thesis using False same g c'(4) by simp
  qed
qed

lemma ledger_free:
  assumes ok: "ledgerOk (h, g)" "(p, unat sz) \<in> ledgerGranted (h, g)" and r: "(h', g') = Memory_free ledgerOps p sz (h, g)"
  shows "ledgerOk (h', g') \<and> ledgerGranted (h', g') = ledgerGranted (h, g) - {(p, unat sz)} \<and>
    (\<forall>x \<in> ledgerGranted (h', g'). sameAt ledgerOps x (h, g) (h', g'))"
proof -
  have h: "heapOk h" and dom_g: "dom g = fst ` live h" using ok by (auto simp: ledgerOk_def)
  have gp: "g p = Some sz" using ok(2) by (auto simp: ledgerGranted_def word_unat_eq_iff)
  obtain c where c: "(p, c) \<in> live h" using ledger_live(1) [OF ok] by blast
  obtain h1 where f: "free p h = Some h1" "heapOk h1" "live h1 = live h - {(p, c)}" "keeps (live h - {(p, c)}) h h1"
    using free_ok [OF h c] by blast
  have e: "h1 = h'" "g' = g(p := None)" using r f(1) by (simp_all add: ledgerOps_def)
  have only: "d = c" if "(p, d) \<in> live h" for d using live_size(1) [OF h] c that by metis
  have live': "fst ` live h' = fst ` live h - {p}"
  proof (rule set_eqI)
    fix q
    show "q \<in> fst ` live h' \<longleftrightarrow> q \<in> fst ` live h - {p}"
      using only f(3) unfolding e(1) by (cases "q = p") (auto simp: image_iff Bex_def)
  qed
  have gr: "ledgerGranted (h', g') = ledgerGranted (h, g) - {(p, unat sz)}"
  proof (rule set_eqI)
    fix x
    show "x \<in> ledgerGranted (h', g') \<longleftrightarrow> x \<in> ledgerGranted (h, g) - {(p, unat sz)}"
      using gp by (cases "fst x = p") (auto simp: ledgerGranted_def e(2))
  qed
  have "ledgerOk (h', g')"
    using ok(1) f(2,3) e live' unfolding ledgerOk_def by (auto split: if_splits)
  moreover have "sameAt ledgerOps x (h, g) (h', g')" if "x \<in> ledgerGranted (h', g')" for x
  proof -
    have x: "fst x \<noteq> p" "x \<in> ledgerGranted (h, g)" using that gr gp by (auto simp: ledgerGranted_def e(2) split: if_splits)
    then obtain d where "(fst x, d) \<in> live h" "snd x \<le> d" using ledger_live(1) [OF ok(1), of "fst x" "snd x"] by auto
    then show ?thesis using keeps_sameAt [OF f(4), of "fst x" d "snd x" g g'] x(1) e(1) by auto
  qed
  ultimately show ?thesis using gr by blast
qed

lemma ledger_apart:
  assumes "ledgerOk (h, g)" "(p, n) \<in> ledgerGranted (h, g)" "(q, k) \<in> ledgerGranted (h, g)"
  shows "(p, n) = (q, k) \<or> p + n \<le> q \<or> q + k \<le> p"
proof -
  obtain c d where "(p, c) \<in> live h" "n \<le> c" "(q, d) \<in> live h" "k \<le> d" "heapOk h"
    using ledger_live [OF assms(1)] assms(2,3) by meson
  then show ?thesis using live_apart [of h p c q d] assms(2,3) by (auto simp: ledgerGranted_def)
qed

interpretation ledger: memory_module ledgerOps ledgerOk ledgerGranted
proof unfold_locales
  fix m m' :: ledger_heap and sz al p
  assume "ledgerOk m" "sz \<noteq> 0" "Memory_alloc ledgerOps sz al m = (p, m')"
  then show "ledgerOk m' \<and> (\<forall>r \<in> ledgerGranted m. sameAt ledgerOps r m m') \<and>
      (if p = 0 then ledgerGranted m' = ledgerGranted m
       else ledgerGranted m' = insert (p, unat sz) (ledgerGranted m) \<and> p \<notin> fst ` ledgerGranted m \<and> 8 dvd p \<and>
         (8 \<le> al \<and> al AND (al - 1) = 0 \<longrightarrow> unat al dvd p))"
    using ledger_alloc [of "fst m" "snd m" sz al p "fst m'" "snd m'", unfolded prod.collapse] by blast
next
  fix m m' :: ledger_heap and sz p
  assume "ledgerOk m" "(p, unat sz) \<in> ledgerGranted m" "m' = Memory_free ledgerOps p sz m"
  then show "ledgerOk m' \<and> ledgerGranted m' = ledgerGranted m - {(p, unat sz)} \<and> (\<forall>r \<in> ledgerGranted m'. sameAt ledgerOps r m m')"
    using ledger_free [of "fst m" "snd m" p sz "fst m'" "snd m'", unfolded prod.collapse] by blast
next
  fix m :: ledger_heap and p n a and bs :: "u8 list"
  assume a: "ledgerOk m" "(p, n) \<in> ledgerGranted m" "p \<le> a" "a + length bs \<le> p + n"
  obtain h g where m: "m = (h, g)" by (cases m)
  obtain c where c: "(p, c) \<in> live h" "n \<le> c" "heapOk h" using ledger_live a(1,2) unfolding m by meson
  let ?h = "h\<lparr>hmem := writeMem (hmem h) (p + (a - p)) bs\<rparr>"
  have "(a - p) + length bs \<le> c" using a(3,4) c(2) by linarith
  from store_ok [OF c(3,1) this refl] have "heapOk ?h" "live ?h = live h" by simp_all
  then show "ledgerOk (storeBytes ledgerOps a bs m) \<and> ledgerGranted (storeBytes ledgerOps a bs m) = ledgerGranted m \<and>
      ramBytes ledgerOps (storeBytes ledgerOps a bs m) = writeMem (ramBytes ledgerOps m) a bs"
    using a(1,3) by (simp add: ledgerOps_def ledgerOk_def ledgerGranted_def m)
next
  fix m :: ledger_heap and p n q k
  assume "ledgerOk m" "(p, n) \<in> ledgerGranted m" "(q, k) \<in> ledgerGranted m"
  then show "(p, n) = (q, k) \<or> p + n \<le> q \<or> q + k \<le> p" using ledger_apart [of "fst m" "snd m"] by simp
next
  fix m :: ledger_heap and p n
  assume a: "ledgerOk m" "(p, n) \<in> ledgerGranted m"
  obtain h g where m: "m = (h, g)" by (cases m)
  obtain c where c: "(p, c) \<in> live h" "n \<le> c" "heapOk h" using ledger_live a unfolding m by meson
  have "regionOk h" using c(3) by (simp add: heapOk_def heapInv_def split: if_splits)
  then show "0 < p \<and> p + n \<le> 2 ^ 32" using live_bounds [OF c(3,1)] c(2) by (auto simp: regionOk_def)
qed

section \<open>Properties\<close>

text \<open>The test that \<open>memalign\<close> does not make: for a size near \<open>2 ^ 32\<close> the sum wraps, the module is asked for a few bytes, and the header is
  written and a block returned as if the request had been met.\<close>

lemma memalign_wraps:
  "bios_memalign ops 8 0xFFFFFFFC m =
     (case Memory_alloc ops 4 8 m of (tmp, m) \<Rightarrow> if tmp = 0 then (0, m) else (tmp + 8, setHeader ops tmp tmp 4 m))"
proof -
  have wrap: "(4294967300 :: u32) = 4" by (simp add: word_eq_iff_unsigned)
  show ?thesis unfolding bios_memalign_def sizeof_Header_def Let_def by (cases "Memory_alloc ops 4 8 m") (simp add: wrap)
qed

text \<open>C30. On any \<open>Memory\<close> module that keeps its contract, the C heap of the RTOS image is sound after every sequence of requests, starting with
  no block. Blocks in use, with their headers, never overlap; the regions held at the module are those of the other clients and
  exactly one for each block, which contains it, so that nothing is lost or given back twice; the other clients' bytes are unchanged. A
  further request changes no block that it does not name, \<open>calloc\<close> returns the full product of its arguments in zero bytes, \<open>memalign\<close>
  a multiple of the alignment, and \<open>realloc\<close> keeps the contents up to the smaller size.\<close>

theorem bios_heap_sound:
  assumes "memory_module ops ok granted" "ok m0" "biosRun ops m0 B m"
  shows "(\<forall>p n q k. B p = Some n \<longrightarrow> B q = Some k \<longrightarrow> p = q \<or> p + n + 8 \<le> q \<or> q + k + 8 \<le> p) \<and>
    granted m = granted m0 \<union> {region ops m p n | p n. B p = Some n} \<and>
    (\<forall>p n. B p = Some n \<longrightarrow> region ops m p n \<notin> granted m0 \<and>
       fst (region ops m p n) + 8 \<le> p \<and> fst (region ops m p n) + snd (region ops m p n) = p + n) \<and>
    (\<forall>x \<in> granted m0. sameAt ops x m0 m) \<and>
    (\<forall>r p B' m'. biosProper r B \<longrightarrow> biosServe ops r (B, m) = (p, B', m') \<longrightarrow>
       (\<forall>q k. B q = Some k \<and> q \<notin> named r \<longrightarrow> B' q = Some k \<and> sameAt ops (q, k) m m')) \<and>
    (\<forall>num sz p m'. bios_calloc ops num sz m = (p, m') \<longrightarrow> p \<noteq> 0 \<longrightarrow>
       readMem (ramBytes ops m') p (unat num * unat sz) = replicate (unat num * unat sz) 0) \<and>
    (\<forall>al sz p m'. bios_memalign ops al sz m = (p, m') \<longrightarrow> max 8 (unat al) + unat sz < 2 ^ 32 \<longrightarrow> max 8 (unat al) dvd p) \<and>
    (\<forall>p n sz r m'. B p = Some n \<longrightarrow> sz \<noteq> 0 \<longrightarrow> bios_realloc ops p sz m = (r, m') \<longrightarrow> r \<noteq> 0 \<longrightarrow>
       readMem (ramBytes ops m') r (min n (unat sz)) = readMem (ramBytes ops m) p (min n (unat sz)))"
proof -
  note M = assms(1)
  have i: "ok m" "blocksOk ops granted (granted m0) B m" "\<forall>x \<in> granted m0. sameAt ops x m0 m"
    using memory_module.run_blocks [OF M assms(2,3)] by auto
  have gr: "granted m = granted m0 \<union> {region ops m p n | p n. B p = Some n}" using i(2) by (simp add: blocksOk_def)
  have "region ops m p n \<notin> granted m0 \<and>
       fst (region ops m p n) + 8 \<le> p \<and> fst (region ops m p n) + snd (region ops m p n) = p + n" if "B p = Some n" for p n
    using blocksOk_region [OF i(2) that] region_range [of ops m p n] by simp
  then have reg: "\<forall>p n. B p = Some n \<longrightarrow> region ops m p n \<notin> granted m0 \<and>
       fst (region ops m p n) + 8 \<le> p \<and> fst (region ops m p n) + snd (region ops m p n) = p + n" by simp
  have apart: "\<forall>p n q k. B p = Some n \<longrightarrow> B q = Some k \<longrightarrow> p = q \<or> p + n + 8 \<le> q \<or> q + k + 8 \<le> p"
    using memory_module.blocks_apart [OF M i(1,2)] by blast
  have others: "\<forall>r p B' m'. biosProper r B \<longrightarrow> biosServe ops r (B, m) = (p, B', m') \<longrightarrow>
       (\<forall>q k. B q = Some k \<and> q \<notin> named r \<longrightarrow> B' q = Some k \<and> sameAt ops (q, k) m m')"
    using memory_module.serve_block [OF M i(1,2)] unfolding blockStep_def by blast
  have zero: "\<forall>num sz p m'. bios_calloc ops num sz m = (p, m') \<longrightarrow> p \<noteq> 0 \<longrightarrow>
       readMem (ramBytes ops m') p (unat num * unat sz) = replicate (unat num * unat sz) 0"
    using memory_module.calloc_block [OF M i(1,2)] by blast
  have "max 8 (unat al) dvd p" if "bios_memalign ops al sz m = (p, m')" "max 8 (unat al) + unat sz < 2 ^ 32" for al sz p m'
    using memory_module.memalign_block [OF M i(1,2) that] by (cases "p = 0") auto
  then have align: "\<forall>al sz p m'. bios_memalign ops al sz m = (p, m') \<longrightarrow> max 8 (unat al) + unat sz < 2 ^ 32 \<longrightarrow> max 8 (unat al) dvd p"
    by blast
  have copy: "\<forall>p n sz r m'. B p = Some n \<longrightarrow> sz \<noteq> 0 \<longrightarrow> bios_realloc ops p sz m = (r, m') \<longrightarrow> r \<noteq> 0 \<longrightarrow>
       readMem (ramBytes ops m') r (min n (unat sz)) = readMem (ramBytes ops m) p (min n (unat sz))"
    using memory_module.realloc_move [OF M i(1,2)] by blast
  show ?thesis using apart gr reg i(3) others zero align copy by (intro conjI)
qed

lemma demoLedger_malloc:
  "\<exists>b h g. Memory_alloc ledgerOps 18 0 (demoHeap, Map.empty) = (b, h, g) \<and> b \<noteq> 0"
proof -
  have r: "unat (roundSize 18) = 24" using roundSize_nat [of 18] by simp
  obtain p h where a: "aligned_alloc 0 18 demoHeap = Some (p, h)"
    and z: "p = 0 \<longrightarrow> (18 :: u32) = 0 \<or> heap_size demoHeap < unat (18 :: u32) \<or>
       (\<forall>x \<in> freesOf (packets demoHeap). \<not> fits (unat (effAlign 0)) (unat (roundSize 18)) x)"
    using aligned_alloc_ok [OF demoHeap_ok(3), of 0 18] by (auto split: if_splits)
  have "p \<noteq> 0"
    using z by (auto simp: r demoHeap_def packets_def heap_size_def packet_consts effAlign_def fits_def startOf_def roundUp_def)
  then show ?thesis using a by (simp add: ledgerOps_def)
qed

theorem bios_heap_sound_witness:
  "\<exists>p B m. p \<noteq> 0 \<and> biosRun ledgerOps (demoHeap, Map.empty) B m \<and> B p = Some 10 \<and>
    ledgerGranted m = {region ledgerOps m q n | q n. B q = Some n}"
proof -
  have live: "live demoHeap = {}" by (simp add: live_def packets_def demoHeap_def)
  have ok: "ledgerOk (demoHeap, Map.empty)" using demoHeap_ok(3) by (simp add: ledgerOk_def live)
  obtain b h g where b: "Memory_alloc ledgerOps 18 0 (demoHeap, Map.empty) = (b, h, g)" "b \<noteq> 0" using demoLedger_malloc by blast
  obtain m where s: "biosServe ledgerOps (Malloc 10) (Map.empty, demoHeap, Map.empty) = (b + 8, [b + 8 \<mapsto> 10], m)"
    using b by (simp add: bios_malloc_def MemAlloc_alloc_def sizeof_Header_def)
  have run: "biosRun ledgerOps (demoHeap, Map.empty) [b + 8 \<mapsto> 10] m"
    by (rule biosRun.request [OF biosRun.start _ s]) simp
  have "ledgerGranted (demoHeap, Map.empty) = {}" by (simp add: ledgerGranted_def)
  then have "ledgerGranted m = {region ledgerOps m q n | q n. [b + 8 \<mapsto> 10] q = Some n}"
    using bios_heap_sound [OF ledger.memory_module_axioms ok run] by simp
  then show ?thesis using run by (intro exI [of _ "b + 8"] exI [of _ "[b + 8 \<mapsto> 10]"] exI [of _ m]) simp
qed

end
