(* ===== verification/Crc.thy ===== *)
theory Crc
  imports Prelude
begin

text \<open>
  The checksums of \<open>bootloader.c\<close>: the reflected CRC-32 that protects package headers,
  application images and metadata records, and the CRC-16/CCITT-FALSE that protects protocol
  frames. One bit step, one byte step and the loop over the data are separate definitions, in
  the order of the nested loops of the code. The lemmas show that each bit step is a linear
  bijection of the checksum register, so that the checksum of a message determines the content of any
  window of four (two) bytes once the rest of the message is known: every corruption confined to
  such a window is detected.
\<close>

section \<open>CRC-32\<close>

definition crc32_bit :: "u32 \<Rightarrow> u32" where
  "crc32_bit crc = drop_bit 1 crc XOR (if crc AND 1 \<noteq> 0 then 0xEDB88320 else 0)"

definition crc32_byte :: "u32 \<Rightarrow> u8 \<Rightarrow> u32" where
  "crc32_byte crc b = (crc32_bit ^^ 8) (crc XOR ucast b)"

definition calculateCrc32 :: "u8 list \<Rightarrow> u32" where
  "calculateCrc32 bytes = NOT (foldl crc32_byte (NOT 0) bytes)"

section \<open>CRC-16\<close>

definition crc16_bit :: "u16 \<Rightarrow> u16" where
  "crc16_bit crc = (if crc AND 0x8000 \<noteq> 0 then push_bit 1 crc XOR 0x1021 else push_bit 1 crc)"

definition crc16_byte :: "u16 \<Rightarrow> u8 \<Rightarrow> u16" where
  "crc16_byte crc b = (crc16_bit ^^ 8) (crc XOR push_bit 8 (ucast b))"

definition calculateCrc16 :: "u8 list \<Rightarrow> u16" where
  "calculateCrc16 data = foldl crc16_byte 0xFFFF data"

section \<open>Evaluation on concrete data\<close>

lemma crc32_bit_eval [crc_eval]:
  "crc32_bit 0 = 0"
  "crc32_bit 1 = 0xEDB88320"
  "crc32_bit (numeral n) =
     (if (numeral n :: u32) AND 1 \<noteq> 0 then drop_bit 1 (numeral n) XOR 0xEDB88320
      else drop_bit 1 (numeral n))"
  "crc32_bit (- numeral n) =
     (if (- numeral n :: u32) AND 1 \<noteq> 0 then drop_bit 1 (- numeral n) XOR 0xEDB88320
      else drop_bit 1 (- numeral n))"
  "crc32_bit (- 1) = drop_bit 1 (- 1) XOR 0xEDB88320"
  by (simp_all add: crc32_bit_def)

lemma crc32_byte_eval [crc_eval]:
  "crc32_byte crc b = crc32_bit (crc32_bit (crc32_bit (crc32_bit
     (crc32_bit (crc32_bit (crc32_bit (crc32_bit (crc XOR ucast b))))))))"
  by (simp add: crc32_byte_def eval_nat_numeral)

lemma crc16_bit_eval [crc_eval]:
  "crc16_bit 0 = 0"
  "crc16_bit 1 = 2"
  "crc16_bit (numeral n) =
     (if (numeral n :: u16) AND 0x8000 \<noteq> 0 then push_bit 1 (numeral n) XOR 0x1021
      else push_bit 1 (numeral n))"
  by (simp_all add: crc16_bit_def)

lemma crc16_byte_eval [crc_eval]:
  "crc16_byte crc b = crc16_bit (crc16_bit (crc16_bit (crc16_bit
     (crc16_bit (crc16_bit (crc16_bit (crc16_bit (crc XOR push_bit 8 (ucast b)))))))))"
  by (simp add: crc16_byte_def eval_nat_numeral)

lemmas crc_defs_eval [crc_eval] = calculateCrc32_def calculateCrc16_def

text \<open>The check values of the two standard checksums (the ASCII digits 1 to 9).\<close>

lemma calculateCrc32_check:
  "calculateCrc32 [0x31, 0x32, 0x33, 0x34, 0x35, 0x36, 0x37, 0x38, 0x39] = 0xCBF43926"
  by (simp add: crc_eval)

lemma calculateCrc16_check:
  "calculateCrc16 [0x31, 0x32, 0x33, 0x34, 0x35, 0x36, 0x37, 0x38, 0x39] = 0x29B1"
  by (simp add: crc_eval)

section \<open>Linearity and injectivity of the bit steps\<close>

lemma crc32_bit_alt: "crc32_bit crc = drop_bit 1 crc XOR (if bit crc 0 then 0xEDB88320 else 0)"
  by (simp add: crc32_bit_def and_one_eq odd_iff_mod_2_eq_one bit_0)

lemma crc16_top_bit: "crc AND 0x8000 \<noteq> 0 \<longleftrightarrow> bit (crc :: u16) 15"
proof -
  have "(0x8000 :: u16) = push_bit 15 1" by simp
  then show ?thesis
    by (simp only: bit_iff_and_push_bit_not_eq_0)
qed

lemma crc32_bit_xor: "crc32_bit (x XOR y) = crc32_bit x XOR crc32_bit y"
  by (rule bit_word_eqI) (auto simp: crc32_bit_alt bit_simps)

lemma crc32_bit_inj: "crc32_bit x = crc32_bit y \<longleftrightarrow> x = y"
proof
  assume eq: "crc32_bit x = crc32_bit y"
  have top: "bit (crc32_bit z) 31 = bit z 0" for z
    using bit_imp_le_length [of z 32] by (auto simp: crc32_bit_alt bit_simps)
  have b0: "bit x 0 = bit y 0" using eq top by metis
  then have "drop_bit 1 x = drop_bit 1 y" using eq by (simp add: crc32_bit_alt)
  then have "\<And>n. bit x (Suc n) = bit y (Suc n)" by (metis bit_drop_bit_eq plus_1_eq_Suc comp_apply)
  then show "x = y" using b0 by (auto intro!: bit_word_eqI) (metis not0_implies_Suc)+
qed simp

lemma crc16_bit_alt: "crc16_bit crc = push_bit 1 crc XOR (if bit crc 15 then 0x1021 else 0)"
  by (simp add: crc16_bit_def crc16_top_bit)

lemma crc16_bit_xor: "crc16_bit (x XOR y) = crc16_bit x XOR crc16_bit y"
  by (rule bit_word_eqI) (auto simp: crc16_bit_alt bit_simps)

lemma crc16_bit_inj: "crc16_bit x = crc16_bit y \<longleftrightarrow> x = y"
proof
  assume eq: "crc16_bit x = crc16_bit y"
  have low: "bit (crc16_bit z) 0 = bit z 15" for z
    by (auto simp: crc16_bit_alt bit_xor_iff bit_push_bit_iff simp del: push_bit_Suc push_bit_numeral)
  have b15: "bit x 15 = bit y 15" using eq low by metis
  then have sh: "push_bit 1 x = push_bit 1 y" using eq by (simp add: crc16_bit_alt)
  show "x = y"
  proof (rule bit_word_eqI)
    fix n assume n: "n < LENGTH(16)"
    show "bit x n = bit y n"
    proof (cases "n = 15")
      case False
      with n have "Suc n < 16" by simp
      with arg_cong [OF sh, of "\<lambda>w. bit w (Suc n)"] show ?thesis
        by (simp add: bit_push_bit_iff del: push_bit_Suc push_bit_numeral)
    qed (simp add: b15)
  qed
qed simp

lemma crc32_bits_xor: "(crc32_bit ^^ n) (x XOR y) = (crc32_bit ^^ n) x XOR (crc32_bit ^^ n) y"
  by (induction n) (simp_all add: crc32_bit_xor)

lemma crc32_bits_inj: "(crc32_bit ^^ n) x = (crc32_bit ^^ n) y \<longleftrightarrow> x = y"
  by (induction n) (simp_all add: crc32_bit_inj)

lemma crc16_bits_xor: "(crc16_bit ^^ n) (x XOR y) = (crc16_bit ^^ n) x XOR (crc16_bit ^^ n) y"
  by (induction n) (simp_all add: crc16_bit_xor)

lemma crc16_bits_inj: "(crc16_bit ^^ n) x = (crc16_bit ^^ n) y \<longleftrightarrow> x = y"
  by (induction n) (simp_all add: crc16_bit_inj)

lemma crc32_fold_inj: "foldl crc32_byte a ys = foldl crc32_byte b ys \<longleftrightarrow> a = b"
  by (induction ys arbitrary: a b) (simp_all add: crc32_byte_def crc32_bits_inj)

lemma crc16_fold_inj: "foldl crc16_byte a ys = foldl crc16_byte b ys \<longleftrightarrow> a = b"
  by (induction ys arbitrary: a b) (simp_all add: crc16_byte_def crc16_bits_inj)

section \<open>Windows of bytes\<close>

text \<open>A run of bytes enters the CRC-32 register as one little-endian number.\<close>

primrec leWord :: "u8 list \<Rightarrow> u32" where
  "leWord [] = 0"
| "leWord (b # bs) = ucast b XOR push_bit 8 (leWord bs)"

lemma leWord_high: "length bs \<le> 4 \<Longrightarrow> 8 * length bs \<le> n \<Longrightarrow> \<not> bit (leWord bs) n"
proof (induction bs arbitrary: n)
  case (Cons b bs)
  then have "8 \<le> n" "8 * length bs \<le> n - 8" by auto
  with Cons show ?case by (simp add: bit_simps)
qed simp

lemma crc32_bits_push:
  "k \<le> 32 \<Longrightarrow> (\<And>i. 32 - k \<le> i \<Longrightarrow> \<not> bit z i) \<Longrightarrow> (crc32_bit ^^ k) (push_bit k z) = z"
proof (induction k)
  case (Suc k)
  have "crc32_bit (push_bit (Suc k) z) = push_bit k z"
  proof (rule bit_word_eqI)
    fix n assume "n < LENGTH(32)"
    moreover from this have "bit z (n - k) \<Longrightarrow> k \<le> n \<Longrightarrow> n < 31"
      using Suc.prems(2) [of "n - k"] by fastforce
    ultimately show "bit (crc32_bit (push_bit (Suc k) z)) n = bit (push_bit k z) n"
      by (auto simp: crc32_bit_alt bit_simps not_less Suc_diff_le simp del: push_bit_Suc)
  qed
  moreover have "(crc32_bit ^^ k) (push_bit k z) = z"
    using Suc by simp
  ultimately show ?case by (simp only: funpow_Suc_right o_apply)
qed simp

lemma crc32_fold_window:
  "length bs \<le> 4 \<Longrightarrow> foldl crc32_byte c bs = (crc32_bit ^^ (8 * length bs)) (c XOR leWord bs)"
proof (induction bs arbitrary: c)
  case (Cons b bs)
  have "leWord bs = (crc32_bit ^^ 8) (push_bit 8 (leWord bs))"
    using Cons.prems by (intro crc32_bits_push [symmetric]) (auto simp: leWord_high)
  then have "crc32_byte c b XOR leWord bs =
      (crc32_bit ^^ 8) (c XOR ucast b) XOR (crc32_bit ^^ 8) (push_bit 8 (leWord bs))"
    by (simp add: crc32_byte_def)
  also have "\<dots> = (crc32_bit ^^ 8) (c XOR leWord (b # bs))"
    by (simp only: crc32_bits_xor [symmetric] leWord.simps xor.assoc)
  finally show ?case
    using Cons by (simp add: funpow_add [of "8 * length bs" 8, simplified add.commute])
qed simp

lemma leWord_inj:
  "length u = length v \<Longrightarrow> length u \<le> 4 \<Longrightarrow> leWord u = leWord v \<Longrightarrow> u = v"
proof (induction u v rule: list_induct2)
  case (Cons a u b v)
  have low: "ucast (leWord (c # w)) = c" for c :: u8 and w
    by (rule bit_word_eqI) (auto simp: bit_simps)
  have ab: "a = b" using low [of a u] low [of b v] Cons.prems(2) by simp
  then have "push_bit 8 (leWord u) = push_bit 8 (leWord v)" using Cons.prems(2) by simp
  moreover have undo: "(crc32_bit ^^ 8) (push_bit 8 (leWord w)) = leWord w" if "length w \<le> 3" for w
    using that by (intro crc32_bits_push) (auto simp: leWord_high)
  moreover have "length u \<le> 3" "length v \<le> 3"
    using Cons.prems(1) Cons.hyps by simp_all
  ultimately have "leWord u = leWord v" by metis
  with Cons ab show ?case by simp
qed simp


lemma crc16_bits_small:
  "k \<le> 16 \<Longrightarrow> (\<And>i. 16 - k \<le> i \<Longrightarrow> \<not> bit z i) \<Longrightarrow> (crc16_bit ^^ k) z = push_bit k z"
proof (induction k)
  case (Suc k)
  have "(crc16_bit ^^ k) z = push_bit k z" using Suc by simp
  moreover have "\<not> bit (push_bit k z) 15"
    using Suc.prems by (auto simp: bit_simps)
  ultimately show ?case by (simp add: crc16_bit_alt [of "push_bit k z"] push_bit_double mult.commute)
qed simp

lemma crc16_fold_two:
  "foldl crc16_byte c [a, b] = (crc16_bit ^^ 16) (c XOR push_bit 8 (ucast a) XOR ucast b)"
proof -
  have "push_bit 8 (ucast b) = (crc16_bit ^^ 8) (ucast b)"
    by (intro crc16_bits_small [symmetric]) (auto simp: bit_simps)
  then have "foldl crc16_byte c [a, b] =
      (crc16_bit ^^ 8) ((crc16_bit ^^ 8) (c XOR push_bit 8 (ucast a) XOR ucast b))"
    by (simp add: crc16_byte_def crc16_bits_xor xor.assoc)
  then show ?thesis by (simp add: funpow_add [of 8 8, simplified])
qed

text \<open>
  \<^bold>\<open>Error detection.\<close> Two messages that agree outside a window of at most four bytes
  (two bytes for the CRC-16) and differ inside it have different checksums.
\<close>

lemma calculateCrc32_window:
  assumes "length u = length v" "length u \<le> 4" "u \<noteq> v"
  shows "calculateCrc32 (xs @ u @ ys) \<noteq> calculateCrc32 (xs @ v @ ys)"
proof
  assume "calculateCrc32 (xs @ u @ ys) = calculateCrc32 (xs @ v @ ys)"
  then have "foldl crc32_byte (foldl crc32_byte (NOT 0) xs) u =
      foldl crc32_byte (foldl crc32_byte (NOT 0) xs) v"
    by (simp add: calculateCrc32_def crc32_fold_inj)
  with assms have "leWord u = leWord v"
    by (simp add: crc32_fold_window crc32_bits_inj)
  with assms leWord_inj show False by blast
qed

lemma crc16_two_inj:
  fixes a b a' b' :: u8
  assumes "c XOR push_bit 8 (ucast a) XOR ucast b =
           (c :: u16) XOR push_bit 8 (ucast a') XOR ucast b'"
  shows "a = a' \<and> b = b'"
proof -
  let ?w = "\<lambda>a b :: u8. push_bit 8 (ucast a) XOR ucast b :: u16"
  have eq: "?w a b = ?w a' b'" using assms by (simp add: xor.assoc)
  have hi: "(ucast (drop_bit 8 (?w x y)) :: u8) = x" and lo: "(ucast (?w x y) :: u8) = y" for x y
    by (auto intro!: bit_word_eqI simp: bit_simps)
  from arg_cong [OF eq, of "\<lambda>w. ucast (drop_bit 8 w) :: u8"] have "a = a'" by (simp only: hi)
  moreover from arg_cong [OF eq, of "\<lambda>w. ucast w :: u8"] have "b = b'" by (simp only: lo)
  ultimately show ?thesis by simp
qed

lemma calculateCrc16_window:
  assumes "[a, b] \<noteq> [a', b']"
  shows "calculateCrc16 (xs @ [a, b] @ ys) \<noteq> calculateCrc16 (xs @ [a', b'] @ ys)"
proof
  assume "calculateCrc16 (xs @ [a, b] @ ys) = calculateCrc16 (xs @ [a', b'] @ ys)"
  then have "foldl crc16_byte (foldl crc16_byte 0xFFFF xs) [a, b] =
      foldl crc16_byte (foldl crc16_byte 0xFFFF xs) [a', b']"
    unfolding calculateCrc16_def foldl_append crc16_fold_inj by simp
  then have "a = a' \<and> b = b'"
    unfolding crc16_fold_two crc16_bits_inj by (rule crc16_two_inj)
  with assms show False by simp
qed

text \<open>Appending the checksum, high byte first, makes the checksum of the whole zero.\<close>

lemma calculateCrc16_residue:
  "calculateCrc16 (data @ [ucast (drop_bit 8 (calculateCrc16 data)), ucast (calculateCrc16 data)]) = 0"
proof -
  define c where "c = foldl crc16_byte 0xFFFF data"
  have "c XOR push_bit 8 (ucast (ucast (drop_bit 8 c) :: u8)) XOR ucast (ucast c :: u8) = 0"
    by (rule bit_word_eqI) (auto simp: bit_simps)
  then have "foldl crc16_byte c [ucast (drop_bit 8 c), ucast c] = (crc16_bit ^^ 16) 0"
    by (simp only: crc16_fold_two)
  also have "(crc16_bit ^^ 16) 0 = 0"
    by (simp add: crc16_bits_small)
  finally show ?thesis by (simp add: calculateCrc16_def c_def)
qed

end
