(* ===== verification/Flash_Device.thy ===== *)
theory Flash_Device
  imports Prelude
begin

text \<open>
  The on-chip flash of the CC1310 as the bootloader sees it: memory-mapped bytes, erased and
  programmed through the driver library calls \<open>FlashSectorErase\<close> and \<open>FlashProgram\<close>. The driver
  library is not part of the repository, so the two calls are a parameter of the model; the
  locale \<open>nor_flash\<close> states what their documentation promises. A failing call may leave its
  target range half erased or half programmed, which is also what a power loss during the call
  leaves behind.
\<close>

section \<open>Flash contents and the driver\<close>

text \<open>\<open>controller\<close> is internal state of the flash controller; it lets a driver fail at one time and
  succeed at another on the same cells.\<close>

record flash =
  cells :: "nat \<Rightarrow> u8"
  controller :: nat

record flash_driver =
  FlashSectorErase :: "nat \<Rightarrow> flash \<Rightarrow> u32 \<times> flash"
  FlashProgram :: "u8 list \<Rightarrow> nat \<Rightarrow> flash \<Rightarrow> u32 \<times> flash"

definition FLASH_PAGE_SIZE :: nat where "FLASH_PAGE_SIZE = 0x1000"

definition readBytes :: "flash \<Rightarrow> nat \<Rightarrow> nat \<Rightarrow> u8 list" where
  "readBytes f a n = map (cells f) [a..<a + n]"

definition readUint32 :: "flash \<Rightarrow> nat \<Rightarrow> u32" where
  "readUint32 f a = loadUint32Le (readBytes f a 4)"

lemma length_readBytes [simp]: "length (readBytes f a n) = n"
  by (simp add: readBytes_def)

lemma nth_readBytes [simp]: "i < n \<Longrightarrow> readBytes f a n ! i = cells f (a + i)"
  by (simp add: readBytes_def)

lemma readBytes_cong:
  "(\<And>i. i < n \<Longrightarrow> cells f (a + i) = cells g (a + i)) \<Longrightarrow> readBytes f a n = readBytes g a n"
  by (rule nth_equalityI) simp_all

lemma readBytes_append: "readBytes f a (m + n) = readBytes f a m @ readBytes f (a + m) n"
  by (rule nth_equalityI) (auto simp: nth_append add.assoc)

lemma take_readBytes: "m \<le> n \<Longrightarrow> take m (readBytes f a n) = readBytes f a m"
  by (rule nth_equalityI) auto

lemma drop_readBytes: "m \<le> n \<Longrightarrow> drop m (readBytes f a n) = readBytes f (a + m) (n - m)"
  by (rule nth_equalityI) (auto simp: add.assoc)

lemma readBytes_eq_iff:
  "length bs = n \<Longrightarrow> readBytes f a n = bs \<longleftrightarrow> (\<forall>i<n. cells f (a + i) = bs ! i)"
  by (auto simp: list_eq_iff_nth_eq)

lemma u8_FF: "(0xFF :: u8) = - 1"
  by simp

lemma u8_and_FF [simp]: "(0xFF :: u8) AND b = b" "b AND (0xFF :: u8) = b"
  unfolding u8_FF by simp_all

lemma u8_or_FF [simp]: "b OR (0xFF :: u8) = 0xFF"
  unfolding u8_FF by simp

section \<open>The contract of the driver\<close>

locale nor_flash =
  fixes drv :: flash_driver
  assumes erase_frame: "FlashSectorErase drv a f = (st, f') \<Longrightarrow>
      x \<notin> {a..<a + FLASH_PAGE_SIZE} \<Longrightarrow> cells f' x = cells f x"
    and erase_done: "FlashSectorErase drv a f = (0, f') \<Longrightarrow>
      x \<in> {a..<a + FLASH_PAGE_SIZE} \<Longrightarrow> cells f' x = 0xFF"
    and program_frame: "FlashProgram drv bs a f = (st, f') \<Longrightarrow>
      x \<notin> {a..<a + length bs} \<Longrightarrow> cells f' x = cells f x"
    and program_done: "FlashProgram drv bs a f = (0, f') \<Longrightarrow>
      i < length bs \<Longrightarrow> cells f' (a + i) = cells f (a + i) AND bs ! i"
    and program_torn: "FlashProgram drv bs a f = (st, f') \<Longrightarrow>
      i < length bs \<Longrightarrow> \<exists>m. cells f' (a + i) = cells f (a + i) AND (bs ! i OR m)"
begin

lemma program_erased:
  assumes "FlashProgram drv bs a f = (0, f')" "\<And>i. i < length bs \<Longrightarrow> cells f (a + i) = 0xFF"
  shows "readBytes f' a (length bs) = bs"
  using assms program_done by (auto simp: readBytes_eq_iff)

end

text \<open>A driver that works until its \<open>controller\<close> counter reaches zero and then fails: the failing
  erase blanks the first half of the page, the failing write programs the first half of the
  bytes, as an interrupted operation does.\<close>

definition programCells :: "u8 list \<Rightarrow> nat \<Rightarrow> (nat \<Rightarrow> u8) \<Rightarrow> nat \<Rightarrow> u8" where
  "programCells bs a c x = (if a \<le> x \<and> x < a + length bs then c x AND bs ! (x - a) else c x)"

definition eraseCells :: "nat \<Rightarrow> nat \<Rightarrow> (nat \<Rightarrow> u8) \<Rightarrow> nat \<Rightarrow> u8" where
  "eraseCells a n c x = (if a \<le> x \<and> x < a + n then 0xFF else c x)"

definition countdown_driver :: flash_driver where
  "countdown_driver = \<lparr>
     FlashSectorErase = (\<lambda>a f. if controller f = 0
       then (1, f\<lparr>cells := eraseCells a (FLASH_PAGE_SIZE div 2) (cells f)\<rparr>)
       else (0, f\<lparr>cells := eraseCells a FLASH_PAGE_SIZE (cells f), controller := controller f - 1\<rparr>)),
     FlashProgram = (\<lambda>bs a f. if controller f = 0
       then (1, f\<lparr>cells := programCells (take (length bs div 2) bs) a (cells f)\<rparr>)
       else (0, f\<lparr>cells := programCells bs a (cells f), controller := controller f - 1\<rparr>))\<rparr>"

interpretation countdown: nor_flash countdown_driver
proof
  fix a f st f' x
  assume "FlashSectorErase countdown_driver a f = (st, f')" "x \<notin> {a..<a + FLASH_PAGE_SIZE}"
  then show "cells f' x = cells f x"
    by (auto simp: countdown_driver_def eraseCells_def FLASH_PAGE_SIZE_def split: if_splits)
next
  fix a f f' x
  assume "FlashSectorErase countdown_driver a f = (0, f')" "x \<in> {a..<a + FLASH_PAGE_SIZE}"
  then show "cells f' x = 0xFF"
    by (auto simp: countdown_driver_def eraseCells_def split: if_splits)
next
  fix bs a f st f' x
  assume "FlashProgram countdown_driver bs a f = (st, f')" "x \<notin> {a..<a + length bs}"
  then show "cells f' x = cells f x"
    by (auto simp: countdown_driver_def programCells_def split: if_splits)
next
  fix bs a f f' i
  assume "FlashProgram countdown_driver bs a f = (0, f')" "i < length bs"
  then show "cells f' (a + i) = cells f (a + i) AND bs ! i"
    by (auto simp: countdown_driver_def programCells_def split: if_splits)
next
  fix bs :: "u8 list" and a f st f' i
  assume prog: "FlashProgram countdown_driver bs a f = (st, f')" "i < length bs"
  have all: "\<exists>m. b = b AND (c OR m)" for b c :: u8
    by (rule exI [of _ "0xFF"]) (simp only: u8_or_FF u8_and_FF)
  have some: "\<exists>m. b AND c = b AND (c OR m)" for b c :: u8
    by (rule exI [of _ 0]) simp
  from prog show "\<exists>m. cells f' (a + i) = cells f (a + i) AND (bs ! i OR m)"
    using all some by (fastforce simp: countdown_driver_def programCells_def split: if_splits)
qed

section \<open>A driver that never fails\<close>

locale reliable_flash = nor_flash +
  assumes erase_ok: "fst (FlashSectorErase drv a f) = 0"
    and program_ok: "fst (FlashProgram drv bs a f) = 0"

definition ideal_driver :: flash_driver where
  "ideal_driver = \<lparr>
     FlashSectorErase = (\<lambda>a f. (0, f\<lparr>cells := eraseCells a FLASH_PAGE_SIZE (cells f)\<rparr>)),
     FlashProgram = (\<lambda>bs a f. (0, f\<lparr>cells := programCells bs a (cells f)\<rparr>))\<rparr>"

interpretation ideal: reliable_flash ideal_driver
proof
  show "\<exists>m. cells f' (a + i) = cells f (a + i) AND (bs ! i OR m)"
    if "FlashProgram ideal_driver bs a f = (st, f')" "i < length bs" for bs :: "u8 list" and a f st f' i
    using that by (auto simp: ideal_driver_def programCells_def intro!: exI [of _ 0])
qed (auto simp: ideal_driver_def eraseCells_def programCells_def)

end
