(* ===== verification/Metadata.thy ===== *)
theory Metadata
  imports Crc Flash_Device
begin

text \<open>
  The persistent boot metadata of \<open>bootloader.c\<close>: the packed record, its validity checks, the
  search for the newest record in the two journal pages, and \<open>appendMetadataRecord\<close>. A
  pointer into flash is its address.
\<close>

section \<open>Constants and data\<close>

definition METADATA_PAGE_PRIMARY :: nat where "METADATA_PAGE_PRIMARY = 0x6000"
definition METADATA_PAGE_SECONDARY :: nat where "METADATA_PAGE_SECONDARY = 0x7000"
definition METADATA_MAGIC :: u32 where "METADATA_MAGIC = 0x424C4D44"
definition METADATA_FORMAT_VERSION :: u16 where "METADATA_FORMAT_VERSION = 2"
definition BOOT_STATE_VALID_APPLICATION :: u32 where "BOOT_STATE_VALID_APPLICATION = 1"
definition BOOT_STATE_UPDATE_REQUESTED :: u32 where "BOOT_STATE_UPDATE_REQUESTED = 2"
definition BOOT_STATE_UPDATE_IN_PROGRESS :: u32 where "BOOT_STATE_UPDATE_IN_PROGRESS = 3"
definition APP_ROLE_UNSET :: u32 where "APP_ROLE_UNSET = 0"
definition APP_ROLE_RX :: u32 where "APP_ROLE_RX = 1"
definition APP_ROLE_TX :: u32 where "APP_ROLE_TX = 2"

lemmas boot_state_defs = BOOT_STATE_VALID_APPLICATION_def BOOT_STATE_UPDATE_REQUESTED_def
  BOOT_STATE_UPDATE_IN_PROGRESS_def
lemmas app_role_defs = APP_ROLE_UNSET_def APP_ROLE_RX_def APP_ROLE_TX_def
lemmas metadata_consts = METADATA_PAGE_PRIMARY_def METADATA_PAGE_SECONDARY_def
  METADATA_MAGIC_def METADATA_FORMAT_VERSION_def FLASH_PAGE_SIZE_def

record BootMetadata =
  magic :: u32
  formatVersion :: u16
  recordSize :: u16
  sequenceNumber :: u32
  state :: u32
  imageSize :: u32
  imageCrc32 :: u32
  firmwareVersion :: u32
  appRole :: u32
  unconfirmedBootCount :: u32
  bootAttemptId :: u32
  confirmedBootAttemptId :: u32
  recordCrc32 :: u32

definition isValidAppRole :: "u32 \<Rightarrow> bool" where
  "isValidAppRole role \<longleftrightarrow> role = APP_ROLE_UNSET \<or> role = APP_ROLE_RX \<or> role = APP_ROLE_TX"

text \<open>The size of the packed record and the number of records of a page.\<close>

abbreviation (input) sizeofBootMetadata :: nat where "sizeofBootMetadata \<equiv> 48"

definition recordsPerPage :: nat where "recordsPerPage = FLASH_PAGE_SIZE div sizeofBootMetadata"

section \<open>The packed layout\<close>

text \<open>The first 44 bytes of the record (all but \<open>recordCrc32\<close>), and the whole record.\<close>

definition metadataBody :: "BootMetadata \<Rightarrow> u8 list" where
  "metadataBody m = storeUint32Le (magic m) @ bytesLe16 (formatVersion m) @
     bytesLe16 (recordSize m) @ storeUint32Le (sequenceNumber m) @ storeUint32Le (state m) @
     storeUint32Le (imageSize m) @ storeUint32Le (imageCrc32 m) @
     storeUint32Le (firmwareVersion m) @ storeUint32Le (appRole m) @
     storeUint32Le (unconfirmedBootCount m) @ storeUint32Le (bootAttemptId m) @
     storeUint32Le (confirmedBootAttemptId m)"

definition metadataBytes :: "BootMetadata \<Rightarrow> u8 list" where
  "metadataBytes m = metadataBody m @ storeUint32Le (recordCrc32 m)"

definition metadataOf :: "u8 list \<Rightarrow> BootMetadata" where
  "metadataOf bs = \<lparr>magic = loadUint32Le bs,
     formatVersion = wordLe16 (bs ! 4) (bs ! 5), recordSize = wordLe16 (bs ! 6) (bs ! 7),
     sequenceNumber = loadUint32Le (drop 8 bs), state = loadUint32Le (drop 12 bs),
     imageSize = loadUint32Le (drop 16 bs), imageCrc32 = loadUint32Le (drop 20 bs),
     firmwareVersion = loadUint32Le (drop 24 bs), appRole = loadUint32Le (drop 28 bs),
     unconfirmedBootCount = loadUint32Le (drop 32 bs), bootAttemptId = loadUint32Le (drop 36 bs),
     confirmedBootAttemptId = loadUint32Le (drop 40 bs), recordCrc32 = loadUint32Le (drop 44 bs)\<rparr>"

definition recordAt :: "flash \<Rightarrow> nat \<Rightarrow> BootMetadata" where
  "recordAt f a = metadataOf (readBytes f a sizeofBootMetadata)"

lemma length_metadataBody [simp]: "length (metadataBody m) = 44"
  by (simp add: metadataBody_def)

lemma length_metadataBytes [simp]: "length (metadataBytes m) = 48"
  by (simp add: metadataBytes_def)

lemma metadataOf_metadataBytes [simp]: "metadataOf (metadataBytes m) = m"
  by (simp add: metadataOf_def metadataBytes_def metadataBody_def nth_append bytesLe16_def)

section \<open>Operations\<close>

definition isErasedRecord :: "flash \<Rightarrow> nat \<Rightarrow> bool" where
  "isErasedRecord f record \<longleftrightarrow>
     list_all (\<lambda>wordIndex. readUint32 f (record + 4 * wordIndex) = NOT 0)
       [0..<sizeofBootMetadata div 4]"

definition isValidMetadataRecord :: "flash \<Rightarrow> nat \<Rightarrow> bool" where
  "isValidMetadataRecord f record \<longleftrightarrow>
     magic (recordAt f record) = METADATA_MAGIC \<and>
     formatVersion (recordAt f record) = METADATA_FORMAT_VERSION \<and>
     recordSize (recordAt f record) = of_nat sizeofBootMetadata \<and>
     recordCrc32 (recordAt f record) = calculateCrc32 (readBytes f record (sizeofBootMetadata - 4))"

definition isSequenceNewer :: "u32 \<Rightarrow> u32 \<Rightarrow> bool" where
  "isSequenceNewer candidate reference \<longleftrightarrow>
     candidate \<noteq> reference \<and> candidate - reference < 0x80000000"

definition sequenceAt :: "flash \<Rightarrow> nat \<Rightarrow> u32" where
  "sequenceAt f record = sequenceNumber (recordAt f record)"

primrec scanRecords :: "flash \<Rightarrow> nat \<Rightarrow> nat option \<Rightarrow> nat list \<Rightarrow> nat option" where
  "scanRecords f page newestRecord [] = newestRecord"
| "scanRecords f page newestRecord (recordIndex # rest) =
     (let record = page + recordIndex * sizeofBootMetadata in
      if isErasedRecord f record then newestRecord
      else scanRecords f page
        (if isValidMetadataRecord f record \<and>
            (case newestRecord of None \<Rightarrow> True
             | Some newest \<Rightarrow>
                 isSequenceNewer (sequenceAt f record) (sequenceAt f newest) \<or>
                 sequenceAt f record = sequenceAt f newest)
         then Some record else newestRecord) rest)"

definition findNewestRecordInPage :: "flash \<Rightarrow> nat \<Rightarrow> nat option" where
  "findNewestRecordInPage f pageAddress = scanRecords f pageAddress None [0..<recordsPerPage]"

definition findNewestMetadataRecord :: "flash \<Rightarrow> nat option" where
  "findNewestMetadataRecord f =
     (case findNewestRecordInPage f METADATA_PAGE_PRIMARY of
        None \<Rightarrow> findNewestRecordInPage f METADATA_PAGE_SECONDARY
      | Some primary \<Rightarrow>
         (case findNewestRecordInPage f METADATA_PAGE_SECONDARY of
            None \<Rightarrow> Some primary
          | Some secondary \<Rightarrow>
             if isSequenceNewer (sequenceAt f secondary) (sequenceAt f primary) then Some secondary
             else if isSequenceNewer (sequenceAt f primary) (sequenceAt f secondary) then Some primary
             else Some primary))"

definition readBootMetadata :: "flash \<Rightarrow> BootMetadata option" where
  "readBootMetadata f = map_option (recordAt f) (findNewestMetadataRecord f)"

definition setDefaultMetadata :: BootMetadata where
  "setDefaultMetadata = \<lparr>magic = METADATA_MAGIC, formatVersion = METADATA_FORMAT_VERSION,
     recordSize = of_nat sizeofBootMetadata, sequenceNumber = 0,
     state = BOOT_STATE_UPDATE_IN_PROGRESS, imageSize = 0, imageCrc32 = 0, firmwareVersion = 0,
     appRole = APP_ROLE_UNSET, unconfirmedBootCount = 0, bootAttemptId = 0,
     confirmedBootAttemptId = 0, recordCrc32 = 0\<rparr>"

definition findFirstErasedRecord :: "flash \<Rightarrow> nat \<Rightarrow> nat option" where
  "findFirstErasedRecord f pageAddress =
     find (\<lambda>recordIndex. isErasedRecord f (pageAddress + recordIndex * sizeofBootMetadata))
       [0..<recordsPerPage]"

text \<open>The record \<open>appendMetadataRecord\<close> writes: header fields, next sequence number, checksum.\<close>

definition stampRecord :: "flash \<Rightarrow> BootMetadata \<Rightarrow> BootMetadata" where
  "stampRecord f metadata =
     (let m = metadata\<lparr>magic := METADATA_MAGIC, formatVersion := METADATA_FORMAT_VERSION,
                recordSize := of_nat sizeofBootMetadata,
                sequenceNumber := (case findNewestMetadataRecord f of
                    Some newestRecord \<Rightarrow> sequenceAt f newestRecord + 1 | None \<Rightarrow> 1)\<rparr>
      in m\<lparr>recordCrc32 := calculateCrc32 (metadataBody m)\<rparr>)"

text \<open>The loop over the two pages that looks for an erased record, and the page that is rotated
  when there is none.\<close>

primrec findWritableRecord :: "flash \<Rightarrow> nat list \<Rightarrow> nat option" where
  "findWritableRecord f [] = None"
| "findWritableRecord f (pageAddress # pages) =
     (case findFirstErasedRecord f pageAddress of
        Some recordIndex \<Rightarrow> Some (pageAddress + recordIndex * sizeofBootMetadata)
      | None \<Rightarrow> findWritableRecord f pages)"

definition rotatedPage :: "flash \<Rightarrow> nat" where
  "rotatedPage f =
     (case findNewestMetadataRecord f of
        Some newestRecord \<Rightarrow> if newestRecord \<ge> METADATA_PAGE_SECONDARY
          then METADATA_PAGE_PRIMARY else METADATA_PAGE_SECONDARY
      | None \<Rightarrow> METADATA_PAGE_SECONDARY)"

definition writeRecord ::
  "flash_driver \<Rightarrow> BootMetadata \<Rightarrow> nat \<Rightarrow> flash \<Rightarrow> int \<times> BootMetadata \<times> flash" where
  "writeRecord drv m address f =
     (case FlashProgram drv (metadataBody m) address f of (st, f1) \<Rightarrow>
        if st \<noteq> 0 then (-1, m, f1)
        else (case FlashProgram drv (storeUint32Le (recordCrc32 m))
                     (address + sizeofBootMetadata - 4) f1 of (st', f2) \<Rightarrow>
                if st' \<noteq> 0 then (-1, m, f2) else (0, m, f2)))"

definition appendMetadataRecord ::
  "flash_driver \<Rightarrow> BootMetadata \<Rightarrow> flash \<Rightarrow> int \<times> BootMetadata \<times> flash" where
  "appendMetadataRecord drv metadata f =
     (let m = stampRecord f metadata in
      case findWritableRecord f [METADATA_PAGE_PRIMARY, METADATA_PAGE_SECONDARY] of
        Some address \<Rightarrow> writeRecord drv m address f
      | None \<Rightarrow>
         (case FlashSectorErase drv (rotatedPage f) f of (st, f1) \<Rightarrow>
            if st \<noteq> 0 then (-1, m, f1) else writeRecord drv m (rotatedPage f) f1))"

definition confirmApplicationBoot :: "flash_driver \<Rightarrow> u32 \<Rightarrow> flash \<Rightarrow> int \<times> flash" where
  "confirmApplicationBoot drv attempt f =
     (case readBootMetadata f of
        None \<Rightarrow> (-1, f)
      | Some metadata \<Rightarrow>
         if bootAttemptId metadata \<noteq> attempt \<or> confirmedBootAttemptId metadata = attempt then (-1, f)
         else
           (let m = metadata\<lparr>confirmedBootAttemptId := attempt\<rparr>;
                m' = (if unconfirmedBootCount m \<noteq> 0
                      then m\<lparr>unconfirmedBootCount := unconfirmedBootCount m - 1\<rparr> else m)
            in case appendMetadataRecord drv m' f of (st, _, f') \<Rightarrow> (st, f')))"

definition requestFirmwareUpdate :: "flash_driver \<Rightarrow> flash \<Rightarrow> int \<times> flash" where
  "requestFirmwareUpdate drv f =
     (let metadata = (case readBootMetadata f of None \<Rightarrow> setDefaultMetadata | Some m \<Rightarrow> m)
      in case appendMetadataRecord drv (metadata\<lparr>state := BOOT_STATE_UPDATE_REQUESTED\<rparr>) f of
           (st, _, f') \<Rightarrow> (st, f'))"

section \<open>Basic facts\<close>

lemma recordsPerPage_eq [simp]: "recordsPerPage = 85"
  by (simp add: recordsPerPage_def FLASH_PAGE_SIZE_def)

lemma readUint32_ones: "readUint32 f a = NOT 0 \<longleftrightarrow> (\<forall>i<4. cells f (a + i) = 0xFF)"
proof -
  have "readUint32 f a = NOT 0 \<longleftrightarrow> readBytes f a 4 = storeUint32Le (NOT 0)"
    unfolding readUint32_def
    by (metis length_readBytes loadUint32Le_store storeUint32Le_loadUint32Le)
  also have "storeUint32Le (NOT 0) = [0xFF, 0xFF, 0xFF, 0xFF]"
    unfolding storeUint32Le_def u8_FF
    by (auto intro!: bit_word_eqI simp: bit_simps)
  finally show ?thesis
    by (auto simp: readBytes_eq_iff eval_nat_numeral All_less_Suc)
qed

lemma isErasedRecord_iff: "isErasedRecord f a \<longleftrightarrow> (\<forall>i<48. cells f (a + i) = 0xFF)"
proof
  assume er: "isErasedRecord f a"
  show "\<forall>i<48. cells f (a + i) = 0xFF"
  proof (intro allI impI)
    fix i :: nat assume "i < 48"
    then have "i div 4 < 12" by simp
    with er have "readUint32 f (a + 4 * (i div 4)) = NOT 0"
      by (simp add: isErasedRecord_def list_all_iff)
    then have "cells f (a + 4 * (i div 4) + i mod 4) = 0xFF"
      by (simp only: readUint32_ones)
    then show "cells f (a + i) = 0xFF" by (simp add: add.assoc)
  qed
next
  assume "\<forall>i<48. cells f (a + i) = 0xFF"
  then show "isErasedRecord f a"
    by (simp only: isErasedRecord_def list_all_iff readUint32_ones) (auto simp: add.assoc)
qed

lemma record_cong:
  assumes "\<And>i. i < 48 \<Longrightarrow> cells f (a + i) = cells g (a + i)"
  shows "recordAt f a = recordAt g a" "isErasedRecord f a = isErasedRecord g a"
    "isValidMetadataRecord f a = isValidMetadataRecord g a"
proof -
  have "readBytes f a 48 = readBytes g a 48" "readBytes f a 44 = readBytes g a 44"
    using assms by (auto intro!: readBytes_cong)
  then show "recordAt f a = recordAt g a"
    "isValidMetadataRecord f a = isValidMetadataRecord g a"
    by (simp_all add: recordAt_def isValidMetadataRecord_def)
  show "isErasedRecord f a = isErasedRecord g a"
    using assms by (simp add: isErasedRecord_iff)
qed

lemma erased_not_valid: "isErasedRecord f a \<Longrightarrow> \<not> isValidMetadataRecord f a"
proof
  assume er: "isErasedRecord f a" and "isValidMetadataRecord f a"
  then have "loadUint32Le (readBytes f a 48) = METADATA_MAGIC"
    by (simp add: isValidMetadataRecord_def recordAt_def metadataOf_def)
  moreover have "readBytes f a 48 = readBytes f a 4 @ readBytes f (a + 4) 44"
    using readBytes_append [of f a 4 44] by simp
  moreover have "readUint32 f a = NOT 0"
    using er by (simp only: readUint32_ones isErasedRecord_iff) simp
  ultimately show False
    by (simp add: readUint32_def METADATA_MAGIC_def)
qed

end
