(* ===== verification/Journal.thy ===== *)
theory Journal
  imports Metadata
begin

text \<open>
  Correctness of the metadata journal. \<open>journal K f p i\<close> says that record \<open>i\<close> of page \<open>p\<close> is the
  current record: it is valid, the search loop reaches it, and every other valid record in the
  two pages is older by 1 to \<open>K\<close> sequence numbers (computed modulo \<open>2 ^ 32\<close>). With \<open>K < 2 ^ 31\<close> the
  search finds exactly this record, and appending keeps the invariant whatever the driver does.
\<close>

section \<open>Slots\<close>

definition slot :: "nat \<Rightarrow> nat \<Rightarrow> nat" where
  "slot p i = p + i * sizeofBootMetadata"

definition journalPages :: "nat set" where
  "journalPages = {METADATA_PAGE_PRIMARY, METADATA_PAGE_SECONDARY}"

lemma journalPagesE:
  assumes "p \<in> journalPages"
  obtains "p = METADATA_PAGE_PRIMARY" | "p = METADATA_PAGE_SECONDARY"
  using assms by (auto simp: journalPages_def)

lemma pages_in [simp]:
  "METADATA_PAGE_PRIMARY \<in> journalPages" "METADATA_PAGE_SECONDARY \<in> journalPages"
  by (simp_all add: journalPages_def)

lemma slot_in_page: "i < 85 \<Longrightarrow> k < 48 \<Longrightarrow> p \<le> slot p i + k \<and> slot p i + k < p + FLASH_PAGE_SIZE"
  by (simp add: slot_def FLASH_PAGE_SIZE_def)

lemma pages_apart:
  assumes "p \<in> journalPages" "q \<in> journalPages" "p \<noteq> q"
  shows "p + FLASH_PAGE_SIZE \<le> q \<or> q + FLASH_PAGE_SIZE \<le> p"
  using assms by (auto simp: journalPages_def metadata_consts)

lemma slots_apart:
  assumes "p \<in> journalPages" "q \<in> journalPages" "i < 85" "j < 85" "(p, i) \<noteq> (q, j)" "k < 48"
  shows "slot p i + k \<notin> {slot q j..<slot q j + 48}"
proof (cases "p = q")
  case True
  with assms have "i < j \<or> j < i" by auto
  with True assms show ?thesis by (auto simp: slot_def)
next
  case False
  with pages_apart [OF assms(1,2)] slot_in_page [OF assms(3,6), of p] slot_in_page [OF assms(4), of 0 q]
    slot_in_page [OF assms(4), of 47 q]
  show ?thesis by fastforce
qed

lemma slot_inj:
  assumes "p \<in> journalPages" "q \<in> journalPages" "i < 85" "j < 85" "slot p i = slot q j"
  shows "p = q \<and> i = j"
  using slots_apart [OF assms(1-4), of 0] assms(5) by auto

section \<open>The invariant\<close>

definition age :: "flash \<Rightarrow> nat \<Rightarrow> nat \<Rightarrow> nat" where
  "age f a0 a = unat (sequenceAt f a0 - sequenceAt f a)"

definition journal :: "nat \<Rightarrow> flash \<Rightarrow> nat \<Rightarrow> nat \<Rightarrow> bool" where
  "journal K f p0 i0 \<longleftrightarrow> p0 \<in> journalPages \<and> i0 < 85 \<and>
     isValidMetadataRecord f (slot p0 i0) \<and>
     (\<forall>j<i0. \<not> isErasedRecord f (slot p0 j)) \<and>
     (\<forall>p\<in>journalPages. \<forall>i<85. (p, i) \<noteq> (p0, i0) \<longrightarrow> isValidMetadataRecord f (slot p i) \<longrightarrow>
        age f (slot p0 i0) (slot p i) \<in> {1..K})"

definition emptyJournal :: "flash \<Rightarrow> bool" where
  "emptyJournal f \<longleftrightarrow> (\<forall>p\<in>journalPages. \<forall>i<85. \<not> isValidMetadataRecord f (slot p i))"

definition journal_ok :: "nat \<Rightarrow> flash \<Rightarrow> bool" where
  "journal_ok K f \<longleftrightarrow> emptyJournal f \<or> (\<exists>p i. journal K f p i)"

section \<open>The search finds the current record\<close>

lemma older_not_newer:
  assumes "unat (s0 - s) \<in> {1..K}" "K < 2 ^ 31"
  shows "isSequenceNewer s0 s" "\<not> isSequenceNewer s s0" "s \<noteq> s0"
proof -
  from assms have ne: "s0 - s \<noteq> 0" by auto
  then show neq: "s \<noteq> s0" by auto
  from assms have lt: "s0 - s < 0x80000000"
    by (simp add: word_less_nat_alt)
  with neq show "isSequenceNewer s0 s" by (simp add: isSequenceNewer_def)
  have "\<not> s - s0 < 0x80000000"
  proof
    assume "s - s0 < 0x80000000"
    then have "unat (s - s0) + unat (s0 - s) < 2 ^ 32"
      using lt by (simp add: word_less_nat_alt)
    moreover have "(s - s0) + (s0 - s) = 0" by simp
    ultimately have "unat (s - s0) + unat (s0 - s) = 0"
      using unat_word_ariths(1) [of "s - s0" "s0 - s"] by simp
    with assms show False by simp
  qed
  then show "\<not> isSequenceNewer s s0" by (simp add: isSequenceNewer_def)
qed

lemma scanRecords_valid:
  assumes "\<And>a. newest = Some a \<Longrightarrow> P a"
    and "\<And>i. i \<in> set is \<Longrightarrow> isValidMetadataRecord f (slot p i) \<Longrightarrow> P (slot p i)"
    and "scanRecords f p newest is = Some a"
  shows "P a"
  using assms
proof (induction "is" arbitrary: newest)
  case (Cons i "is")
  show ?case
  proof (cases "isErasedRecord f (slot p i)")
    case True
    with Cons.prems show ?thesis by (simp add: Let_def slot_def)
  next
    case False
    with Cons.prems(3) obtain newest' where
      "scanRecords f p newest' is = Some a"
      "newest' = newest \<or> newest' = Some (slot p i) \<and> isValidMetadataRecord f (slot p i)"
      by (auto simp: Let_def slot_def split: if_splits)
    with Cons.prems(1,2) show ?thesis
      by (intro Cons.IH [of newest']) auto
  qed
qed simp

lemma scanRecords_append:
  "(\<And>i. i \<in> set is \<Longrightarrow> \<not> isErasedRecord f (slot p i)) \<Longrightarrow>
   scanRecords f p newest (is @ js) = scanRecords f p (scanRecords f p newest is) js"
  by (induction "is" arbitrary: newest) (simp_all add: Let_def slot_def)

lemma scanRecords_stay:
  assumes "\<And>i. i \<in> set is \<Longrightarrow> isValidMetadataRecord f (slot p i) \<Longrightarrow>
     \<not> isSequenceNewer (sequenceAt f (slot p i)) (sequenceAt f a) \<and>
     sequenceAt f (slot p i) \<noteq> sequenceAt f a"
  shows "scanRecords f p (Some a) is = Some a"
  using assms by (induction "is") (auto simp: Let_def slot_def)

lemma journal_page:
  assumes "journal K f p0 i0" "K < 2 ^ 31"
  shows "findNewestRecordInPage f p0 = Some (slot p0 i0)"
proof -
  note j = assms(1) [unfolded journal_def]
  let ?a = "slot p0 i0"
  have older: "age f ?a (slot p0 i) \<in> {1..K}"
    if "i < 85" "i \<noteq> i0" "isValidMetadataRecord f (slot p0 i)" for i
    using j that by auto
  have split: "[0..<85] = [0..<i0] @ i0 # [Suc i0..<85]"
    using j upt_add_eq_append [of 0 i0 "85 - i0"] upt_conv_Cons [of i0 85] by simp
  define before where "before = scanRecords f p0 None [0..<i0]"
  have "unat (sequenceAt f ?a - sequenceAt f b) \<in> {1..K}" if "before = Some b" for b
    using that unfolding before_def
    by (rule scanRecords_valid [rotated 2]) (use j older in \<open>auto simp: age_def\<close>)
  then have newer: "isSequenceNewer (sequenceAt f ?a) (sequenceAt f b)" if "before = Some b" for b
    using that older_not_newer(1) assms(2) by blast
  have "scanRecords f p0 before (i0 # [Suc i0..<85]) = scanRecords f p0 (Some ?a) [Suc i0..<85]"
    using j newer erased_not_valid [of f ?a]
    by (auto simp: Let_def slot_def split: option.split)
  also have "\<dots> = Some ?a"
  proof (rule scanRecords_stay)
    fix i assume "i \<in> set [Suc i0..<85]" "isValidMetadataRecord f (slot p0 i)"
    then have "unat (sequenceAt f ?a - sequenceAt f (slot p0 i)) \<in> {1..K}"
      using older [of i] by (simp add: age_def)
    from older_not_newer(2,3) [OF this assms(2)]
    show "\<not> isSequenceNewer (sequenceAt f (slot p0 i)) (sequenceAt f ?a) \<and>
      sequenceAt f (slot p0 i) \<noteq> sequenceAt f ?a" by blast
  qed
  finally show ?thesis
    using scanRecords_append [of "[0..<i0]" f p0 None "i0 # [Suc i0..<85]"] j
    by (simp only: findNewestRecordInPage_def recordsPerPage_eq split before_def) auto
qed

lemma journal_find:
  assumes "journal K f p0 i0" "K < 2 ^ 31"
  shows "findNewestMetadataRecord f = Some (slot p0 i0)"
proof -
  let ?a = "slot p0 i0"
  have other: "isSequenceNewer (sequenceAt f ?a) (sequenceAt f b)
      \<and> \<not> isSequenceNewer (sequenceAt f b) (sequenceAt f ?a)"
    if "q \<in> journalPages" "q \<noteq> p0" "findNewestRecordInPage f q = Some b" for q b
  proof -
    have "unat (sequenceAt f ?a - sequenceAt f b) \<in> {1..K}"
      using that(3) unfolding findNewestRecordInPage_def
      by (rule scanRecords_valid [rotated 2])
        (use that assms(1) in \<open>auto simp: journal_def age_def\<close>)
    then show ?thesis using older_not_newer assms(2) by blast
  qed
  have "METADATA_PAGE_PRIMARY \<noteq> METADATA_PAGE_SECONDARY" by (simp add: metadata_consts)
  moreover have "p0 = METADATA_PAGE_PRIMARY \<or> p0 = METADATA_PAGE_SECONDARY"
    using assms(1) by (auto simp: journal_def journalPages_def)
  ultimately show ?thesis
    using journal_page [OF assms] other [of METADATA_PAGE_PRIMARY] other [of METADATA_PAGE_SECONDARY]
    by (auto simp: findNewestMetadataRecord_def split: option.split)
qed

lemma empty_find:
  assumes "emptyJournal f"
  shows "findNewestMetadataRecord f = None"
proof -
  have "findNewestRecordInPage f p = None" if "p \<in> journalPages" for p
  proof (rule ccontr)
    assume "findNewestRecordInPage f p \<noteq> None"
    then obtain a where a: "scanRecords f p None [0..<85] = Some a"
      by (auto simp: findNewestRecordInPage_def)
    show False
      by (rule scanRecords_valid [OF _ _ a, of "\<lambda>_. False"])
        (use assms that in \<open>auto simp: emptyJournal_def\<close>)
  qed
  then show ?thesis by (simp add: findNewestMetadataRecord_def)
qed

lemma journal_read:
  "journal K f p i \<Longrightarrow> K < 2 ^ 31 \<Longrightarrow> readBootMetadata f = Some (recordAt f (slot p i))"
  by (simp add: readBootMetadata_def journal_find)

lemma empty_read: "emptyJournal f \<Longrightarrow> readBootMetadata f = None"
  by (simp add: readBootMetadata_def empty_find)

section \<open>Where a record goes\<close>

definition appendTarget :: "flash \<Rightarrow> nat" where
  "appendTarget f =
     (case findWritableRecord f [METADATA_PAGE_PRIMARY, METADATA_PAGE_SECONDARY] of
        Some address \<Rightarrow> address | None \<Rightarrow> rotatedPage f)"

text \<open>Nothing in the journal of \<open>f'\<close> passes for a valid record but what was valid in \<open>f\<close> or the
  complete new record. This is proved of every append below; it is not a premise of a property.\<close>

definition genuine :: "flash \<Rightarrow> flash \<Rightarrow> nat \<Rightarrow> BootMetadata \<Rightarrow> bool" where
  "genuine f f' t m \<longleftrightarrow> (\<forall>p\<in>journalPages. \<forall>i<85. isValidMetadataRecord f' (slot p i) \<longrightarrow>
     slot p i = t \<and> recordAt f' (slot p i) = m \<or>
     isValidMetadataRecord f (slot p i) \<and> recordAt f' (slot p i) = recordAt f (slot p i))"

lemma findFirstErasedRecord_SomeD:
  assumes "findFirstErasedRecord f p = Some i"
  shows "i < 85" "isErasedRecord f (slot p i)" "\<And>j. j < i \<Longrightarrow> \<not> isErasedRecord f (slot p j)"
  using assms by (auto simp: findFirstErasedRecord_def find_Some_iff slot_def)

lemma findFirstErasedRecord_NoneD:
  "findFirstErasedRecord f p = None \<Longrightarrow> i < 85 \<Longrightarrow> \<not> isErasedRecord f (slot p i)"
  by (auto simp: findFirstErasedRecord_def find_None_iff slot_def)

lemma findWritableRecord_SomeD:
  assumes "findWritableRecord f [METADATA_PAGE_PRIMARY, METADATA_PAGE_SECONDARY] = Some a"
  obtains p i where "p \<in> journalPages" "i < 85" "a = slot p i" "isErasedRecord f (slot p i)"
    "\<And>j. j < i \<Longrightarrow> \<not> isErasedRecord f (slot p j)"
proof -
  from assms obtain p i where "p \<in> journalPages" "findFirstErasedRecord f p = Some i" "a = slot p i"
    by (simp split: option.splits) (metis pages_in slot_def)+
  with findFirstErasedRecord_SomeD [of f p i] show ?thesis by (intro that [of p i])
qed

lemma findWritableRecord_NoneD:
  assumes "findWritableRecord f [METADATA_PAGE_PRIMARY, METADATA_PAGE_SECONDARY] = None"
    and "p \<in> journalPages" "i < 85"
  shows "\<not> isErasedRecord f (slot p i)"
proof -
  from assms(1,2) have "findFirstErasedRecord f p = None"
    by (auto simp: journalPages_def split: option.splits)
  then show ?thesis by (rule findFirstErasedRecord_NoneD) (rule assms(3))
qed

text \<open>The only thing an interrupted append depends on besides the driver: that garbage does not carry
  its own checksum. \<open>matchesOwnCrc\<close> is the comparison the search makes. When a free slot is
  written, the checksum field is blank until the last write, so the only accident is a torn body
  whose CRC is that of a blank field. When a page is rotated, each half-erased slot may have
  either part.\<close>

definition matchesOwnCrc :: "flash \<Rightarrow> nat \<Rightarrow> bool" where
  "matchesOwnCrc f a \<longleftrightarrow> calculateCrc32 (readBytes f a 44) = readUint32 f (a + 44)"

definition noCrcAccident :: "flash \<Rightarrow> flash \<Rightarrow> BootMetadata \<Rightarrow> bool" where
  "noCrcAccident f f' m \<longleftrightarrow>
     (case findWritableRecord f [METADATA_PAGE_PRIMARY, METADATA_PAGE_SECONDARY] of
        Some a \<Rightarrow> readBytes f' a 44 = metadataBody m \<or> calculateCrc32 (readBytes f' a 44) \<noteq> 0xFFFFFFFF
      | None \<Rightarrow> (\<forall>i<85. let a = slot (rotatedPage f) i in
          readBytes f' a 48 = readBytes f a 48 \<or> i = 0 \<and> readBytes f' a 44 = metadataBody m \<or>
          \<not> matchesOwnCrc f' a))"

lemma valid_matchesOwnCrc: "isValidMetadataRecord f a \<Longrightarrow> matchesOwnCrc f a"
  using readBytes_append [of f a 44 4]
  by (simp add: isValidMetadataRecord_def matchesOwnCrc_def recordAt_def metadataOf_def readUint32_def)

text \<open>A valid record with the complete new body is the complete new record.\<close>

lemma whole_record:
  assumes "isValidMetadataRecord f a" "readBytes f a 44 = metadataBody m" "m = stampRecord g m0"
  shows "recordAt f a = m"
proof -
  have parts: "readBytes f a 48 = readBytes f a 44 @ readBytes f (a + 44) 4"
    using readBytes_append [of f a 44 4] by simp
  have "calculateCrc32 (metadataBody m) = recordCrc32 m"
    by (simp add: assms(3) stampRecord_def Let_def metadataBody_def)
  with valid_matchesOwnCrc [OF assms(1)] assms(2)
  have "readBytes f (a + 44) 4 = storeUint32Le (recordCrc32 m)"
    by (metis length_readBytes matchesOwnCrc_def readUint32_def storeUint32Le_loadUint32Le)
  with parts assms(2) have "readBytes f a 48 = metadataBytes m" by (simp add: metadataBytes_def)
  then show ?thesis by (simp add: recordAt_def)
qed

lemma rotatedPage_in: "rotatedPage f \<in> journalPages"
  by (simp add: rotatedPage_def split: option.split)

lemma rotatedPage_other:
  assumes "journal K f p0 i0" "K < 2 ^ 31"
  shows "rotatedPage f \<noteq> p0"
  using assms journal_find [OF assms]
  by (auto simp: rotatedPage_def journal_def journalPages_def slot_def metadata_consts)

section \<open>Writing one record\<close>

lemma valid_metadataBytes:
  assumes "readBytes f a 48 = metadataBytes (stampRecord g m)"
  shows "isValidMetadataRecord f a" "recordAt f a = stampRecord g m"
proof -
  show r: "recordAt f a = stampRecord g m" using assms by (simp add: recordAt_def)
  have "readBytes f a 44 = metadataBody (stampRecord g m)"
    using arg_cong [OF assms, of "take 44"] by (simp add: take_readBytes metadataBytes_def)
  moreover have "metadataBody (stampRecord g m) =
      metadataBody ((stampRecord g m)\<lparr>recordCrc32 := c\<rparr>)" for c
    by (simp add: metadataBody_def)
  ultimately show "isValidMetadataRecord f a"
    by (simp add: isValidMetadataRecord_def r) (simp add: stampRecord_def Let_def metadataBody_def)
qed

context nor_flash
begin

lemma writeRecord_frame:
  assumes "writeRecord drv m a f = (st, m', f')" "x \<notin> {a..<a + 48}"
  shows "cells f' x = cells f x"
  using assms
  by (auto simp: writeRecord_def split: prod.splits if_splits dest!: program_frame [where x = x])

lemma writeRecord_done:
  assumes "writeRecord drv m a f = (0, m', f')" "isErasedRecord f a"
  shows "readBytes f' a 48 = metadataBytes m"
proof -
  from assms(1) obtain f1 where
    body: "FlashProgram drv (metadataBody m) a f = (0, f1)" and
    crc: "FlashProgram drv (storeUint32Le (recordCrc32 m)) (a + 44) f1 = (0, f')"
    by (auto simp: writeRecord_def add.commute split: prod.splits if_splits)
  have "readBytes f1 a 44 = metadataBody m"
    using program_erased [OF body] assms(2) by (simp add: isErasedRecord_iff)
  moreover have "readBytes f' a 44 = readBytes f1 a 44"
    by (rule readBytes_cong) (use program_frame [OF crc] in auto)
  moreover have "readBytes f' (a + 44) 4 = storeUint32Le (recordCrc32 m)"
  proof -
    have "cells f1 (a + 44 + i) = 0xFF" if "i < 4" for i
      using program_frame [OF body, of "a + 44 + i"] assms(2) that
      by (simp add: isErasedRecord_iff add.assoc)
    then show ?thesis using program_erased [OF crc] by simp
  qed
  ultimately show ?thesis
    using readBytes_append [of f' a 44 4] by (simp add: metadataBytes_def)
qed

text \<open>What an append touches: a free slot, or the page it rotates.\<close>

lemma append_effect:
  assumes "appendMetadataRecord drv m0 f = (st, m, f')"
  obtains (slot) p i where "p \<in> journalPages" "i < 85" "appendTarget f = slot p i"
      "m = stampRecord f m0" "isErasedRecord f (slot p i)"
      "\<And>j. j < i \<Longrightarrow> \<not> isErasedRecord f (slot p j)"
      "\<And>x. x \<notin> {slot p i..<slot p i + 48} \<Longrightarrow> cells f' x = cells f x"
      "st = 0 \<Longrightarrow> readBytes f' (slot p i) 48 = metadataBytes m"
    | (rotate) "appendTarget f = slot (rotatedPage f) 0" "m = stampRecord f m0"
      "\<And>x. x \<notin> {rotatedPage f..<rotatedPage f + FLASH_PAGE_SIZE} \<Longrightarrow> cells f' x = cells f x"
      "st = 0 \<Longrightarrow> readBytes f' (slot (rotatedPage f) 0) 48 = metadataBytes m"
      "st = 0 \<Longrightarrow> \<forall>i\<in>{1..<85}. isErasedRecord f' (slot (rotatedPage f) i)"
proof (cases "findWritableRecord f [METADATA_PAGE_PRIMARY, METADATA_PAGE_SECONDARY]")
  case (Some a)
  from findWritableRecord_SomeD [OF this] obtain p i where
    pi: "p \<in> journalPages" "i < 85" "a = slot p i" "isErasedRecord f (slot p i)"
      "\<And>j. j < i \<Longrightarrow> \<not> isErasedRecord f (slot p j)" by blast
  from Some assms have w: "writeRecord drv (stampRecord f m0) a f = (st, m, f')"
    by (simp add: appendMetadataRecord_def Let_def)
  then have m: "m = stampRecord f m0" by (auto simp: writeRecord_def split: prod.splits if_splits)
  show thesis
  proof (rule slot)
    show "cells f' x = cells f x" if "x \<notin> {slot p i..<slot p i + 48}" for x
      using writeRecord_frame [OF w] that pi by simp
    show "readBytes f' (slot p i) 48 = metadataBytes m" if "st = 0"
      using writeRecord_done w m that pi by blast
    show "appendTarget f = slot p i" using Some pi by (simp add: appendTarget_def)
  qed (use pi m in auto)
next
  case None
  let ?q = "rotatedPage f"
  have t: "appendTarget f = slot ?q 0" using None by (simp add: appendTarget_def slot_def)
  obtain st1 f1 where e: "FlashSectorErase drv ?q f = (st1, f1)" by fastforce
  show thesis
  proof (cases "st1 = 0")
    case False
    with assms None e have "st = -1" "m = stampRecord f m0" "f' = f1"
      by (auto simp: appendMetadataRecord_def Let_def)
    with t erase_frame [OF e] show thesis by (intro rotate) auto
  next
    case True
    with assms None e have w: "writeRecord drv (stampRecord f m0) (slot ?q 0) f1 = (st, m, f')"
      by (simp add: appendMetadataRecord_def Let_def slot_def)
    then have m: "m = stampRecord f m0" by (auto simp: writeRecord_def split: prod.splits if_splits)
    have blank: "cells f1 (slot ?q i + k) = 0xFF" if "i < 85" "k < 48" for i k
      using erase_done [OF e [unfolded True]] slot_in_page [OF that, of ?q] by simp
    have keep: "cells f' (slot ?q i + k) = cells f1 (slot ?q i + k)" if "i \<in> {1..<85}" "k < 48" for i k
      using writeRecord_frame [OF w] slots_apart [of ?q ?q i 0 k] rotatedPage_in that by force
    have frame: "cells f' x = cells f x" if "x \<notin> {?q..<?q + FLASH_PAGE_SIZE}" for x
      using erase_frame [OF e that] writeRecord_frame [OF w, of x] that
      by (auto simp: slot_def FLASH_PAGE_SIZE_def)
    show thesis
    proof (rule rotate [OF t m frame])
      show "readBytes f' (slot ?q 0) 48 = metadataBytes m" if "st = 0"
        using writeRecord_done [of "stampRecord f m0" "slot ?q 0" f1 m f'] w m that blank [of 0]
        by (simp add: isErasedRecord_iff)
      show "\<forall>i\<in>{1..<85}. isErasedRecord f' (slot ?q i)"
        using blank keep by (simp add: isErasedRecord_iff)
    qed
  qed
qed

lemma slot_kept:
  assumes "\<And>x. x \<notin> {slot p i..<slot p i + 48} \<Longrightarrow> cells f' x = cells f x"
    and "p \<in> journalPages" "i < 85" "q \<in> journalPages" "j < 85" "(q, j) \<noteq> (p, i)" "k < 48"
  shows "cells f' (slot q j + k) = cells f (slot q j + k)"
  using assms(1) slots_apart [OF assms(4,2,5,3,6,7)] by blast

lemma page_kept:
  assumes "\<And>x. x \<notin> {p..<p + FLASH_PAGE_SIZE} \<Longrightarrow> cells f' x = cells f x"
    and "p \<in> journalPages" "q \<in> journalPages" "q \<noteq> p" "j < 85" "k < 48"
  shows "cells f' (slot q j + k) = cells f (slot q j + k)"
  using assms(1) [of "slot q j + k"] pages_apart [OF assms(2,3)] slot_in_page [OF assms(5,6), of q]
    assms(4) by force

text \<open>A completed append is genuine.\<close>

lemma append_genuine:
  assumes "appendMetadataRecord drv m0 f = (0, m, f')"
  shows "genuine f f' (appendTarget f) m"
  using assms
proof (cases rule: append_effect)
  case (slot p i)
  have "recordAt f' (slot q j) = recordAt f (slot q j) \<and>
      isValidMetadataRecord f' (slot q j) = isValidMetadataRecord f (slot q j)"
    if "q \<in> journalPages" "j < 85" "(q, j) \<noteq> (p, i)" for q j
    using record_cong(1,3) [of f' "slot q j" f] slot_kept [OF slot(7,1,2)] that by simp
  then show ?thesis
    using slot(3,4,8) valid_metadataBytes(2) unfolding genuine_def by (metis prod.inject)
next
  case rotate
  let ?q = "rotatedPage f"
  have other: "recordAt f' (slot q j) = recordAt f (slot q j) \<and>
      isValidMetadataRecord f' (slot q j) = isValidMetadataRecord f (slot q j)"
    if "q \<in> journalPages" "j < 85" "q \<noteq> ?q" for q j
    using record_cong(1,3) [of f' "slot q j" f] page_kept [OF rotate(3) rotatedPage_in] that by simp
  have same: "\<not> isValidMetadataRecord f' (slot ?q j)" if "j < 85" "j \<noteq> 0" for j
    using rotate(5) erased_not_valid that by simp
  have new: "recordAt f' (slot ?q 0) = m" using rotate(2,4) valid_metadataBytes(2) by simp
  show ?thesis
    unfolding genuine_def using other same new rotate(1) by metis
qed

text \<open>The target is reached by the search, holds the new record when the append succeeds, and
  leaves the current record and its predecessors alone.\<close>

lemma append_target:
  assumes "appendMetadataRecord drv m0 f = (st, m, f')"
  obtains p i where "p \<in> journalPages" "i < 85" "appendTarget f = slot p i" "m = stampRecord f m0"
    "\<And>j. j < i \<Longrightarrow> \<not> isErasedRecord f' (slot p j)"
    "st = 0 \<Longrightarrow> isValidMetadataRecord f' (slot p i) \<and> recordAt f' (slot p i) = m"
    "\<And>K p0 i0 j k. journal K f p0 i0 \<Longrightarrow> K < 2 ^ 31 \<Longrightarrow> j \<le> i0 \<Longrightarrow> k < 48 \<Longrightarrow>
       cells f' (slot p0 j + k) = cells f (slot p0 j + k)"
    "\<And>K p0 i0. journal K f p0 i0 \<Longrightarrow> K < 2 ^ 31 \<Longrightarrow> (p, i) \<noteq> (p0, i0)"
  using assms
proof (cases rule: append_effect)
  case (slot p i)
  have before: "\<not> isErasedRecord f' (slot p j)" if "j < i" for j
    using record_cong(2) [of f' "slot p j" f] slot_kept [OF slot(7,1,2,1)] slot(2,6) that by simp
  have past: "p = p0 \<Longrightarrow> i0 < i" if "journal K f p0 i0" for K p0 i0
    using that slot(5) erased_not_valid unfolding journal_def by (metis linorder_neqE_nat)
  show thesis
  proof (rule that [OF slot(1-4) before])
    show "st = 0 \<Longrightarrow> isValidMetadataRecord f' (Journal.slot p i) \<and> recordAt f' (Journal.slot p i) = m"
      using slot(4,8) valid_metadataBytes by blast
    show "cells f' (Journal.slot p0 j + k) = cells f (Journal.slot p0 j + k)"
      if "journal K f p0 i0" "j \<le> i0" "k < 48" for K p0 i0 j k
      by (rule slot_kept [OF slot(7,1,2)]) (use that past [OF that(1)] in \<open>auto simp: journal_def\<close>)
    show "(p, i) \<noteq> (p0, i0)" if "journal K f p0 i0" for K p0 i0
      using past [OF that] by auto
  qed
next
  case rotate
  show thesis
  proof (rule that [OF rotatedPage_in _ rotate(1,2)])
    show "st = 0 \<Longrightarrow> isValidMetadataRecord f' (slot (rotatedPage f) 0) \<and>
        recordAt f' (slot (rotatedPage f) 0) = m"
      using rotate(2,4) valid_metadataBytes by blast
    show "cells f' (slot p0 j + k) = cells f (slot p0 j + k)"
      if "journal K f p0 i0" "K < 2 ^ 31" "j \<le> i0" "k < 48" for K p0 i0 j k
      by (rule page_kept [OF rotate(3) rotatedPage_in])
        (use that rotatedPage_other [OF that(1,2)] in \<open>auto simp: journal_def\<close>)
    show "(rotatedPage f, 0) \<noteq> (p0, i0)" if "journal K f p0 i0" "K < 2 ^ 31" for K p0 i0
      using rotatedPage_other [OF that] by auto
  qed simp_all
qed

end

section \<open>The invariant across an append\<close>

lemma journal_keep:
  assumes j: "journal K f p0 i0"
    and kept: "\<And>j k. j \<le> i0 \<Longrightarrow> k < 48 \<Longrightarrow> cells f' (slot p0 j + k) = cells f (slot p0 j + k)"
    and old: "\<And>p i. p \<in> journalPages \<Longrightarrow> i < 85 \<Longrightarrow> isValidMetadataRecord f' (slot p i) \<Longrightarrow>
       isValidMetadataRecord f (slot p i) \<and> recordAt f' (slot p i) = recordAt f (slot p i)"
  shows "journal K f' p0 i0" "recordAt f' (slot p0 i0) = recordAt f (slot p0 i0)"
proof -
  have same: "recordAt f' (slot p0 j) = recordAt f (slot p0 j)"
    "isErasedRecord f' (slot p0 j) = isErasedRecord f (slot p0 j)"
    "isValidMetadataRecord f' (slot p0 j) = isValidMetadataRecord f (slot p0 j)" if "j \<le> i0" for j
    using record_cong [of f' "slot p0 j" f] kept that by simp_all
  then show "recordAt f' (slot p0 i0) = recordAt f (slot p0 i0)" by simp
  have "age f' (slot p0 i0) (slot p i) = age f (slot p0 i0) (slot p i)"
    if "p \<in> journalPages" "i < 85" "isValidMetadataRecord f' (slot p i)" for p i
    using old [OF that] same(1) [of i0] by (simp add: age_def sequenceAt_def)
  then show "journal K f' p0 i0"
    using j same old unfolding journal_def by simp
qed

lemma len32: "LENGTH(32) = 32" by simp

lemma unat_next_age:
  fixes s0 s :: u32
  assumes "unat (s0 - s) \<le> K" "K < 2 ^ 31"
  shows "unat (s0 + 1 - s) = Suc (unat (s0 - s))"
proof -
  have "s0 + 1 - s = (s0 - s) + 1" by simp
  moreover have "unat (s0 - s) + 1 < 2 ^ 32" using assms by simp
  ultimately show ?thesis
    using unat_word_ariths(1) [of "s0 - s" 1] by (metis Suc_eq_plus1 len32 mod_less unat_1)
qed

lemma journal_new:
  assumes j: "journal K f p0 i0" and K: "K < 2 ^ 31"
    and new: "p \<in> journalPages" "i < 85" "isValidMetadataRecord f' (slot p i)"
      "\<And>j. j < i \<Longrightarrow> \<not> isErasedRecord f' (slot p j)"
      "sequenceAt f' (slot p i) = sequenceAt f (slot p0 i0) + 1"
    and old: "\<And>q j. q \<in> journalPages \<Longrightarrow> j < 85 \<Longrightarrow> (q, j) \<noteq> (p, i) \<Longrightarrow>
       isValidMetadataRecord f' (slot q j) \<Longrightarrow>
       isValidMetadataRecord f (slot q j) \<and> recordAt f' (slot q j) = recordAt f (slot q j)"
  shows "journal (Suc K) f' p i"
proof -
  have "age f' (slot p i) (slot q j) \<in> {1..Suc K}"
    if q: "q \<in> journalPages" "j < 85" "(q, j) \<noteq> (p, i)" "isValidMetadataRecord f' (slot q j)" for q j
  proof -
    note o = old [OF q]
    have "unat (sequenceAt f (slot p0 i0) - sequenceAt f (slot q j)) \<le> K"
      using j q o unfolding journal_def by (cases "(q, j) = (p0, i0)") (auto simp: age_def)
    from unat_next_age [OF this K] this o show ?thesis
      by (simp add: age_def new(5)) (simp add: sequenceAt_def)
  qed
  with new show ?thesis by (simp add: journal_def)
qed

lemma journal_first:
  assumes "p \<in> journalPages" "i < 85" "isValidMetadataRecord f' (slot p i)"
    "\<And>j. j < i \<Longrightarrow> \<not> isErasedRecord f' (slot p j)"
    "\<And>q j. q \<in> journalPages \<Longrightarrow> j < 85 \<Longrightarrow> (q, j) \<noteq> (p, i) \<Longrightarrow> \<not> isValidMetadataRecord f' (slot q j)"
  shows "journal K f' p i"
  using assms by (auto simp: journal_def)

lemma journal_mono: "journal K f p i \<Longrightarrow> K \<le> K' \<Longrightarrow> journal K' f p i"
  unfolding journal_def by fastforce

lemma stampRecord_sequence:
  "journal K f p i \<Longrightarrow> K < 2 ^ 31 \<Longrightarrow>
   sequenceNumber (stampRecord f m) = sequenceAt f (slot p i) + 1"
  by (simp add: stampRecord_def Let_def journal_find)

lemma journal_ok_mono: "journal_ok K f \<Longrightarrow> K \<le> K' \<Longrightarrow> journal_ok K' f"
  unfolding journal_ok_def using journal_mono by blast

text \<open>The fields the caller of an append decides.\<close>

definition payload :: "BootMetadata \<Rightarrow> u32 list" where
  "payload m = [state m, imageSize m, imageCrc32 m, firmwareVersion m, appRole m,
     unconfirmedBootCount m, bootAttemptId m, confirmedBootAttemptId m]"

lemma payload_stampRecord [simp]: "payload (stampRecord f m) = payload m"
  by (simp add: payload_def stampRecord_def Let_def)

context nor_flash
begin

lemma append_stays_or_advances:
  assumes ok: "journal_ok K f" and K: "K < 2 ^ 31 - 1"
    and app: "appendMetadataRecord drv m0 f = (st, m, f')"
    and gen: "genuine f f' (appendTarget f) m"
  shows "readBootMetadata f' = Some m \<and> journal_ok (Suc K) f' \<or>
    st \<noteq> 0 \<and> readBootMetadata f' = readBootMetadata f \<and> journal_ok (Suc K) f'"
proof -
  have K': "K < 2 ^ 31" "Suc K < 2 ^ 31" using K by simp_all
  from app obtain p i where t: "p \<in> journalPages" "i < 85" "appendTarget f = slot p i"
    and m: "m = stampRecord f m0" and before: "\<And>j. j < i \<Longrightarrow> \<not> isErasedRecord f' (slot p j)"
    and fin: "st = 0 \<Longrightarrow> isValidMetadataRecord f' (slot p i) \<and> recordAt f' (slot p i) = m"
    and kept: "\<And>K p0 i0 j k. journal K f p0 i0 \<Longrightarrow> K < 2 ^ 31 \<Longrightarrow> j \<le> i0 \<Longrightarrow> k < 48 \<Longrightarrow>
       cells f' (slot p0 j + k) = cells f (slot p0 j + k)"
    by (rule append_target) blast
  have old: "isValidMetadataRecord f (slot q j) \<and> recordAt f' (slot q j) = recordAt f (slot q j)"
    if "q \<in> journalPages" "j < 85" "isValidMetadataRecord f' (slot q j)"
      "\<not> ((q, j) = (p, i) \<and> recordAt f' (slot p i) = m)" for q j
    using gen that slot_inj [OF that(1) t(1) that(2) t(2)] t(3) unfolding genuine_def by metis
  show ?thesis
  proof (cases "isValidMetadataRecord f' (slot p i) \<and> recordAt f' (slot p i) = m")
    case True
    have "journal (Suc K) f' p i"
    proof (cases "emptyJournal f")
      case True
      with old have "\<not> isValidMetadataRecord f' (slot q j)"
        if "q \<in> journalPages" "j < 85" "(q, j) \<noteq> (p, i)" for q j
        using that by (auto simp: emptyJournal_def)
      with t before \<open>_ \<and> _\<close> show ?thesis by (intro journal_first) auto
    next
      case False
      with ok obtain p0 i0 where j: "journal K f p0 i0" by (auto simp: journal_ok_def)
      show ?thesis
        by (rule journal_new [OF j K'(1) t(1,2) _ before])
          (use True m stampRecord_sequence [OF j K'(1)] old in \<open>auto simp: sequenceAt_def\<close>)
    qed
    with journal_read [OF this K'(2)] True show ?thesis by (auto simp: journal_ok_def)
  next
    case False
    then have st: "st \<noteq> 0" using fin by blast
    show ?thesis
    proof (cases "emptyJournal f")
      case True
      with old False have "emptyJournal f'" by (auto simp: emptyJournal_def)
      with True st show ?thesis by (simp add: empty_read journal_ok_def)
    next
      case False
      with ok obtain p0 i0 where j: "journal K f p0 i0" by (auto simp: journal_ok_def)
      have "journal K f' p0 i0" "recordAt f' (slot p0 i0) = recordAt f (slot p0 i0)"
        using journal_keep [OF j kept [OF j K'(1)]] old
          \<open>\<not> (isValidMetadataRecord f' (slot p i) \<and> recordAt f' (slot p i) = m)\<close> by blast+
      with j st journal_mono [of K f' p0 i0 "Suc K"] journal_read [OF _ K'(1)] show ?thesis
        by (metis journal_ok_def le_SucI order_refl)
    qed
  qed
qed

text \<open>The checksum is programmed last: an interrupted write of a free slot is no valid record,
  unless the torn body has by accident the checksum of blank flash.\<close>

lemma torn_write:
  assumes w: "writeRecord drv m a f = (st, m', f')" and er: "isErasedRecord f a"
    and m: "m = stampRecord g m0"
    and coll: "calculateCrc32 (readBytes f' a 44) = 0xFFFFFFFF \<Longrightarrow> readBytes f' a 44 = metadataBody m"
    and valid: "isValidMetadataRecord f' a"
  shows "recordAt f' a = m"
proof -
  let ?crc = "readBytes f' (a + 44) 4"
  have parts: "readBytes f' a 48 = readBytes f' a 44 @ ?crc"
    using readBytes_append [of f' a 44 4] by simp
  have crc: "loadUint32Le ?crc = calculateCrc32 (readBytes f' a 44)"
    using valid by (simp add: isValidMetadataRecord_def recordAt_def metadataOf_def parts)
  have body: "readBytes f' a 44 = metadataBody m"
  proof (cases "fst (FlashProgram drv (metadataBody m) a f) = 0")
    case True
    with w obtain f1 st2 where p: "FlashProgram drv (metadataBody m) a f = (0, f1)"
      and q: "FlashProgram drv (storeUint32Le (recordCrc32 m)) (a + 44) f1 = (st2, f')"
      by (auto simp: writeRecord_def add.commute split: prod.splits if_splits)
    have "readBytes f' a 44 = readBytes f1 a 44"
      by (rule readBytes_cong) (use program_frame [OF q] in auto)
    with program_erased [OF p] er show ?thesis by (simp add: isErasedRecord_iff)
  next
    case False
    with w have p: "FlashProgram drv (metadataBody m) a f = (fst (FlashProgram drv (metadataBody m) a f), f')"
      by (auto simp: writeRecord_def split: prod.splits if_splits)
    have "cells f' (a + 44 + i) = 0xFF" if "i < 4" for i
      using program_frame [OF p, of "a + 44 + i"] er that by (simp add: isErasedRecord_iff add.assoc)
    then have "readUint32 f' (a + 44) = NOT 0" by (simp only: readUint32_ones) blast
    with crc coll show ?thesis by (simp add: readUint32_def)
  qed
  from whole_record [OF valid body m] show ?thesis .
qed

lemma torn_genuine:
  assumes app: "appendMetadataRecord drv m0 f = (st, m, f')"
    and free: "findWritableRecord f [METADATA_PAGE_PRIMARY, METADATA_PAGE_SECONDARY] = Some a"
    and coll: "calculateCrc32 (readBytes f' a 44) = 0xFFFFFFFF \<Longrightarrow> readBytes f' a 44 = metadataBody m"
  shows "genuine f f' (appendTarget f) m"
proof -
  from free obtain p i where t: "p \<in> journalPages" "i < 85" "a = slot p i" "isErasedRecord f a"
    by (rule findWritableRecord_SomeD) blast
  from app free have w: "writeRecord drv (stampRecord f m0) a f = (st, m, f')"
    by (simp add: appendMetadataRecord_def Let_def)
  then have m: "m = stampRecord f m0" by (auto simp: writeRecord_def split: prod.splits if_splits)
  have new: "isValidMetadataRecord f' a \<Longrightarrow> recordAt f' a = m"
    using torn_write [OF w t(4) refl] coll m by blast
  have old: "isValidMetadataRecord f' (slot q j) = isValidMetadataRecord f (slot q j)"
    "recordAt f' (slot q j) = recordAt f (slot q j)"
    if "q \<in> journalPages" "j < 85" "(q, j) \<noteq> (p, i)" for q j
    using record_cong(1,3) [of f' "slot q j" f] writeRecord_frame [OF w]
      slot_kept [of p i f' f q j] t that by simp_all
  have "appendTarget f = a" using free by (simp add: appendTarget_def)
  then show ?thesis
    unfolding genuine_def using old new t(3) by (metis prod.inject)
qed

lemma rotate_genuine:
  assumes app: "appendMetadataRecord drv m0 f = (st, m, f')"
    and full: "findWritableRecord f [METADATA_PAGE_PRIMARY, METADATA_PAGE_SECONDARY] = None"
    and crc: "noCrcAccident f f' m"
  shows "genuine f f' (appendTarget f) m"
  using app
proof (cases rule: append_effect)
  case (slot p i)
  with findWritableRecord_NoneD [OF full] show ?thesis by blast
next
  case rotate
  let ?q = "rotatedPage f"
  have other: "recordAt f' (slot q j) = recordAt f (slot q j) \<and>
      isValidMetadataRecord f' (slot q j) = isValidMetadataRecord f (slot q j)"
    if "q \<in> journalPages" "j < 85" "q \<noteq> ?q" for q j
    using record_cong(1,3) [of f' "slot q j" f] page_kept [OF rotate(3) rotatedPage_in] that by simp
  have same: "slot ?q j = slot ?q 0 \<and> recordAt f' (slot ?q j) = m \<or>
      isValidMetadataRecord f (slot ?q j) \<and> recordAt f' (slot ?q j) = recordAt f (slot ?q j)"
    if "j < 85" "isValidMetadataRecord f' (slot ?q j)" for j
  proof -
    from crc full that(1) valid_matchesOwnCrc [OF that(2)]
    consider "readBytes f' (slot ?q j) 48 = readBytes f (slot ?q j) 48"
      | "j = 0" "readBytes f' (slot ?q j) 44 = metadataBody m"
      by (auto simp: noCrcAccident_def Let_def)
    then show ?thesis
    proof cases
      case 1
      then have "readBytes f' (slot ?q j) 44 = readBytes f (slot ?q j) 44"
        using take_readBytes [of 44 48 f' "slot ?q j"] take_readBytes [of 44 48 f "slot ?q j"] by simp
      with 1 that(2) show ?thesis by (simp add: isValidMetadataRecord_def recordAt_def)
    next
      case 2
      with whole_record [OF that(2) 2(2) rotate(2)] show ?thesis by simp
    qed
  qed
  show ?thesis unfolding genuine_def
  proof (intro ballI allI impI)
    fix q j assume q: "q \<in> journalPages" "j < 85" "isValidMetadataRecord f' (slot q j)"
    show "slot q j = appendTarget f \<and> recordAt f' (slot q j) = m \<or>
        isValidMetadataRecord f (slot q j) \<and> recordAt f' (slot q j) = recordAt f (slot q j)"
    proof (cases "q = ?q")
      case True
      with q same [of j] rotate(1) show ?thesis by simp
    next
      case False
      with q other [of q j] show ?thesis by simp
    qed
  qed
qed

lemma append_is_genuine:
  assumes "appendMetadataRecord drv m0 f = (st, m, f')" "st \<noteq> 0 \<longrightarrow> noCrcAccident f f' m"
  shows "genuine f f' (appendTarget f) m"
proof (cases "st = 0")
  case True
  with append_genuine assms(1) show ?thesis by blast
next
  case False
  with assms(2) have crc: "noCrcAccident f f' m" by blast
  show ?thesis
  proof (cases "findWritableRecord f [METADATA_PAGE_PRIMARY, METADATA_PAGE_SECONDARY]")
    case None
    from rotate_genuine [OF assms(1) this crc] show ?thesis .
  next
    case (Some a)
    with crc have "calculateCrc32 (readBytes f' a 44) = 0xFFFFFFFF \<Longrightarrow> readBytes f' a 44 = metadataBody m"
      by (simp add: noCrcAccident_def)
    from torn_genuine [OF assms(1) Some this] show ?thesis .
  qed
qed

lemma append_payload_kept:
  "appendMetadataRecord drv m0 f = (st, m, f') \<Longrightarrow> payload m = payload m0"
  by (erule append_target) simp

lemma append_frame:
  assumes "appendMetadataRecord drv m0 f = (st, m, f')" "x \<notin> {METADATA_PAGE_PRIMARY..<0x8000}"
  shows "cells f' x = cells f x"
  using assms(1)
proof (cases rule: append_effect)
  case (slot p i)
  have "p \<in> {0x6000, 0x7000}" using slot(1) by (auto simp: journalPages_def metadata_consts)
  with slot_in_page [OF slot(2), of 0 p] slot_in_page [OF slot(2), of 47 p]
  show ?thesis using slot(7) [of x] assms(2) by (auto simp: metadata_consts)
next
  case rotate
  with rotatedPage_in [of f] assms(2) show ?thesis
    by (auto simp: journalPages_def metadata_consts)
qed

end

section \<open>The journal as a persistent register\<close>

text \<open>What the boot manager needs from its metadata store: a completed append is what the next read
  returns, and the store keeps its well-formedness for \<open>K\<close> up to its capacity.\<close>

locale metadata_register =
  fixes read :: "'s \<Rightarrow> BootMetadata option"
    and append :: "BootMetadata \<Rightarrow> 's \<Rightarrow> int \<times> BootMetadata \<times> 's"
    and ok :: "nat \<Rightarrow> 's \<Rightarrow> bool"
    and capacity :: nat
  assumes append_read: "ok K s \<Longrightarrow> K < capacity \<Longrightarrow> append m s = (0, m', s') \<Longrightarrow>
      read s' = Some m' \<and> ok (Suc K) s'"
    and append_payload: "append m s = (st, m', s') \<Longrightarrow> payload m' = payload m"
begin

fun updates :: "(BootMetadata \<Rightarrow> BootMetadata) list \<Rightarrow> BootMetadata \<Rightarrow> 's \<Rightarrow> (BootMetadata \<times> 's) option" where
  "updates [] m s = Some (m, s)"
| "updates (g # gs) m s =
     (case append (g m) s of (st, m', s') \<Rightarrow> if st = 0 then updates gs m' s' else None)"

text \<open>A run of read-modify-append cycles, each of which starts from what the previous one left.\<close>

lemma updates_read:
  assumes "updates gs m s = Some (m', s')" "ok K s" "K + length gs < capacity" "read s = Some m"
  shows "read s' = Some m' \<and> ok (K + length gs) s'"
  using assms
proof (induction gs arbitrary: m s K)
  case (Cons g gs)
  from Cons.prems(1) obtain m1 s1 where a: "append (g m) s = (0, m1, s1)"
    and u: "updates gs m1 s1 = Some (m', s')" by (auto split: prod.splits if_splits)
  from append_read [OF Cons.prems(2) _ a] Cons.prems(3)
  have "read s1 = Some m1" "ok (Suc K) s1" by simp_all
  with Cons.IH [OF u, of "Suc K"] Cons.prems(3) show ?case by simp
qed simp

lemma update_read:
  assumes "append (g m) s = (0, m', s')" "ok K s" "K < capacity"
  shows "read s' = Some m'" "payload m' = payload (g m)" "ok (Suc K) s'"
  using append_read [OF assms(2,3,1)] append_payload [OF assms(1)] by auto

end

sublocale nor_flash \<subseteq> journal_register: metadata_register readBootMetadata
  "appendMetadataRecord drv" journal_ok "2 ^ 31 - 1"
proof
  fix K f m m' f'
  assume "journal_ok K f" "K < 2 ^ 31 - 1" "appendMetadataRecord drv m f = (0, m', f')"
  with append_stays_or_advances [OF this append_genuine]
  show "readBootMetadata f' = Some m' \<and> journal_ok (Suc K) f'" by blast
next
  fix m f st m' f'
  assume "appendMetadataRecord drv m f = (st, m', f')"
  then show "payload m' = payload m" by (rule append_payload_kept)
qed

section \<open>Properties\<close>

text \<open>Flash as delivered: every cell erased, and a driver that succeeds \<open>n\<close> times.\<close>

definition blankFlash :: "nat \<Rightarrow> flash" where
  "blankFlash n = \<lparr>cells = (\<lambda>_. 0xFF), controller = n\<rparr>"

lemma blank_erased [simp]: "isErasedRecord (blankFlash n) a"
  by (simp add: isErasedRecord_iff blankFlash_def)

lemma blank_ok [simp]: "journal_ok K (blankFlash n)"
  by (simp add: journal_ok_def emptyJournal_def erased_not_valid)

lemma blank_first [simp]: "findFirstErasedRecord (blankFlash n) p = Some 0"
  by (simp add: findFirstErasedRecord_def upt_conv_Cons)

lemma blank_writable:
  "findWritableRecord (blankFlash n) [METADATA_PAGE_PRIMARY, METADATA_PAGE_SECONDARY] =
   Some METADATA_PAGE_PRIMARY"
  by simp

lemma writeRecord_countdown:
  "fst (writeRecord countdown_driver m a (f\<lparr>controller := Suc (Suc n)\<rparr>)) = 0"
  by (simp add: writeRecord_def countdown_driver_def)

lemma blankFlash_controller: "blankFlash n = (blankFlash 0)\<lparr>controller := n\<rparr>"
  by (simp add: blankFlash_def)

lemma append_blank: "fst (appendMetadataRecord countdown_driver m (blankFlash (Suc (Suc n)))) = 0"
  using writeRecord_countdown [where f = "blankFlash 0"]
  by (simp add: appendMetadataRecord_def Let_def flip: blankFlash_controller)

text \<open>A journal in which no slot is free: one current record, and every other cell programmed.\<close>

definition fullFlash :: flash where
  "fullFlash = \<lparr>cells = (\<lambda>x. if METADATA_PAGE_PRIMARY \<le> x \<and> x < METADATA_PAGE_PRIMARY + 48
       then metadataBytes (stampRecord (blankFlash 0) setDefaultMetadata) ! (x - METADATA_PAGE_PRIMARY) else 0),
     controller = 0\<rparr>"

lemma full_zero:
  assumes "p \<in> journalPages" "i < 85" "(p, i) \<noteq> (METADATA_PAGE_PRIMARY, 0)" "k < 48"
  shows "cells fullFlash (slot p i + k) = 0"
  using slots_apart [OF assms(1) pages_in(1) assms(2) _ assms(3,4)]
  by (auto simp: fullFlash_def slot_def)

lemma full_current:
  "isValidMetadataRecord fullFlash (slot METADATA_PAGE_PRIMARY 0)"
  "recordAt fullFlash (slot METADATA_PAGE_PRIMARY 0) = stampRecord (blankFlash 0) setDefaultMetadata"
proof -
  have "readBytes fullFlash (slot METADATA_PAGE_PRIMARY 0) 48 =
      metadataBytes (stampRecord (blankFlash 0) setDefaultMetadata)"
    by (simp add: readBytes_eq_iff slot_def fullFlash_def)
  note valid_metadataBytes [OF this]
  then show "isValidMetadataRecord fullFlash (slot METADATA_PAGE_PRIMARY 0)"
    "recordAt fullFlash (slot METADATA_PAGE_PRIMARY 0) = stampRecord (blankFlash 0) setDefaultMetadata" by simp_all
qed

lemma zero_not_valid:
  assumes "\<And>k. k < 48 \<Longrightarrow> cells f (a + k) = 0"
  shows "\<not> isErasedRecord f a" "\<not> isValidMetadataRecord f a"
proof -
  show "\<not> isErasedRecord f a" using assms [of 0] unfolding isErasedRecord_iff by force
  have "readBytes f a 48 = replicate 48 0" using assms by (simp add: readBytes_eq_iff)
  then show "\<not> isValidMetadataRecord f a"
    by (simp add: isValidMetadataRecord_def recordAt_def metadataOf_def METADATA_MAGIC_def
        replicate_numeral loadUint32Le_def)
qed

lemma full_journal: "journal 0 fullFlash METADATA_PAGE_PRIMARY 0"
  using zero_not_valid(2) full_zero full_current(1) by (auto simp: journal_def)

lemma full_writable: "findWritableRecord fullFlash [METADATA_PAGE_PRIMARY, METADATA_PAGE_SECONDARY] = None"
proof (rule ccontr)
  assume "findWritableRecord fullFlash [METADATA_PAGE_PRIMARY, METADATA_PAGE_SECONDARY] \<noteq> None"
  then obtain a where "findWritableRecord fullFlash [METADATA_PAGE_PRIMARY, METADATA_PAGE_SECONDARY] = Some a" by blast
  then obtain p i where e: "p \<in> journalPages" "i < 85" "isErasedRecord fullFlash (slot p i)"
    by (rule findWritableRecord_SomeD) blast
  show False
  proof (cases "(p, i) = (METADATA_PAGE_PRIMARY, 0)")
    case True
    with e full_current(1) erased_not_valid show ?thesis by blast
  next
    case False
    with e zero_not_valid(1) [OF full_zero [OF e(1,2) False]] show ?thesis by blast
  qed
qed

lemma full_rotated: "rotatedPage fullFlash = METADATA_PAGE_SECONDARY"
  using journal_find [OF full_journal] by (simp add: rotatedPage_def slot_def metadata_consts)

lemma full_erase:
  "FlashSectorErase countdown_driver METADATA_PAGE_SECONDARY fullFlash =
     (1, fullFlash\<lparr>cells := eraseCells 0x7000 0x800 (cells fullFlash)\<rparr>)"
  by (simp add: countdown_driver_def METADATA_PAGE_SECONDARY_def FLASH_PAGE_SIZE_def) (simp add: fullFlash_def)

lemma full_append:
  "appendMetadataRecord countdown_driver m0 fullFlash =
     (-1, stampRecord fullFlash m0, fullFlash\<lparr>cells := eraseCells 0x7000 0x800 (cells fullFlash)\<rparr>)"
  by (simp add: appendMetadataRecord_def full_writable full_rotated full_erase Let_def
      del: findWritableRecord.simps)

text \<open>The erase of the second page is interrupted in the middle: the slots 0 to 41 are blank, slot 42 is
  half blank, and the others are as they were. None of them carries its own checksum.\<close>

lemma half_erased:
  assumes "appendMetadataRecord countdown_driver m0 fullFlash = (st, m, f')"
  shows "st = -1" "noCrcAccident fullFlash f' m"
proof -
  have a: "st = -1" "f' = fullFlash\<lparr>cells := eraseCells 0x7000 0x800 (cells fullFlash)\<rparr>"
    using assms unfolding full_append by simp_all
  then show "st = -1" by simp
  have z: "cells fullFlash (slot 0x7000 i + k) = 0" if "i < 85" "k < 48" for i k
    using full_zero [of "0x7000" i k] that by (simp add: journalPages_def metadata_consts)
  have c: "cells f' (slot 0x7000 i + k) = (if i * 48 + k < 0x800 then 0xFF else 0)" if "i < 85" "k < 48" for i k
    using z [OF that] a(2) by (simp add: eraseCells_def slot_def)
  have crc: "calculateCrc32 (replicate 44 0xFF) \<noteq> 0xFFFFFFFF"
    "calculateCrc32 (replicate 32 0xFF @ replicate 12 0) \<noteq> 0"
    by (simp_all add: crc_eval replicate_numeral)
  have "readBytes f' (slot 0x7000 i) 48 = readBytes fullFlash (slot 0x7000 i) 48 \<or> \<not> matchesOwnCrc f' (slot 0x7000 i)"
    if i: "i < 85" for i
  proof -
    consider "i < 42" | "i = 42" | "i > 42" by linarith
    then show ?thesis
    proof cases
      case 1
      then have "readBytes f' (slot 0x7000 i) 44 = replicate 44 0xFF" "readUint32 f' (slot 0x7000 i + 44) = NOT 0"
        unfolding readUint32_ones using c i by (simp_all add: readBytes_eq_iff add.assoc)
      moreover have "(NOT 0 :: u32) = 0xFFFFFFFF" by simp
      ultimately show ?thesis using crc(1) unfolding matchesOwnCrc_def by metis
    next
      case 2
      then have "readBytes f' (slot 0x7000 i) 44 = replicate 32 0xFF @ replicate 12 0"
        "readBytes f' (slot 0x7000 i + 44) 4 = [0, 0, 0, 0]"
        using c by (simp_all add: readBytes_eq_iff nth_append add.assoc nth_Cons')
      with crc(2) show ?thesis by (simp add: matchesOwnCrc_def readUint32_def loadUint32Le_def)
    next
      case 3
      then have "readBytes f' (slot 0x7000 i) 48 = readBytes fullFlash (slot 0x7000 i) 48"
        using c z i by (intro readBytes_cong) simp
      then show ?thesis ..
    qed
  qed
  then show "noCrcAccident fullFlash f' m"
    unfolding noCrcAccident_def full_writable full_rotated
    by (auto simp: METADATA_PAGE_SECONDARY_def Let_def)
qed

text \<open>C1. Appending a metadata record is atomic. Whatever the flash driver does within its contract
  (a failing erase or write, or a power loss, may leave the touched range half done), the next
  read of the journal returns the record it returned before or the complete new record, and the
  new one if the append reports success; the journal stays well formed. An append that fails has
  one premise: bytes that were left half done do not carry their own CRC-32 by accident (a torn
  body in a free slot must not have the CRC of a blank field, a half-erased slot of a rotated
  page must not match its CRC field). It is proved for free slots and for the rotation of a page.\<close>

theorem append_atomic:
  assumes "nor_flash drv" "journal_ok K f" "K < 2 ^ 31 - 1"
    and "appendMetadataRecord drv metadata f = (status, m, f')"
    and "status \<noteq> 0 \<longrightarrow> noCrcAccident f f' m"
  shows "readBootMetadata f' \<in> {readBootMetadata f, Some m} \<and>
    (status = 0 \<longrightarrow> readBootMetadata f' = Some m) \<and> journal_ok (Suc K) f'"
  using nor_flash.append_stays_or_advances [OF assms(1-4) nor_flash.append_is_genuine [OF assms(1,4,5)]]
  by auto

text \<open>The append whose page erase is interrupted half-way.\<close>

theorem append_atomic_witness:
  "case appendMetadataRecord countdown_driver setDefaultMetadata fullFlash of
     (status, m, f') \<Rightarrow> status = -1 \<and> cells f' 0x7000 \<noteq> cells fullFlash 0x7000 \<and>
       readBootMetadata f' \<in> {Some (stampRecord (blankFlash 0) setDefaultMetadata), Some m} \<and> journal_ok 1 f'"
proof -
  obtain st m f' where a: "appendMetadataRecord countdown_driver setDefaultMetadata fullFlash = (st, m, f')"
    by (metis prod_cases3)
  have ok: "journal_ok 0 fullFlash" using full_journal by (auto simp: journal_ok_def)
  have "f' = fullFlash\<lparr>cells := eraseCells 0x7000 0x800 (cells fullFlash)\<rparr>"
    using a unfolding full_append by simp
  then have "cells f' 0x7000 \<noteq> cells fullFlash 0x7000"
    by (simp add: eraseCells_def) (simp add: fullFlash_def METADATA_PAGE_PRIMARY_def)
  with append_atomic [OF countdown.nor_flash_axioms ok _ a] half_erased [OF a] a
    journal_read [OF full_journal] full_current(2)
  show ?thesis by simp
qed


text \<open>The same append, interrupted in the middle of the checksum.\<close>

lemma torn_blank:
  assumes "appendMetadataRecord countdown_driver metadata (blankFlash 1) = (status, m, f')"
  shows "status = -1" "readBytes f' METADATA_PAGE_PRIMARY 44 = metadataBody m"
proof -
  from assms have "writeRecord countdown_driver (stampRecord (blankFlash 1) metadata)
      METADATA_PAGE_PRIMARY (blankFlash 1) = (status, m, f')"
    by (simp add: appendMetadataRecord_def Let_def)
  then show "status = -1" "readBytes f' METADATA_PAGE_PRIMARY 44 = metadataBody m"
    by (auto simp: writeRecord_def countdown_driver_def blankFlash_def programCells_def
        readBytes_eq_iff)
qed


end
