(* ===== verification/Boot_Decision.thy ===== *)
theory Boot_Decision
  imports Journal
begin

text \<open>
  The boot decision of \<open>bootloader.c\<close>: image validation, \<open>mainThread\<close> up to the application handoff,
  and the processor state \<open>startApplication\<close> establishes. \<open>runFirmwareUpdate\<close> never returns, so a
  call of it ends the decision; the update loop itself is modelled in its own theory.
\<close>

section \<open>Constants and data\<close>

definition APPLICATION_FLASH_START :: nat where "APPLICATION_FLASH_START = 0x8000"
definition APPLICATION_FLASH_END :: nat where "APPLICATION_FLASH_END = 0x1F000"
definition APPLICATION_RAM_START :: u32 where "APPLICATION_RAM_START = 0x20000000"
definition APPLICATION_RAM_END :: u32 where "APPLICATION_RAM_END = 0x20005000"
definition BOOT_HANDOFF_MAGIC :: u32 where "BOOT_HANDOFF_MAGIC = 0x484E4446"
definition BOOT_FAILURE_LIMIT :: u32 where "BOOT_FAILURE_LIMIT = 3"

lemmas application_consts = APPLICATION_FLASH_START_def APPLICATION_FLASH_END_def
  APPLICATION_RAM_START_def APPLICATION_RAM_END_def

record BootHandoff =
  handoffMagic :: u32
  handoffBootAttemptId :: u32
  handoffAppRole :: u32

datatype boot_outcome = Halted | RunFirmwareUpdate BootMetadata | StartApplication BootHandoff

section \<open>Image validation and the decision\<close>

definition isApplicationImageValid :: "flash \<Rightarrow> BootMetadata \<Rightarrow> bool" where
  "isApplicationImageValid f metadata \<longleftrightarrow>
     (let vector0 = readUint32 f APPLICATION_FLASH_START;
          vector1 = readUint32 f (APPLICATION_FLASH_START + 4) in
      imageSize metadata \<noteq> 0 \<and>
      imageSize metadata \<le> of_nat (APPLICATION_FLASH_END - APPLICATION_FLASH_START) \<and>
      vector0 \<ge> APPLICATION_RAM_START \<and> vector0 < APPLICATION_RAM_END \<and>
      vector1 AND 1 \<noteq> 0 \<and> vector1 \<ge> of_nat APPLICATION_FLASH_START \<and>
      vector1 < of_nat APPLICATION_FLASH_END \<and>
      calculateCrc32 (readBytes f APPLICATION_FLASH_START (unat (imageSize metadata))) =
        imageCrc32 metadata)"

text \<open>The result of \<open>UART_open\<close> is a parameter: without a UART the thread halts.
  The metadata \<open>mainThread\<close> works on, the condition under which it calls \<open>runFirmwareUpdate\<close>
  first, and the two counters it advances before the handoff.\<close>

definition bootMetadata :: "flash \<Rightarrow> BootMetadata" where
  "bootMetadata f = (case readBootMetadata f of None \<Rightarrow> setDefaultMetadata | Some m \<Rightarrow> m)"

definition mustUpdate :: "flash \<Rightarrow> BootMetadata \<Rightarrow> bool" where
  "mustUpdate f metadata \<longleftrightarrow>
     state metadata \<noteq> BOOT_STATE_VALID_APPLICATION \<or>
     unconfirmedBootCount metadata \<ge> BOOT_FAILURE_LIMIT \<or>
     \<not> isApplicationImageValid f metadata"

definition countAttempt :: "BootMetadata \<Rightarrow> BootMetadata" where
  "countAttempt metadata = metadata
     \<lparr>unconfirmedBootCount := unconfirmedBootCount metadata + 1,
      bootAttemptId := bootAttemptId metadata + 1\<rparr>"

definition mainThread :: "flash_driver \<Rightarrow> bool \<Rightarrow> flash \<Rightarrow> boot_outcome \<times> flash" where
  "mainThread drv updateUart f =
     (let metadata = bootMetadata f in
      if \<not> updateUart then (Halted, f)
      else if mustUpdate f metadata then (RunFirmwareUpdate metadata, f)
      else case appendMetadataRecord drv (countAttempt metadata) f of (st, m, f') \<Rightarrow>
        if st \<noteq> 0 then (RunFirmwareUpdate m, f')
        else (StartApplication \<lparr>handoffMagic = BOOT_HANDOFF_MAGIC,
                handoffBootAttemptId = bootAttemptId m, handoffAppRole = appRole m\<rparr>, f'))"

section \<open>The handoff\<close>

text \<open>The processor and peripheral state \<open>startApplication\<close> touches. \<open>NVIC_DISn\<close> and \<open>NVIC_UNPENDn\<close> are
  write-one-to-clear registers of the enable and pending bits.\<close>

record cpu =
  bootDebugWord :: u32
  uartOpen :: bool
  primask :: bool
  sysTickCtrl :: u32
  nvicEnabled :: "u32 \<times> u32"
  nvicPending :: "u32 \<times> u32"
  vtable :: u32
  sp :: u32
  pc :: u32

definition startApplication :: "flash \<Rightarrow> cpu \<Rightarrow> cpu" where
  "startApplication f c =
     (let c = c\<lparr>bootDebugWord := 1\<rparr>;
          c = c\<lparr>uartOpen := False\<rparr>;
          c = c\<lparr>bootDebugWord := 2\<rparr>;
          c = c\<lparr>primask := True\<rparr>;
          c = c\<lparr>sysTickCtrl := 0\<rparr>;
          c = c\<lparr>nvicEnabled := (fst (nvicEnabled c) AND NOT 0xFFFFFFFF, snd (nvicEnabled c))\<rparr>;
          c = c\<lparr>nvicEnabled := (fst (nvicEnabled c), snd (nvicEnabled c) AND NOT 0xFFFFFFFF)\<rparr>;
          c = c\<lparr>nvicPending := (fst (nvicPending c) AND NOT 0xFFFFFFFF, snd (nvicPending c))\<rparr>;
          c = c\<lparr>nvicPending := (fst (nvicPending c), snd (nvicPending c) AND NOT 0xFFFFFFFF)\<rparr>;
          c = c\<lparr>vtable := of_nat APPLICATION_FLASH_START\<rparr>;
          c = c\<lparr>bootDebugWord := 3\<rparr>;
          c = c\<lparr>primask := False\<rparr>;
          r0 = readUint32 f 0x8000;
          r1 = readUint32 f (0x8000 + 4);
          c = c\<lparr>sp := r0\<rparr>
      in c\<lparr>pc := r1\<rparr>)"

section \<open>Lemmas\<close>

lemma image_cong:
  assumes "\<And>x. x \<ge> APPLICATION_FLASH_START \<Longrightarrow> cells f' x = cells f x"
  shows "isApplicationImageValid f' m = isApplicationImageValid f m"
proof -
  have "readBytes f' a n = readBytes f a n" if "a \<ge> APPLICATION_FLASH_START" for a n
    by (rule readBytes_cong) (use assms that in simp)
  then show ?thesis by (simp add: isApplicationImageValid_def readUint32_def)
qed

lemma image_payload:
  "payload m = payload m' \<Longrightarrow> isApplicationImageValid f m = isApplicationImageValid f m'"
  by (simp add: payload_def isApplicationImageValid_def)

lemma payload_fields:
  assumes "payload m = payload m'"
  shows "state m = state m'" "unconfirmedBootCount m = unconfirmedBootCount m'"
    "bootAttemptId m = bootAttemptId m'" "confirmedBootAttemptId m = confirmedBootAttemptId m'"
    "appRole m = appRole m'" "imageSize m = imageSize m'" "imageCrc32 m = imageCrc32 m'"
    "firmwareVersion m = firmwareVersion m'"
  using assms by (simp_all add: payload_def)

lemma countAttempt_simps [simp]:
  "state (countAttempt m) = state m" "appRole (countAttempt m) = appRole m"
  "imageSize (countAttempt m) = imageSize m" "imageCrc32 (countAttempt m) = imageCrc32 m"
  "unconfirmedBootCount (countAttempt m) = unconfirmedBootCount m + 1"
  "bootAttemptId (countAttempt m) = bootAttemptId m + 1"
  "confirmedBootAttemptId (countAttempt m) = confirmedBootAttemptId m"
  "firmwareVersion (countAttempt m) = firmwareVersion m"
  by (simp_all add: countAttempt_def)

lemma image_countAttempt [simp]:
  "isApplicationImageValid f (countAttempt m) = isApplicationImageValid f m"
  by (simp add: isApplicationImageValid_def)

lemma default_mustUpdate: "mustUpdate f setDefaultMetadata"
  by (simp add: mustUpdate_def setDefaultMetadata_def boot_state_defs)

lemma unat_pred: "unat (if c = (0 :: u32) then 0 else c - 1) = unat c - 1"
  by (simp add: unat_minus_one)

lemma mainThread_startD:
  assumes "mainThread drv u f = (StartApplication h, f')"
  obtains m m' where "readBootMetadata f = Some m" "\<not> mustUpdate f m"
    "appendMetadataRecord drv (countAttempt m) f = (0, m', f')"
    "h = \<lparr>handoffMagic = BOOT_HANDOFF_MAGIC, handoffBootAttemptId = bootAttemptId m',
       handoffAppRole = appRole m'\<rparr>"
  using assms default_mustUpdate [of f]
  by (auto simp: mainThread_def bootMetadata_def Let_def split: option.splits if_splits prod.splits)

context nor_flash
begin

lemma append_image:
  assumes "appendMetadataRecord drv m0 f = (st, m, f')"
  shows "isApplicationImageValid f' m1 = isApplicationImageValid f m1"
  by (rule image_cong) (use append_frame [OF assms] in \<open>simp add: application_consts\<close>)

text \<open>A started application: the attempt is on record, and the image it starts is the valid one.\<close>

lemma mainThread_start:
  assumes "mainThread drv u f = (StartApplication h, f')" "journal_ok K f" "K < 2 ^ 31 - 1"
  obtains m m' where "readBootMetadata f = Some m" "\<not> mustUpdate f m"
    "readBootMetadata f' = Some m'" "payload m' = payload (countAttempt m)" "journal_ok (Suc K) f'"
    "isApplicationImageValid f' m'"
    "h = \<lparr>handoffMagic = BOOT_HANDOFF_MAGIC, handoffBootAttemptId = bootAttemptId m + 1,
       handoffAppRole = appRole m\<rparr>"
  using assms(1)
proof (rule mainThread_startD)
  fix m m'
  assume m: "readBootMetadata f = Some m" "\<not> mustUpdate f m"
    and a: "appendMetadataRecord drv (countAttempt m) f = (0, m', f')"
    and h: "h = \<lparr>handoffMagic = BOOT_HANDOFF_MAGIC, handoffBootAttemptId = bootAttemptId m',
       handoffAppRole = appRole m'\<rparr>"
  note u = journal_register.update_read [of countAttempt, OF a assms(2,3)]
  have "isApplicationImageValid f' m'"
    using m(2) append_image [OF a] image_payload [OF u(2)] by (simp add: mustUpdate_def)
  with that m u h payload_fields [OF u(2)] show thesis by simp
qed

end

section \<open>Sequences of boots\<close>

text \<open>\<open>n\<close> power cycles in a row, each of which starts the application and none of which is
  confirmed; and \<open>n\<close> cycles in which the application confirms its attempt.\<close>

primrec unconfirmedBoots :: "flash_driver \<Rightarrow> nat \<Rightarrow> flash \<Rightarrow> flash option" where
  "unconfirmedBoots drv 0 f = Some f"
| "unconfirmedBoots drv (Suc n) f =
     (case mainThread drv True f of
        (StartApplication h, f') \<Rightarrow> unconfirmedBoots drv n f'
      | _ \<Rightarrow> None)"

primrec confirmedBoots :: "flash_driver \<Rightarrow> nat \<Rightarrow> flash \<Rightarrow> flash option" where
  "confirmedBoots drv 0 f = Some f"
| "confirmedBoots drv (Suc n) f =
     (case mainThread drv True f of
        (StartApplication h, f1) \<Rightarrow>
          (case confirmApplicationBoot drv (handoffBootAttemptId h) f1 of (st, f2) \<Rightarrow>
             if st = 0 then confirmedBoots drv n f2 else None)
      | _ \<Rightarrow> None)"

lemma unat_count_next: "unat (c :: u32) < 3 \<Longrightarrow> unat (c + 1) = Suc (unat c)"
  using unat_word_ariths(1) [of c 1] by simp

lemma count_zero_update:
  "unconfirmedBootCount m = 0 \<Longrightarrow> m\<lparr>confirmedBootAttemptId := a, unconfirmedBootCount := 0\<rparr> =
   m\<lparr>confirmedBootAttemptId := a\<rparr>"
  by (cases m) simp

lemma confirm_success:
  assumes "confirmApplicationBoot drv a f = (0, f')" "readBootMetadata f = Some m"
  obtains m' where "bootAttemptId m = a" "confirmedBootAttemptId m \<noteq> a"
    "appendMetadataRecord drv (m\<lparr>confirmedBootAttemptId := a, unconfirmedBootCount :=
       (if unconfirmedBootCount m = 0 then 0 else unconfirmedBootCount m - 1)\<rparr>) f = (0, m', f')"
  using assms
  by (auto simp: confirmApplicationBoot_def Let_def count_zero_update split: if_splits prod.splits)

context nor_flash
begin

lemma confirm_read:
  assumes "confirmApplicationBoot drv a f = (0, f')" "readBootMetadata f = Some m"
    and "journal_ok K f" "K < 2 ^ 31 - 1"
  obtains m' where "bootAttemptId m = a" "confirmedBootAttemptId m \<noteq> a"
    "readBootMetadata f' = Some m'" "journal_ok (Suc K) f'"
    "payload m' = payload (m\<lparr>confirmedBootAttemptId := a, unconfirmedBootCount :=
       (if unconfirmedBootCount m = 0 then 0 else unconfirmedBootCount m - 1)\<rparr>)"
    "\<And>m1. isApplicationImageValid f' m1 = isApplicationImageValid f m1"
  using assms(1,2)
proof (rule confirm_success)
  fix m'
  let ?g = "\<lambda>m. m\<lparr>confirmedBootAttemptId := a, unconfirmedBootCount :=
       (if unconfirmedBootCount m = 0 then 0 else unconfirmedBootCount m - 1)\<rparr>"
  assume c: "bootAttemptId m = a" "confirmedBootAttemptId m \<noteq> a"
    "appendMetadataRecord drv (?g m) f = (0, m', f')"
  note u = journal_register.update_read [of ?g, OF c(3) assms(3,4)]
  show thesis by (rule that [OF c(1,2) u(1,3,2) append_image [OF c(3)]])
qed

lemma unconfirmedBoots_count:
  assumes "unconfirmedBoots drv n f = Some f'" "journal_ok K f" "K + n < 2 ^ 31" "0 < n"
  shows "\<exists>m m'. readBootMetadata f = Some m \<and> unat (unconfirmedBootCount m) + n \<le> 3 \<and>
    readBootMetadata f' = Some m' \<and>
    unat (unconfirmedBootCount m') = unat (unconfirmedBootCount m) + n"
  using assms
proof (induction n arbitrary: f K)
  case (Suc n)
  from Suc.prems(1) obtain h f1 where b: "mainThread drv True f = (StartApplication h, f1)"
    and r: "unconfirmedBoots drv n f1 = Some f'"
    by (auto split: prod.splits boot_outcome.splits)
  from Suc.prems(3) have K: "K < 2 ^ 31 - 1" by simp
  from mainThread_start [OF b Suc.prems(2) K] obtain m m1 where
    m: "readBootMetadata f = Some m" "\<not> mustUpdate f m" and
    m1: "readBootMetadata f1 = Some m1" "payload m1 = payload (countAttempt m)" "journal_ok (Suc K) f1"
    by metis
  have lt: "unat (unconfirmedBootCount m) < 3"
    using m(2) by (simp add: mustUpdate_def BOOT_FAILURE_LIMIT_def not_le word_less_nat_alt)
  have c1: "unat (unconfirmedBootCount m1) = Suc (unat (unconfirmedBootCount m))"
    using lt payload_fields(2) [OF m1(2)] unat_count_next by simp
  show ?case
  proof (cases n)
    case 0
    with m m1 lt c1 r show ?thesis by auto
  next
    case (Suc n')
    with Suc.IH [OF r m1(3)] Suc.prems(3) m1(1) m(1) c1 show ?thesis by auto
  qed
qed simp

end

section \<open>A driver that works\<close>

context reliable_flash
begin

lemma append_ok: "fst (appendMetadataRecord drv m f) = 0"
proof -
  have p: "\<exists>f'. FlashProgram drv bs a f = (0, f')" for bs a f
    using program_ok [of bs a f] by (metis prod.collapse)
  have "fst (writeRecord drv m a f) = 0" for m a f
    using p by (auto simp: writeRecord_def split: prod.splits) (metis prod.inject)+
  moreover obtain f1 where "FlashSectorErase drv (rotatedPage f) f = (0, f1)"
    using erase_ok [of "rotatedPage f" f] by (metis prod.collapse)
  ultimately show ?thesis
    by (auto simp: appendMetadataRecord_def Let_def split: option.split)
qed

lemma mainThread_starts:
  assumes "readBootMetadata f = Some m" "\<not> mustUpdate f m"
  shows "\<exists>h f'. mainThread drv True f = (StartApplication h, f')"
  using assms append_ok [of "countAttempt m" f]
  by (auto simp: mainThread_def bootMetadata_def Let_def split: prod.splits)

lemma confirm_ok:
  assumes "readBootMetadata f = Some m" "bootAttemptId m = a" "confirmedBootAttemptId m \<noteq> a"
  shows "\<exists>f'. confirmApplicationBoot drv a f = (0, f')"
proof -
  have "\<exists>m1 f1. appendMetadataRecord drv m f = (0, m1, f1)" for m f
    using append_ok [of m f] by (metis prod.collapse fst_conv)
  with assms show ?thesis
    by (auto simp: confirmApplicationBoot_def Let_def split: prod.splits) (metis prod.inject)+
qed

lemma unconfirmedBoots_ok:
  assumes "readBootMetadata f = Some m" "\<not> mustUpdate f m" "journal_ok K f"
    "unat (unconfirmedBootCount m) + n \<le> 3" "K + n < 2 ^ 31"
  shows "\<exists>f'. unconfirmedBoots drv n f = Some f'"
  using assms
proof (induction n arbitrary: f m K)
  case (Suc n)
  from Suc.prems(5) have K: "K < 2 ^ 31 - 1" by simp
  obtain h f1 where b: "mainThread drv True f = (StartApplication h, f1)"
    using mainThread_starts [OF Suc.prems(1,2)] by blast
  from mainThread_start [OF b Suc.prems(3) K] Suc.prems(1) obtain m1 where
    m1: "readBootMetadata f1 = Some m1" "payload m1 = payload (countAttempt m)" "journal_ok (Suc K) f1"
      "isApplicationImageValid f1 m1" by (metis option.inject)
  note p = payload_fields [OF m1(2)]
  have c1: "unat (unconfirmedBootCount m1) = Suc (unat (unconfirmedBootCount m))"
    using p(2) Suc.prems(4) unat_count_next by simp
  show ?case
  proof (cases n)
    case (Suc n')
    with Suc.prems(4) c1 have "unat (unconfirmedBootCount m1) < 3" by simp
    with p(1) m1(4) Suc.prems(2) have "\<not> mustUpdate f1 m1"
      by (simp add: mustUpdate_def BOOT_FAILURE_LIMIT_def word_le_nat_alt)
    from Suc.IH [OF m1(1) this m1(3)] c1 Suc.prems(4,5) b show ?thesis by simp
  qed (use b in simp)
qed simp

text \<open>One boot that the application confirms: the metadata is as before but for the attempt
  number, so the next boot starts the application again.\<close>

lemma confirmed_boot:
  assumes "readBootMetadata f = Some m" "\<not> mustUpdate f m" "journal_ok K f" "K < 2 ^ 31 - 2"
    "confirmedBootAttemptId m \<noteq> bootAttemptId m + 1"
  obtains h f1 f2 m2 where "mainThread drv True f = (StartApplication h, f1)"
    "confirmApplicationBoot drv (handoffBootAttemptId h) f1 = (0, f2)"
    "readBootMetadata f2 = Some m2" "\<not> mustUpdate f2 m2" "journal_ok (K + 2) f2"
    "unconfirmedBootCount m2 = unconfirmedBootCount m"
    "confirmedBootAttemptId m2 = bootAttemptId m2"
proof -
  from assms(4) have K: "K < 2 ^ 31 - 1" "Suc K < 2 ^ 31 - 1" by simp_all
  obtain h f1 where b: "mainThread drv True f = (StartApplication h, f1)"
    using mainThread_starts [OF assms(1,2)] by blast
  from mainThread_start [OF b assms(3) K(1)] assms(1) obtain m1 where
    m1: "readBootMetadata f1 = Some m1" "payload m1 = payload (countAttempt m)" "journal_ok (Suc K) f1"
      "isApplicationImageValid f1 m1" and
    h: "handoffBootAttemptId h = bootAttemptId m + 1"
    by (metis BootHandoff.select_convs(2) option.inject)
  note p1 = payload_fields [OF m1(2)]
  obtain f2 where c: "confirmApplicationBoot drv (handoffBootAttemptId h) f1 = (0, f2)"
    using confirm_ok [OF m1(1)] p1 h assms(5) by auto
  from confirm_read [OF c m1(1,3) K(2)] obtain m2 where
    m2: "readBootMetadata f2 = Some m2" "journal_ok (Suc (Suc K)) f2"
      "payload m2 = payload (m1\<lparr>confirmedBootAttemptId := handoffBootAttemptId h, unconfirmedBootCount :=
         (if unconfirmedBootCount m1 = 0 then 0 else unconfirmedBootCount m1 - 1)\<rparr>)"
    and im: "\<And>m1. isApplicationImageValid f2 m1 = isApplicationImageValid f1 m1" by blast
  note p2 = payload_fields [OF m2(3)]
  have cnt: "unconfirmedBootCount m2 = unconfirmedBootCount m"
    using p1 p2 assms(2) by (simp add: mustUpdate_def BOOT_FAILURE_LIMIT_def) (auto simp: add_eq_0_iff2)
  have "isApplicationImageValid f2 m2"
    using m1(4) im p2 by (simp add: isApplicationImageValid_def)
  with cnt p1 p2 assms(2) have "\<not> mustUpdate f2 m2" by (simp add: mustUpdate_def)
  moreover have "confirmedBootAttemptId m2 = bootAttemptId m2" using p2 p1 h by simp
  ultimately show thesis using that [OF b c m2(1)] m2(2) cnt by simp
qed

lemma confirmedBoots_forever:
  assumes "readBootMetadata f = Some m" "\<not> mustUpdate f m" "journal_ok K f" "K + 2 * n < 2 ^ 31 - 1"
    "confirmedBootAttemptId m \<noteq> bootAttemptId m + 1"
  shows "\<exists>f' m'. confirmedBoots drv n f = Some f' \<and> readBootMetadata f' = Some m' \<and>
    \<not> mustUpdate f' m' \<and> unconfirmedBootCount m' = unconfirmedBootCount m"
  using assms
proof (induction n arbitrary: f m K)
  case (Suc n)
  from Suc.prems(4) have "K < 2 ^ 31 - 2" by simp
  from confirmed_boot [OF Suc.prems(1-3) this Suc.prems(5)] obtain h f1 f2 m2 where
    s: "mainThread drv True f = (StartApplication h, f1)"
      "confirmApplicationBoot drv (handoffBootAttemptId h) f1 = (0, f2)" and
    r: "readBootMetadata f2 = Some m2" "\<not> mustUpdate f2 m2" "journal_ok (K + 2) f2" and
    e: "unconfirmedBootCount m2 = unconfirmedBootCount m"
      "confirmedBootAttemptId m2 = bootAttemptId m2" by metis
  from Suc.IH [OF r] Suc.prems(4) s e show ?case by simp
qed simp

end

section \<open>A device with an application\<close>

text \<open>A concrete device for the witnesses: an eight-byte image (initial stack pointer and reset
  vector) and one metadata record that describes it.\<close>

definition demoImage :: "u8 list" where
  "demoImage = storeUint32Le 0x20001000 @ storeUint32Le 0x8009"

definition demoFlash :: flash where
  "demoFlash = \<lparr>cells = programCells demoImage APPLICATION_FLASH_START (\<lambda>_. 0xFF), controller = 0\<rparr>"

definition demoMetadata :: BootMetadata where
  "demoMetadata = setDefaultMetadata\<lparr>state := BOOT_STATE_VALID_APPLICATION, imageSize := 8,
     imageCrc32 := calculateCrc32 demoImage, appRole := APP_ROLE_TX\<rparr>"

definition demoDevice :: flash where
  "demoDevice = snd (snd (appendMetadataRecord ideal_driver demoMetadata demoFlash))"

lemma demoFlash_erased: "p \<in> journalPages \<Longrightarrow> i < 85 \<Longrightarrow> isErasedRecord demoFlash (slot p i)"
  using slot_in_page [of i _ p]
  by (fastforce simp: isErasedRecord_iff demoFlash_def programCells_def application_consts
      metadata_consts journalPages_def)

lemma demoFlash_ok: "journal_ok K demoFlash"
  using demoFlash_erased by (simp add: journal_ok_def emptyJournal_def erased_not_valid)

lemma demoFlash_image: "readBytes demoFlash APPLICATION_FLASH_START 8 = demoImage"
proof -
  have "length demoImage = 8" by (simp add: demoImage_def)
  then show ?thesis
    by (simp add: readBytes_eq_iff demoFlash_def programCells_def)
qed

lemma demoFlash_vectors:
  "readUint32 demoFlash APPLICATION_FLASH_START = 0x20001000"
  "readUint32 demoFlash (APPLICATION_FLASH_START + 4) = 0x8009"
proof -
  have "readBytes demoFlash APPLICATION_FLASH_START 4 @ readBytes demoFlash (APPLICATION_FLASH_START + 4) 4
      = storeUint32Le 0x20001000 @ storeUint32Le 0x8009"
    using demoFlash_image readBytes_append [of demoFlash APPLICATION_FLASH_START 4 4]
    by (simp add: demoImage_def)
  then have "readBytes demoFlash APPLICATION_FLASH_START 4 = storeUint32Le 0x20001000"
    "readBytes demoFlash (APPLICATION_FLASH_START + 4) 4 = storeUint32Le 0x8009"
    by (subst (asm) append_eq_append_conv; simp)+
  then show "readUint32 demoFlash APPLICATION_FLASH_START = 0x20001000"
    "readUint32 demoFlash (APPLICATION_FLASH_START + 4) = 0x8009"
    unfolding readUint32_def by (metis append_Nil2 loadUint32Le_store)+
qed

lemma demoFlash_valid: "isApplicationImageValid demoFlash demoMetadata"
  using demoFlash_vectors demoFlash_image
  by (simp add: isApplicationImageValid_def Let_def demoMetadata_def application_consts)

lemma demoDevice_ready:
  obtains m where "readBootMetadata demoDevice = Some m" "payload m = payload demoMetadata"
    "journal_ok 1 demoDevice" "\<not> mustUpdate demoDevice m"
proof -
  obtain m where a: "appendMetadataRecord ideal_driver demoMetadata demoFlash = (0, m, demoDevice)"
    using ideal.append_ok [of demoMetadata demoFlash] unfolding demoDevice_def by (metis prod.collapse)
  note u = ideal.journal_register.update_read [of "\<lambda>_. demoMetadata", OF a demoFlash_ok [of 0]]
  have "isApplicationImageValid demoDevice m"
    using ideal.append_image [OF a] demoFlash_valid image_payload [of m demoMetadata] u(2) by simp
  then have "\<not> mustUpdate demoDevice m"
    using payload_fields [OF u(2)]
    by (simp add: mustUpdate_def demoMetadata_def setDefaultMetadata_def BOOT_FAILURE_LIMIT_def)
  with that u show thesis by simp
qed

section \<open>Properties\<close>

text \<open>C3. The application is started only with a fresh boot attempt on record. If \<open>mainThread\<close> hands
  over, then the newest record said \<open>VALID_APPLICATION\<close> with fewer than three unconfirmed boots,
  and afterwards the journal returns that record with both counters advanced, the image in
  flash satisfies the size, vector and CRC checks against it, and the handoff carries its
  attempt number and role.\<close>

theorem boot_starts_only_recorded_valid_image:
  assumes "nor_flash drv" "journal_ok K f" "K < 2 ^ 31 - 1"
    and "mainThread drv updateUart f = (StartApplication h, f')"
  shows "\<exists>m m'. readBootMetadata f = Some m \<and> state m = BOOT_STATE_VALID_APPLICATION \<and>
    unconfirmedBootCount m < BOOT_FAILURE_LIMIT \<and>
    readBootMetadata f' = Some m' \<and> payload m' = payload (countAttempt m) \<and>
    isApplicationImageValid f' m' \<and>
    h = \<lparr>handoffMagic = BOOT_HANDOFF_MAGIC, handoffBootAttemptId = bootAttemptId m',
         handoffAppRole = appRole m'\<rparr>"
proof (rule nor_flash.mainThread_start [OF assms(1,4,2,3)])
  fix m m'
  assume m: "readBootMetadata f = Some m" "\<not> mustUpdate f m"
    "readBootMetadata f' = Some m'" "payload m' = payload (countAttempt m)" "isApplicationImageValid f' m'"
    "h = \<lparr>handoffMagic = BOOT_HANDOFF_MAGIC, handoffBootAttemptId = bootAttemptId m + 1,
       handoffAppRole = appRole m\<rparr>"
  with payload_fields [OF m(4)] show ?thesis
    by (intro exI [of _ m] exI [of _ m']) (simp add: mustUpdate_def not_le)
qed

theorem boot_starts_only_recorded_valid_image_witness:
  "\<exists>h f' m. mainThread ideal_driver True demoDevice = (StartApplication h, f') \<and>
     readBootMetadata f' = Some m \<and> unconfirmedBootCount m = 1 \<and> isApplicationImageValid f' m"
proof (rule demoDevice_ready)
  fix m
  assume m: "readBootMetadata demoDevice = Some m" "payload m = payload demoMetadata"
    "journal_ok 1 demoDevice" "\<not> mustUpdate demoDevice m"
  obtain h f' where b: "mainThread ideal_driver True demoDevice = (StartApplication h, f')"
    using ideal.mainThread_starts [OF m(1,4)] by blast
  from boot_starts_only_recorded_valid_image [OF ideal.nor_flash_axioms m(3) _ b] m(1) obtain m' where
    "readBootMetadata f' = Some m'" "payload m' = payload (countAttempt m)" "isApplicationImageValid f' m'"
    by auto
  with b payload_fields(2) [OF m(2)] payload_fields(2) [of m' "countAttempt m"] show ?thesis
    by (auto simp: demoMetadata_def setDefaultMetadata_def)
qed

text \<open>C4. The failure limit: at most three boots in a row start the application without being
  confirmed, and after three the next boot stays in the updater.\<close>

theorem boot_failure_limit:
  assumes "nor_flash drv" "journal_ok K f" "K + n < 2 ^ 31"
    and "unconfirmedBoots drv n f = Some f'"
  shows "n \<le> 3 \<and> (n = 3 \<longrightarrow> (\<exists>m. mainThread drv True f' = (RunFirmwareUpdate m, f')))"
proof (cases "n = 0")
  case False
  then have "0 < n" by simp
  from nor_flash.unconfirmedBoots_count [OF assms(1,4,2,3) this] obtain m m' :: BootMetadata where
    m: "unat (unconfirmedBootCount m) + n \<le> 3" "readBootMetadata f' = Some m'"
      "unat (unconfirmedBootCount m') = unat (unconfirmedBootCount m) + n" by blast
  then have "n = 3 \<Longrightarrow> mustUpdate f' m'"
    by (simp add: mustUpdate_def BOOT_FAILURE_LIMIT_def word_le_nat_alt)
  with m show ?thesis by (auto simp: mainThread_def bootMetadata_def Let_def)
qed simp

theorem boot_failure_limit_witness:
  "\<exists>f' m. unconfirmedBoots ideal_driver 3 demoDevice = Some f' \<and>
     mainThread ideal_driver True f' = (RunFirmwareUpdate m, f')"
proof (rule demoDevice_ready)
  fix m
  assume m: "readBootMetadata demoDevice = Some m" "payload m = payload demoMetadata"
    "journal_ok 1 demoDevice" "\<not> mustUpdate demoDevice m"
  have "unconfirmedBootCount m = 0"
    using payload_fields(2) [OF m(2)] by (simp add: demoMetadata_def setDefaultMetadata_def)
  with ideal.unconfirmedBoots_ok [OF m(1,4,3), of 3] obtain f' where
    b: "unconfirmedBoots ideal_driver 3 demoDevice = Some f'" by auto
  with boot_failure_limit [OF ideal.nor_flash_axioms m(3) _ b] show ?thesis by auto
qed

text \<open>C5. With flash that works, an application that confirms every boot is started every time: any
  number of confirmed boots (while the sequence numbers of the journal last) leaves the
  unconfirmed count where it was, and the device never falls into the updater.\<close>

theorem confirmed_boots_keep_booting:
  assumes "reliable_flash drv" "journal_ok K f" "K + 2 * n < 2 ^ 31 - 1"
    and "readBootMetadata f = Some m" "\<not> mustUpdate f m"
    and "confirmedBootAttemptId m \<noteq> bootAttemptId m + 1"
  shows "\<exists>f' m'. confirmedBoots drv n f = Some f' \<and> readBootMetadata f' = Some m' \<and>
    \<not> mustUpdate f' m' \<and> unconfirmedBootCount m' = unconfirmedBootCount m"
  using reliable_flash.confirmedBoots_forever [OF assms(1,4,5,2,3,6)] .

theorem confirmed_boots_keep_booting_witness:
  "\<exists>f' m'. confirmedBoots ideal_driver 1000 demoDevice = Some f' \<and> readBootMetadata f' = Some m' \<and>
     unconfirmedBootCount m' = 0"
proof (rule demoDevice_ready)
  fix m
  assume m: "readBootMetadata demoDevice = Some m" "payload m = payload demoMetadata"
    "journal_ok 1 demoDevice" "\<not> mustUpdate demoDevice m"
  from confirmed_boots_keep_booting [OF ideal.reliable_flash_axioms m(3) _ m(1,4), of 1000]
    payload_fields [OF m(2)]
  show ?thesis by (auto simp: demoMetadata_def setDefaultMetadata_def)
qed

text \<open>C6. Confirmation is single-use and tied to the current attempt: an attempt number that is not
  the current one, or that is already confirmed, is refused without touching flash; a
  successful confirmation takes back exactly one count, and a second one is refused.\<close>

theorem confirm_once:
  assumes "nor_flash drv" "journal_ok K f" "K < 2 ^ 31 - 1" "readBootMetadata f = Some m"
  shows "(bootAttemptId m \<noteq> a \<or> confirmedBootAttemptId m = a \<longrightarrow>
      confirmApplicationBoot drv a f = (-1, f)) \<and>
    (confirmApplicationBoot drv a f = (0, f') \<longrightarrow>
      (\<exists>m'. readBootMetadata f' = Some m' \<and> confirmedBootAttemptId m' = a \<and> state m' = state m \<and>
         bootAttemptId m' = bootAttemptId m \<and>
         unat (unconfirmedBootCount m') = unat (unconfirmedBootCount m) - 1) \<and>
      confirmApplicationBoot drv a f' = (-1, f'))"
proof (intro conjI impI)
  assume "bootAttemptId m \<noteq> a \<or> confirmedBootAttemptId m = a"
  with assms(4) show "confirmApplicationBoot drv a f = (-1, f)"
    by (simp add: confirmApplicationBoot_def)
next
  assume c: "confirmApplicationBoot drv a f = (0, f')"
  from nor_flash.confirm_read [OF assms(1) c assms(4,2,3)] obtain m' where
    m': "readBootMetadata f' = Some m'"
      "payload m' = payload (m\<lparr>confirmedBootAttemptId := a, unconfirmedBootCount :=
         (if unconfirmedBootCount m = 0 then 0 else unconfirmedBootCount m - 1)\<rparr>)" by blast
  note p = payload_fields [OF m'(2)]
  have "unat (unconfirmedBootCount m') = unat (unconfirmedBootCount m) - 1"
    using p(2) by (simp add: unat_pred)
  with m'(1) p show "\<exists>m'. readBootMetadata f' = Some m' \<and> confirmedBootAttemptId m' = a \<and>
      state m' = state m \<and> bootAttemptId m' = bootAttemptId m \<and>
      unat (unconfirmedBootCount m') = unat (unconfirmedBootCount m) - 1" by auto
  from m'(1) p(4) show "confirmApplicationBoot drv a f' = (-1, f')"
    by (simp add: confirmApplicationBoot_def)
qed

theorem confirm_once_witness:
  "confirmApplicationBoot ideal_driver 5 demoDevice = (-1, demoDevice)"
proof (rule demoDevice_ready)
  fix m
  assume m: "readBootMetadata demoDevice = Some m" "payload m = payload demoMetadata"
    "journal_ok 1 demoDevice"
  then show ?thesis
    using confirm_once [OF ideal.nor_flash_axioms m(3) _ m(1), of 5] payload_fields(3) [OF m(2)]
    by (simp add: demoMetadata_def setDefaultMetadata_def)
qed

lemma requestFirmwareUpdate_effect:
  assumes "nor_flash drv" "journal_ok K f" "K < 2 ^ 31 - 1"
    and "requestFirmwareUpdate drv f = (0, f')"
  obtains m where "mainThread drv True f' = (RunFirmwareUpdate m, f')"
    "payload m = payload ((bootMetadata f)\<lparr>state := BOOT_STATE_UPDATE_REQUESTED\<rparr>)"
proof -
  from assms(4) obtain m where
    a: "appendMetadataRecord drv ((bootMetadata f)\<lparr>state := BOOT_STATE_UPDATE_REQUESTED\<rparr>) f = (0, m, f')"
    by (auto simp: requestFirmwareUpdate_def bootMetadata_def Let_def split: prod.splits)
  have u: "readBootMetadata f' = Some m"
    "payload m = payload ((bootMetadata f)\<lparr>state := BOOT_STATE_UPDATE_REQUESTED\<rparr>)"
    using nor_flash.append_stays_or_advances [OF assms(1-3) a nor_flash.append_genuine [OF assms(1) a]]
      nor_flash.append_payload_kept [OF assms(1) a] by auto
  have "mustUpdate f' m"
    using payload_fields(1) [OF u(2)] by (simp add: mustUpdate_def boot_state_defs)
  with u(1) have "mainThread drv True f' = (RunFirmwareUpdate m, f')" by (simp add: mainThread_def bootMetadata_def)
  from this u(2) show ?thesis by (rule that)
qed

text \<open>An update request that reports success is honoured: the next boot stays in the updater,
  whatever the journal held before, and the record keeps the image fields and the role.\<close>

lemma requested_update_is_entered:
  assumes "nor_flash drv" "journal_ok K f" "K < 2 ^ 31 - 1"
    and "requestFirmwareUpdate drv f = (0, f')"
  shows "\<exists>m. mainThread drv True f' = (RunFirmwareUpdate m, f') \<and>
    payload m = payload ((bootMetadata f)\<lparr>state := BOOT_STATE_UPDATE_REQUESTED\<rparr>)"
  using requestFirmwareUpdate_effect [OF assms] by blast

text \<open>The handoff leaves the processor as the application's reset handler expects it: interrupts
  are unmasked but nothing is enabled or pending, SysTick is off, the vector table is the
  application's, and stack pointer and program counter come from it; for a validated image the
  stack pointer lies in RAM and the entry point is a Thumb address in the application area.\<close>

lemma handoff_state:
  assumes "isApplicationImageValid f metadata" "c' = startApplication f c"
  shows "\<not> primask c' \<and> \<not> uartOpen c' \<and> sysTickCtrl c' = 0 \<and> nvicEnabled c' = (0, 0) \<and>
    nvicPending c' = (0, 0) \<and> vtable c' = of_nat APPLICATION_FLASH_START \<and>
    APPLICATION_RAM_START \<le> sp c' \<and> sp c' < APPLICATION_RAM_END \<and>
    of_nat APPLICATION_FLASH_START \<le> pc c' \<and> pc c' < of_nat APPLICATION_FLASH_END \<and> odd (pc c')"
proof -
  have off: "(w :: u32) AND - 4294967296 = 0" for w
  proof -
    have "(- 4294967296 :: u32) = 0" by (simp add: word_eq_iff_unsigned)
    then show ?thesis by (simp only: and_zero_eq)
  qed
  have "odd (w :: u32)" if "w AND 1 \<noteq> 0" for w
    using that by (simp add: and_one_eq odd_iff_mod_2_eq_one)
  with assms show ?thesis
    by (simp add: startApplication_def Let_def isApplicationImageValid_def APPLICATION_FLASH_START_def off
        del: One_nat_def)
qed

definition resetCpu :: cpu where
  "resetCpu = \<lparr>bootDebugWord = 0, uartOpen = True, primask = False, sysTickCtrl = 7,
     nvicEnabled = (0x20, 0), nvicPending = (0x20, 1), vtable = 0, sp = 0x20004000, pc = 0x4000\<rparr>"

end
