(* ===== verification/Startup_Fix.thy ===== *)
theory Startup_Fix
  imports Boot_Decision
begin

text \<open>
  The start of the relocated application, before the RTOS runs (\<open>boot_startup_fix.c\<close> and
  \<open>boot_nonrom_startup.c\<close>): the reset handlers, the copy of the vector table into RAM, the primary heap, and
  the replacements for the start-up functions of the RTOS modules. The state is the processor as
  the bootloader leaves it and the words of RAM by address; the addresses the linker fixes, the run-time entry
  \<open>_c_int00\<close> and the RTOS functions are parameters.
\<close>

section \<open>State\<close>

definition BOOT_APPLICATION_VECTOR_TABLE :: nat where "BOOT_APPLICATION_VECTOR_TABLE = 0x00008000"
definition RAM_VECTOR_TABLE :: u32 where "RAM_VECTOR_TABLE = 0x20000000"
definition BOOT_DEBUG_RAM_ADDRESS :: u32 where "BOOT_DEBUG_RAM_ADDRESS = 0x20004E00"
definition SYSTEM_VECTOR_COUNT :: nat where "SYSTEM_VECTOR_COUNT = 15"
definition TOTAL_VECTOR_COUNT :: nat where "TOTAL_VECTOR_COUNT = 55"

lemmas startup_consts = BOOT_APPLICATION_VECTOR_TABLE_def RAM_VECTOR_TABLE_def BOOT_DEBUG_RAM_ADDRESS_def
  SYSTEM_VECTOR_COUNT_def TOTAL_VECTOR_COUNT_def

record startup =
  cpuRegs :: cpu
  ram :: "u32 \<Rightarrow> u32"

definition setDebug :: "u32 \<Rightarrow> startup \<Rightarrow> startup" where
  "setDebug v s = s\<lparr>ram := (ram s)(BOOT_DEBUG_RAM_ADDRESS := v)\<rparr>"

section \<open>Interrupts\<close>

text \<open>Both loops over \<open>ramVectors\<close> store one word at each index from \<open>vectorIndex\<close> up to a limit.\<close>

definition ramVector :: "nat \<Rightarrow> u32" where
  "ramVector i = RAM_VECTOR_TABLE + 4 * of_nat i"

function storeVectors :: "(nat \<Rightarrow> u32) \<Rightarrow> nat \<Rightarrow> nat \<Rightarrow> (u32 \<Rightarrow> u32) \<Rightarrow> (u32 \<Rightarrow> u32)" where
  "storeVectors source vectorIndex limit m =
     (if vectorIndex < limit
      then storeVectors source (vectorIndex + 1) limit (m(ramVector vectorIndex := source vectorIndex))
      else m)"
  by pat_completeness auto
termination by (relation "measure (\<lambda>(_, i, n, _). n - i)") auto

declare storeVectors.simps [simp del]

definition bootAppInitializeInterrupts :: "flash \<Rightarrow> startup \<Rightarrow> startup" where
  "bootAppInitializeInterrupts f s =
     (let flashVectors = (\<lambda>i. readUint32 f (BOOT_APPLICATION_VECTOR_TABLE + 4 * i));
          c = cpuRegs s;
          c = c\<lparr>nvicEnabled := (fst (nvicEnabled c) AND NOT 0xFFFFFFFF, snd (nvicEnabled c))\<rparr>;
          c = c\<lparr>nvicEnabled := (fst (nvicEnabled c), snd (nvicEnabled c) AND NOT 0xFFFFFFFF)\<rparr>;
          c = c\<lparr>nvicPending := (fst (nvicPending c) AND NOT 0xFFFFFFFF, snd (nvicPending c))\<rparr>;
          c = c\<lparr>nvicPending := (fst (nvicPending c), snd (nvicPending c) AND NOT 0xFFFFFFFF)\<rparr>;
          m = storeVectors flashVectors 0 SYSTEM_VECTOR_COUNT (ram s);
          m = storeVectors (\<lambda>_. flashVectors 3) SYSTEM_VECTOR_COUNT TOTAL_VECTOR_COUNT m;
          c = c\<lparr>vtable := RAM_VECTOR_TABLE\<rparr>
      in setDebug 0x30 (s\<lparr>cpuRegs := c, ram := m\<rparr>))"

section \<open>Reset\<close>

text \<open>The handlers do not return: \<open>_c_int00\<close> runs the program, and the loop after it is not reached
  unless it returns.\<close>

definition Startup_reset :: "startup \<Rightarrow> startup" where
  "Startup_reset s = s"

definition ResetISR :: "(startup \<Rightarrow> 'a) \<Rightarrow> flash \<Rightarrow> startup \<Rightarrow> 'a" where
  "ResetISR c_int00 f s =
     (let s = setDebug 0x10 s;
          s = bootAppInitializeInterrupts f s;
          s = Startup_reset s;
          s = setDebug 0x11 s
      in c_int00 s)"

definition nonromResetISR :: "(startup \<Rightarrow> 'a) \<Rightarrow> startup \<Rightarrow> 'a" where
  "nonromResetISR c_int00 s = c_int00 s"

section \<open>The primary heap\<close>

text \<open>The heap object is an array of words at the address \<open>heapObject\<close>.\<close>

definition heapWord :: "u32 \<Rightarrow> nat \<Rightarrow> u32" where
  "heapWord heapObject i = heapObject + 4 * of_nat i"

definition bootAppInitializeHeap :: "u32 \<Rightarrow> u32 \<Rightarrow> u32 \<Rightarrow> startup \<Rightarrow> startup" where
  "bootAppInitializeHeap heapStart heapEnd heapObject s =
     (let s = setDebug 0x20 s;
          alignment = ram s (heapWord heapObject 1);
          alignedStart = (heapStart + alignment - 1) AND NOT (alignment - 1);
          blockAlignment = ram s (heapWord heapObject 5);
          heapSize = heapEnd - alignedStart;
          heapSize = (heapSize div blockAlignment) * blockAlignment;
          s = s\<lparr>ram := (ram s)(heapWord heapObject 2 := alignedStart)\<rparr>;
          s = s\<lparr>ram := (ram s)(heapWord heapObject 3 := alignedStart)\<rparr>;
          s = s\<lparr>ram := (ram s)(heapWord heapObject 4 := heapSize)\<rparr>;
          s = s\<lparr>ram := (ram s)(alignedStart := 0)\<rparr>;
          s = s\<lparr>ram := (ram s)(alignedStart + 4 := heapSize)\<rparr>
      in setDebug 0x21 s)"

section \<open>Module start-up functions\<close>

text \<open>Each takes the state of the module's start-up and returns the next one; -1 is
  \<open>Startup_DONE\<close>.\<close>

type_synonym module_startup = "int \<Rightarrow> startup \<Rightarrow> int \<times> startup"

definition STARTUP_DONE :: int where "STARTUP_DONE = -1"

definition bootAppStartupSystem :: "(startup \<Rightarrow> int \<times> startup) \<Rightarrow> module_startup" where
  "bootAppStartupSystem systemStartup _ s =
     (case systemStartup (setDebug 0x40 s) of (status, s) \<Rightarrow> (status, setDebug 0x41 s))"

definition bootAppStartupClock :: module_startup where
  "bootAppStartupClock st s = (-1, setDebug 0x43 (setDebug 0x42 s))"

definition bootAppStartupMailbox :: "module_startup \<Rightarrow> module_startup" where
  "bootAppStartupMailbox mailboxStartup st s =
     (case mailboxStartup st (setDebug 0x44 s) of (status, s) \<Rightarrow> (status, setDebug 0x45 s))"

definition bootAppStartupSwi :: "module_startup \<Rightarrow> module_startup" where
  "bootAppStartupSwi swiStartup st s =
     (case swiStartup st (setDebug 0x46 s) of (status, s) \<Rightarrow> (status, setDebug 0x47 s))"

definition bootAppStartupTask :: module_startup where
  "bootAppStartupTask st s = (-1, setDebug 0x49 (setDebug 0x48 s))"

definition bootAppStartupHwi :: module_startup where
  "bootAppStartupHwi st s = (-1, setDebug 0x4B s)"

definition bootAppStartupTimer :: module_startup where
  "bootAppStartupTimer st s = (-1, setDebug 0x4D s)"

definition bootAppStartupTimestamp :: module_startup where
  "bootAppStartupTimestamp st s = (-1, setDebug 0x4F s)"

definition bootAppStartupHalHwi :: module_startup where
  "bootAppStartupHalHwi st s = (-1, setDebug 0x51 s)"

definition bootAppStartupDispatcher :: "(startup \<Rightarrow> startup) \<Rightarrow> startup \<Rightarrow> startup" where
  "bootAppStartupDispatcher startMods s = setDebug 0x39 (startMods (setDebug 0x38 s))"

text \<open>The tables of the generated configuration that list these functions.\<close>

definition sfxnTab :: "(startup \<Rightarrow> int \<times> startup) \<Rightarrow> module_startup \<Rightarrow> module_startup \<Rightarrow> module_startup list" where
  "sfxnTab systemStartup mailboxStartup swiStartup =
     [bootAppStartupSystem systemStartup, bootAppStartupClock, bootAppStartupMailbox mailboxStartup,
      bootAppStartupSwi swiStartup, bootAppStartupTask, bootAppStartupHwi, bootAppStartupTimer,
      bootAppStartupTimestamp, bootAppStartupHalHwi]"

definition firstFxns :: "u32 \<Rightarrow> u32 \<Rightarrow> u32 \<Rightarrow> flash \<Rightarrow> (startup \<Rightarrow> startup) \<Rightarrow> (startup \<Rightarrow> startup) list" where
  "firstFxns heapStart heapEnd heapObject f initStack =
     [bootAppInitializeHeap heapStart heapEnd heapObject, bootAppInitializeInterrupts f, initStack]"

definition heapObjectTable :: "u32 \<Rightarrow> u32 list" where
  "heapObjectTable fxns = [fxns, 0x8, 0, 0, 0, 0x8]"

section \<open>Lemmas\<close>

lemma and_not_all [simp]: "(w :: u32) AND - 4294967296 = 0"
proof -
  have "(- 4294967296 :: u32) = 0" by (simp add: word_eq_iff_unsigned)
  then show ?thesis by (simp only: and_zero_eq)
qed

lemma unat_four: "4 * i < 2 ^ 32 \<Longrightarrow> unat (4 * of_nat i :: u32) = 4 * i"
  using unat_of_nat_less [of "4 * i", where 'a = 32] by simp

lemma ramVector_inj: "i < 2 ^ 28 \<Longrightarrow> j < 2 ^ 28 \<Longrightarrow> ramVector i = ramVector j \<Longrightarrow> i = j"
proof -
  assume ij: "i < 2 ^ 28" "j < 2 ^ 28" "ramVector i = ramVector j"
  then have "unat (4 * of_nat i :: u32) = unat (4 * of_nat j :: u32)" by (simp add: ramVector_def)
  with ij show ?thesis by (simp add: unat_four)
qed

lemma storeVectors_out:
  assumes "\<And>k. i \<le> k \<Longrightarrow> k < n \<Longrightarrow> a \<noteq> ramVector k"
  shows "storeVectors src i n m a = m a"
  using assms
proof (induction src i n m rule: storeVectors.induct)
  case (1 src i n m)
  then show ?case by (cases "i < n") (auto simp: storeVectors.simps [of src i n m] fun_upd_def)
qed

lemma storeVectors_at:
  assumes "i \<le> k" "k < n" "n < 2 ^ 28"
  shows "storeVectors src i n m (ramVector k) = src k"
  using assms
proof (induction src i n m rule: storeVectors.induct)
  case (1 src i n m)
  then have step: "storeVectors src i n m = storeVectors src (i + 1) n (m(ramVector i := src i))"
    by (simp add: storeVectors.simps [of src i n m])
  show ?case
  proof (cases "i = k")
    case True
    have "storeVectors src (i + 1) n (m(ramVector i := src i)) (ramVector k) = (m(ramVector i := src i)) (ramVector k)"
    proof (rule storeVectors_out)
      fix j assume "i + 1 \<le> j" "j < n"
      with True 1(4) ramVector_inj [of k j] show "ramVector k \<noteq> ramVector j" by auto
    qed
    with True step show ?thesis by simp
  next
    case False
    with 1 step show ?thesis by (simp add: fun_upd_def)
  qed
qed

lemma ramVector_not_debug: "i < TOTAL_VECTOR_COUNT \<Longrightarrow> ramVector i \<noteq> BOOT_DEBUG_RAM_ADDRESS"
proof
  assume i: "i < TOTAL_VECTOR_COUNT" and "ramVector i = BOOT_DEBUG_RAM_ADDRESS"
  then have "(4 * of_nat i :: u32) = 0x4E00"
    by (simp add: ramVector_def startup_consts algebra_simps)
  then have "unat (4 * of_nat i :: u32) = 0x4E00" by simp
  with i show False by (simp add: unat_four startup_consts)
qed

lemma initializeInterrupts_ram:
  "ram (bootAppInitializeInterrupts f s) =
     (storeVectors (\<lambda>_. readUint32 f (BOOT_APPLICATION_VECTOR_TABLE + 12)) SYSTEM_VECTOR_COUNT TOTAL_VECTOR_COUNT
       (storeVectors (\<lambda>i. readUint32 f (BOOT_APPLICATION_VECTOR_TABLE + 4 * i)) 0 SYSTEM_VECTOR_COUNT (ram s)))
     (BOOT_DEBUG_RAM_ADDRESS := 0x30)"
  by (simp add: bootAppInitializeInterrupts_def Let_def setDebug_def)

lemma initializeInterrupts_vectors:
  assumes "i < TOTAL_VECTOR_COUNT"
  shows "ram (bootAppInitializeInterrupts f s) (ramVector i) =
    readUint32 f (BOOT_APPLICATION_VECTOR_TABLE + 4 * (if i < SYSTEM_VECTOR_COUNT then i else 3))"
proof (cases "i < SYSTEM_VECTOR_COUNT")
  case True
  have "storeVectors (\<lambda>_. readUint32 f (BOOT_APPLICATION_VECTOR_TABLE + 12)) SYSTEM_VECTOR_COUNT TOTAL_VECTOR_COUNT m
      (ramVector i) = m (ramVector i)" for m
  proof (rule storeVectors_out)
    fix k assume "SYSTEM_VECTOR_COUNT \<le> k" "k < TOTAL_VECTOR_COUNT"
    with True ramVector_inj [of i k] show "ramVector i \<noteq> ramVector k" by (auto simp: startup_consts)
  qed
  with True ramVector_not_debug [OF assms] show ?thesis
    by (simp add: initializeInterrupts_ram storeVectors_at startup_consts)
next
  case False
  with assms ramVector_not_debug [OF assms] show ?thesis
    by (simp add: initializeInterrupts_ram storeVectors_at startup_consts)
qed

lemma initializeInterrupts_elsewhere:
  assumes "a \<noteq> BOOT_DEBUG_RAM_ADDRESS" "\<And>i. i < TOTAL_VECTOR_COUNT \<Longrightarrow> a \<noteq> ramVector i"
  shows "ram (bootAppInitializeInterrupts f s) a = ram s a"
  using assms by (auto simp: initializeInterrupts_ram storeVectors_out startup_consts)

text \<open>C36. After the bootloader's jump to a valid image, the relocated application's reset handler leaves the
  processor with every interrupt disabled and not pending and with the vector table in RAM: the first 15 entries are the
  application's own (the second is the entry point that was jumped to), the entries 15 to 54 all lead to its hard-fault
  handler, and no other word of RAM changes except the debug word. The 55 entries are five more than the RTOS
  configuration reserves for the table.\<close>

theorem relocated_vector_table:
  assumes "isApplicationImageValid f metadata"
    and "s' = ResetISR (\<lambda>s. s) f \<lparr>cpuRegs = startApplication f c, ram = m\<rparr>"
  shows "vtable (cpuRegs s') = RAM_VECTOR_TABLE \<and> nvicEnabled (cpuRegs s') = (0, 0) \<and> nvicPending (cpuRegs s') = (0, 0) \<and>
    pc (cpuRegs s') = ram s' (ramVector 1) \<and> sp (cpuRegs s') = ram s' (ramVector 0) \<and>
    (\<forall>i<15. ram s' (ramVector i) = readUint32 f (0x8000 + 4 * i)) \<and>
    (\<forall>i. 15 \<le> i \<and> i < 55 \<longrightarrow> ram s' (ramVector i) = readUint32 f (0x8000 + 4 * 3)) \<and>
    (\<forall>a. a \<noteq> BOOT_DEBUG_RAM_ADDRESS \<and> (\<forall>i<55. a \<noteq> ramVector i) \<longrightarrow> ram s' a = m a)"
proof -
  let ?s = "setDebug 0x10 \<lparr>cpuRegs = startApplication f c, ram = m\<rparr>"
  have s': "s' = setDebug 0x11 (bootAppInitializeInterrupts f ?s)"
    using assms(2) by (simp add: ResetISR_def Startup_reset_def Let_def)
  have regs: "cpuRegs s' = (startApplication f c)\<lparr>nvicEnabled := (0, 0), nvicPending := (0, 0), vtable := RAM_VECTOR_TABLE\<rparr>"
    by (simp add: s' bootAppInitializeInterrupts_def Let_def setDebug_def)
  have entry: "pc (startApplication f c) = readUint32 f (0x8000 + 4 * 1)" "sp (startApplication f c) = readUint32 f (0x8000 + 4 * 0)"
    by (simp_all add: startApplication_def Let_def)
  have vec: "ram s' (ramVector i) = readUint32 f (0x8000 + 4 * (if i < 15 then i else 3))" if "i < 55" for i
    using initializeInterrupts_vectors [of i f ?s] ramVector_not_debug [of i] that
    by (simp add: s' setDebug_def startup_consts)
  have other: "ram s' a = m a" if "a \<noteq> BOOT_DEBUG_RAM_ADDRESS" "\<forall>i<55. a \<noteq> ramVector i" for a
    using initializeInterrupts_elsewhere [of a f ?s] that by (simp add: s' setDebug_def TOTAL_VECTOR_COUNT_def)
  show ?thesis
    using vec [of 0] vec [of 1] vec other by (simp add: regs entry)
qed

theorem relocated_vector_table_witness:
  "vtable (cpuRegs (ResetISR (\<lambda>s. s) demoFlash \<lparr>cpuRegs = startApplication demoFlash resetCpu, ram = \<lambda>_. 7\<rparr>)) =
     RAM_VECTOR_TABLE \<and>
   pc (cpuRegs (ResetISR (\<lambda>s. s) demoFlash \<lparr>cpuRegs = startApplication demoFlash resetCpu, ram = \<lambda>_. 7\<rparr>)) =
     ram (ResetISR (\<lambda>s. s) demoFlash \<lparr>cpuRegs = startApplication demoFlash resetCpu, ram = \<lambda>_. 7\<rparr>) (ramVector 1)"
  using relocated_vector_table [OF demoFlash_valid refl] by blast

section \<open>The heap\<close>

lemma unat_block8: "unat (w :: u32) = n \<Longrightarrow> unat (w div 8 * 8) = n div 8 * 8"
proof -
  assume w: "unat w = n"
  have "n div 8 * 8 < 2 ^ 32" using unat_u32_less [of w] div_times_less_eq_dividend [of n 8] w by simp
  with w show ?thesis by (simp add: unat_word_ariths unat_div)
qed

lemma unat_align8: "unat ((w :: u32) AND NOT 7) = (unat w div 8) * 8"
proof -
  have seven: "(7 :: u32) = mask 3" by (simp add: mask_eq_exp_minus_1)
  have "w AND NOT 7 = push_bit 3 (drop_bit 3 w)"
    unfolding seven by (rule bit_word_eqI) (auto simp: bit_simps)
  moreover have "push_bit 3 (drop_bit 3 w) = w div 8 * 8"
    by (simp add: push_bit_eq_mult drop_bit_eq_div)
  ultimately show ?thesis by (simp only: unat_block8 [OF refl])
qed

text \<open>C37. The primary heap of the relocated image: with the configured heap object (alignment and block alignment 8), a
  region that can hold one header, and an object outside that header, \<open>bootAppInitializeHeap\<close> leaves a free list
  of one block that begins at the first aligned address of the region, whose size is the largest multiple of
  8 that ends inside the region, and whose header says so.\<close>

theorem primary_heap_initialised:
  assumes "\<forall>i<6. ram s (heapWord heapObject i) = heapObjectTable fxns ! i"
    and "unat heapStart + 16 \<le> unat heapEnd"
    and "a = (heapStart + 7) AND NOT 7" "s' = bootAppInitializeHeap heapStart heapEnd heapObject s"
    and "\<forall>i<6. heapWord heapObject i \<notin> {a, a + 4, BOOT_DEBUG_RAM_ADDRESS}" "BOOT_DEBUG_RAM_ADDRESS \<notin> {a, a + 4}"
  shows "ram s' (heapWord heapObject 2) = a \<and> ram s' (heapWord heapObject 3) = a \<and> ram s' a = 0 \<and>
    ram s' (a + 4) = ram s' (heapWord heapObject 4) \<and>
    unat heapStart \<le> unat a \<and> unat a < unat heapStart + 8 \<and> 8 dvd unat a \<and>
    (let size = unat (ram s' (heapWord heapObject 4)) in
       8 dvd size \<and> unat a + size \<le> unat heapEnd \<and> unat heapEnd < unat a + size + 8 \<and> 8 \<le> size)"
proof -
  have obj: "ram s (heapWord heapObject 1) = 8" "ram s (heapWord heapObject 5) = 8"
    using assms(1) by (auto simp: heapObjectTable_def)
  have dist: "heapWord heapObject i = heapWord heapObject j \<longleftrightarrow> i = j" if "i < 6" "j < 6" for i j
  proof -
    have "unat (4 * of_nat i :: u32) = 4 * i" "unat (4 * of_nat j :: u32) = 4 * j"
      using that by (simp_all add: unat_four)
    then show ?thesis unfolding heapWord_def
      by (metis add_left_cancel mult_left_cancel zero_neq_numeral)
  qed
  have aligned: "7 + heapStart AND - 8 = a" using assms(3) by (simp add: add.commute)
  let ?size = "((heapEnd - a) div 8) * 8"
  have ne: "heapWord heapObject i \<noteq> a" "heapWord heapObject i \<noteq> a + 4" "heapWord heapObject i \<noteq> BOOT_DEBUG_RAM_ADDRESS"
    "a \<noteq> heapWord heapObject i" "a + 4 \<noteq> heapWord heapObject i" "BOOT_DEBUG_RAM_ADDRESS \<noteq> heapWord heapObject i" if "i < 6" for i
    using assms(5) that by auto
  have ne': "BOOT_DEBUG_RAM_ADDRESS \<noteq> a" "BOOT_DEBUG_RAM_ADDRESS \<noteq> a + 4" "a \<noteq> BOOT_DEBUG_RAM_ADDRESS" "a + 4 \<noteq> BOOT_DEBUG_RAM_ADDRESS"
    using assms(6) by auto
  have r: "ram s' (heapWord heapObject 2) = a" "ram s' (heapWord heapObject 3) = a" "ram s' a = 0" "ram s' (a + 4) = ?size"
    "ram s' (heapWord heapObject 4) = ?size"
    using obj ne ne' dist
    by (simp_all add: assms(4) bootAppInitializeHeap_def Let_def setDebug_def aligned)
  have "unat (heapStart + 7) = unat heapStart + 7"
    using assms(2) unat_u32_less [of heapEnd] by (simp add: unat_word_ariths)
  then have ua: "unat a = (unat heapStart + 7) div 8 * 8" by (simp only: assms(3) unat_align8)
  then have a: "unat heapStart \<le> unat a" "unat a < unat heapStart + 8" "8 dvd unat a" by auto
  have "unat (heapEnd - a) = unat heapEnd - unat a" using a(2) assms(2) by (simp add: unat_sub word_le_nat_alt)
  then have sz: "unat ?size = (unat heapEnd - unat a) div 8 * 8" by (rule unat_block8)
  have "8 dvd unat ?size" "unat a + unat ?size \<le> unat heapEnd" "unat heapEnd < unat a + unat ?size + 8" "8 \<le> unat ?size"
    using a(2) assms(2) unfolding sz by auto
  with r a show ?thesis by (simp add: Let_def)
qed

theorem primary_heap_initialised_witness:
  "let s = \<lparr>cpuRegs = resetCpu, ram = (\<lambda>x. if x = 0x20001004 \<or> x = 0x20001014 then 8 else 0)\<rparr>;
       s' = bootAppInitializeHeap 0x20002003 0x20002100 0x20001000 s
   in ram s' (heapWord 0x20001000 2) = 0x20002008 \<and> ram s' 0x20002008 = 0 \<and>
      8 dvd unat (ram s' (heapWord 0x20001000 4))"
proof -
  have a: "(0x20002003 + 7 :: u32) AND NOT 7 = 0x20002008" by simp
  have upto: "(\<forall>i<6. P i) \<longleftrightarrow> P 0 \<and> P 1 \<and> P 2 \<and> P 3 \<and> P 4 \<and> P 5" for P :: "nat \<Rightarrow> bool"
    by (auto simp: All_less_Suc numeral_eq_Suc)
  have h: "\<forall>i<6. (\<lambda>x :: u32. if x = 0x20001004 \<or> x = 0x20001014 then 8 else 0 :: u32) (heapWord 0x20001000 i) = heapObjectTable 0 ! i"
    unfolding upto by (simp add: heapWord_def heapObjectTable_def)
  have d: "\<forall>i<6. heapWord 0x20001000 i \<notin> {0x20002008, 0x20002008 + 4, BOOT_DEBUG_RAM_ADDRESS}"
    unfolding upto by (simp add: heapWord_def BOOT_DEBUG_RAM_ADDRESS_def)
  show ?thesis
    using primary_heap_initialised [of "\<lparr>cpuRegs = resetCpu, ram = (\<lambda>x. if x = 0x20001004 \<or> x = 0x20001014 then 8 else 0)\<rparr>"
      "0x20001000" 0 "0x20002003" "0x20002100" "0x20002008", OF _ _ a [symmetric] refl] h d
    by (simp add: Let_def BOOT_DEBUG_RAM_ADDRESS_def)
qed
end
