(* ===== verification/Rtos_Config.thy ===== *)
theory Rtos_Config
  imports Startup_Fix
begin

text \<open>
  The functions that the generated configuration of the RTOS defines itself (\<open>boot_build/release_boot_cfg.c\<close>) and the lock of the run-time library
  that they install (\<open>_lock.c\<close>). The kernel is called, not modelled: its calls are listed in the order they are made, and the gate
  that the lock uses is a parameter.
\<close>

section \<open>State\<close>

text \<open>The functions that can be registered as the run-time library's lock.\<close>

datatype rts_fn = Nop | BIOS_nullFunc | BIOS_rtsLock | BIOS_rtsUnlock

datatype bios_call = BIOS_linkedWithIncorrectBootLibrary | System_atexit | Timer_startup | Hwi_startup | Swi_startup | Task_startup
  | Swi_disable | Task_disable | BIOS_setThreadType_Main | System_exit int | Clock_logTick | Swi_post u32

record 'g bios =
  lockFxn :: rts_fn
  unlockFxn :: rts_fn
  rtsGate :: bool
  rtsGateCount :: u32
  rtsGateKey :: u32
  gateState :: 'g
  biosCalls :: "bios_call list"

text \<open>A gate: a thread enters it and gets a key, or has to wait (\<open>None\<close>); it leaves with a key.\<close>

record 'g gate_ops =
  gateEnter :: "nat \<Rightarrow> 'g \<Rightarrow> (u32 \<times> 'g) option"
  gateLeave :: "u32 \<Rightarrow> 'g \<Rightarrow> 'g"

definition callBios :: "bios_call list \<Rightarrow> 'g bios \<Rightarrow> 'g bios" where
  "callBios cs st = st\<lparr>biosCalls := biosCalls st @ cs\<rparr>"

section \<open>The lock of the run-time library\<close>

definition register_lock :: "rts_fn \<Rightarrow> 'g bios \<Rightarrow> 'g bios" where
  "register_lock f st = st\<lparr>lockFxn := f\<rparr>"

definition register_unlock :: "rts_fn \<Rightarrow> 'g bios \<Rightarrow> 'g bios" where
  "register_unlock f st = st\<lparr>unlockFxn := f\<rparr>"

definition rtsLock :: "'g gate_ops \<Rightarrow> nat \<Rightarrow> 'g bios \<Rightarrow> 'g bios option" where
  "rtsLock ops thread st =
     (case gateEnter ops thread (gateState st) of
        None \<Rightarrow> None
      | Some (key, g) \<Rightarrow>
          let st = st\<lparr>gateState := g\<rparr>;
              st = (if rtsGateCount st = 0 then st\<lparr>rtsGateKey := key\<rparr> else st)
          in Some (st\<lparr>rtsGateCount := rtsGateCount st + 1\<rparr>))"

definition rtsUnlock :: "'g gate_ops \<Rightarrow> 'g bios \<Rightarrow> 'g bios" where
  "rtsUnlock ops st =
     (let st = st\<lparr>rtsGateCount := rtsGateCount st - 1\<rparr> in
      if rtsGateCount st = 0 then st\<lparr>gateState := gateLeave ops (rtsGateKey st) (gateState st)\<rparr> else st)"

text \<open>A call through the pointers \<open>_lock\<close> and \<open>_unlock\<close>.\<close>

primrec callFxn :: "'g gate_ops \<Rightarrow> nat \<Rightarrow> rts_fn \<Rightarrow> 'g bios \<Rightarrow> 'g bios option" where
  "callFxn ops thread Nop st = Some st"
| "callFxn ops thread BIOS_nullFunc st = Some st"
| "callFxn ops thread BIOS_rtsLock st = rtsLock ops thread st"
| "callFxn ops thread BIOS_rtsUnlock st = Some (rtsUnlock ops st)"

definition rts_lock :: "'g gate_ops \<Rightarrow> nat \<Rightarrow> 'g bios \<Rightarrow> 'g bios option" where
  "rts_lock ops thread st = callFxn ops thread (lockFxn st) st"

definition rts_unlock :: "'g gate_ops \<Rightarrow> nat \<Rightarrow> 'g bios \<Rightarrow> 'g bios option" where
  "rts_unlock ops thread st = callFxn ops thread (unlockFxn st) st"

definition registerRTSLock :: "'g bios \<Rightarrow> 'g bios" where
  "registerRTSLock st =
     (if rtsGate st then register_unlock BIOS_rtsUnlock (register_lock BIOS_rtsLock st) else st)"

definition removeRTSLock :: "'g bios \<Rightarrow> 'g bios" where
  "removeRTSLock st =
     (if rtsGate st then register_unlock BIOS_nullFunc (register_lock BIOS_nullFunc st) else st)"

section \<open>Start and end of the kernel\<close>

text \<open>\<open>BIOS_linkedWithIncorrectBootLibrary\<close> does not return.\<close>

definition BIOS_startFunc :: "bool \<Rightarrow> 'g bios \<Rightarrow> 'g bios" where
  "BIOS_startFunc rtsDone st =
     (if \<not> rtsDone then callBios [BIOS_linkedWithIncorrectBootLibrary] st
      else let st = callBios [System_atexit] st;
               st = registerRTSLock st
           in callBios [Timer_startup, Hwi_startup, Swi_startup, Task_startup] st)"

definition BIOS_atExitFunc :: "'g bios \<Rightarrow> 'g bios" where
  "BIOS_atExitFunc st =
     (let st = callBios [Swi_disable, Task_disable, BIOS_setThreadType_Main] st in
      if rtsGate st then register_unlock Nop (register_lock Nop st) else st)"

definition BIOS_exitFunc :: "int \<Rightarrow> 'g bios \<Rightarrow> 'g bios" where
  "BIOS_exitFunc stat st = callBios [BIOS_setThreadType_Main, System_exit stat] (removeRTSLock st)"

definition BIOS_errorRaiseHook :: "bool \<Rightarrow> 'g bios \<Rightarrow> 'g bios" where
  "BIOS_errorRaiseHook assertFailed st =
     (if assertFailed then callBios [BIOS_setThreadType_Main] (removeRTSLock st) else st)"

definition Clock_doTick :: "u32 \<Rightarrow> 'g bios \<Rightarrow> 'g bios" where
  "Clock_doTick clockSwi st = callBios [Swi_post clockSwi] (callBios [Clock_logTick] st)"

text \<open>The initial module state; the run-time library's pointers start as \<open>_nop\<close>.\<close>

definition biosModuleState :: "'g \<Rightarrow> 'g bios" where
  "biosModuleState g = \<lparr>lockFxn = Nop, unlockFxn = Nop, rtsGate = True, rtsGateCount = 0, rtsGateKey = 0, gateState = g, biosCalls = []\<rparr>"

section \<open>Start-up state, clock and device revision\<close>

text \<open>The table is null until the start-up functions run.\<close>

definition moduleIndex :: "nat \<Rightarrow> nat option" where
  "moduleIndex moduleId = map_of [(12, 0), (22, 1), (26, 2), (29, 3), (30, 4), (36, 5), (41, 6), (42, 7), (43, 8)] moduleId"

definition Startup_getState :: "int list option \<Rightarrow> nat \<Rightarrow> int option" where
  "Startup_getState stateTab moduleId =
     (case moduleIndex moduleId of
        None \<Rightarrow> Some 0
      | Some i \<Rightarrow> (case stateTab of None \<Rightarrow> None | Some tab \<Rightarrow> fetch tab i))"

text \<open>\<open>time\<close>: seconds since 1970 become seconds since 1900; the second result is what is stored through a pointer that is not null.\<close>

definition bios_time :: "u32 \<Rightarrow> bool \<Rightarrow> u32 \<times> u32 option" where
  "bios_time secondsGet tout = (let t = secondsGet + 2208988800 in (t, if tout then Some t else None))"

definition REVISION_WORD :: nat where "REVISION_WORD = 0x1001ca94"

text \<open>Whether the check returns; otherwise it stays in its loop.\<close>

definition checkRevision :: "(nat \<Rightarrow> u32) \<Rightarrow> bool" where
  "checkRevision rom = (rom REVISION_WORD = 0x20394770)"

definition generatedResetISR :: "(startup \<Rightarrow> 'a) \<Rightarrow> startup \<Rightarrow> 'a" where
  "generatedResetISR c_int00 s = c_int00 s"

definition Startup_exec :: "(nat \<Rightarrow> startup \<Rightarrow> startup) \<Rightarrow> startup \<Rightarrow> startup" where
  "Startup_exec startModsFxn s = startModsFxn 9 s"

section \<open>Mutual exclusion\<close>

text \<open>What the kernel documents of its mutex gate: a free gate is given to the thread that enters, and the key of that entry frees it again; the
  holder may enter again without effect; the others wait.\<close>

definition gateContract :: "'g gate_ops \<Rightarrow> ('g \<Rightarrow> nat option) \<Rightarrow> bool" where
  "gateContract ops holder \<longleftrightarrow>
     (\<forall>g t. holder g = None \<longrightarrow> (\<exists>key g'. gateEnter ops t g = Some (key, g') \<and> holder g' = Some t \<and> holder (gateLeave ops key g') = None)) \<and>
     (\<forall>g t. holder g = Some t \<longrightarrow> (\<exists>key. gateEnter ops t g = Some (key, g))) \<and>
     (\<forall>g t u. holder g = Some u \<longrightarrow> u \<noteq> t \<longrightarrow> gateEnter ops t g = None)"

text \<open>Threads that call \<open>_lock\<close> and \<open>_unlock\<close> in any order, each releasing only what it has locked; \<open>d\<close> is how often each of them has locked.\<close>

inductive lockRun :: "'g gate_ops \<Rightarrow> 'g bios \<Rightarrow> (nat \<Rightarrow> nat) \<Rightarrow> 'g bios \<Rightarrow> bool" for ops st0 where
  start: "lockRun ops st0 (\<lambda>_. 0) st0"
| lock: "lockRun ops st0 d st \<Longrightarrow> rts_lock ops t st = Some st' \<Longrightarrow> d t + 1 < 2 ^ 32 \<Longrightarrow> lockRun ops st0 (d(t := d t + 1)) st'"
| unlock: "lockRun ops st0 d st \<Longrightarrow> 0 < d t \<Longrightarrow> rts_unlock ops t st = Some st' \<Longrightarrow> lockRun ops st0 (d(t := d t - 1)) st'"

text \<open>Either nobody holds the lock and the gate is free, or one thread does, and the count and the key are those of its nesting.\<close>

definition lockInv :: "'g gate_ops \<Rightarrow> ('g \<Rightarrow> nat option) \<Rightarrow> (nat \<Rightarrow> nat) \<Rightarrow> 'g bios \<Rightarrow> bool" where
  "lockInv ops holder d st \<longleftrightarrow> lockFxn st = BIOS_rtsLock \<and> unlockFxn st = BIOS_rtsUnlock \<and>
     (case holder (gateState st) of
        None \<Rightarrow> rtsGateCount st = 0 \<and> (\<forall>t. d t = 0)
      | Some t \<Rightarrow> 0 < d t \<and> d t < 2 ^ 32 \<and> rtsGateCount st = of_nat (d t) \<and> (\<forall>u. u \<noteq> t \<longrightarrow> d u = 0) \<and>
          holder (gateLeave ops (rtsGateKey st) (gateState st)) = None)"

lemma count_nonzero: "0 < n \<Longrightarrow> n < 2 ^ 32 \<Longrightarrow> (of_nat n :: u32) \<noteq> 0"
proof
  assume n: "0 < n" "n < 2 ^ 32" "(of_nat n :: u32) = 0"
  then have "unat (of_nat n :: u32) = n" by (intro unat_of_nat_less) simp
  then show False using n by simp
qed

lemma lock_step:
  assumes gate: "gateContract ops holder" and inv: "lockInv ops holder d st" and st': "rts_lock ops t st = Some st'" "d t + 1 < 2 ^ 32"
  shows "lockInv ops holder (d(t := d t + 1)) st'" "d u = 0 \<or> u = t"
proof -
  have lk: "rtsLock ops t st = Some st'" using inv st'(1) by (simp add: lockInv_def rts_lock_def)
  have "lockInv ops holder (d(t := d t + 1)) st' \<and> (d u = 0 \<or> u = t)"
  proof (cases "holder (gateState st)")
    case None
    then obtain key g' where e: "gateEnter ops t (gateState st) = Some (key, g')" "holder g' = Some t" "holder (gateLeave ops key g') = None"
      using gate unfolding gateContract_def by blast
    have z: "rtsGateCount st = 0" "\<forall>t. d t = 0" using inv None by (auto simp: lockInv_def)
    then have "st' = st\<lparr>gateState := g', rtsGateKey := key, rtsGateCount := 1\<rparr>" using lk e(1) by (simp add: rtsLock_def Let_def)
    then show ?thesis using inv e z by (simp add: lockInv_def)
  next
    case (Some v)
    have v: "v = t"
    proof (rule ccontr)
      assume "v \<noteq> t"
      then have "gateEnter ops t (gateState st) = None" using gate Some unfolding gateContract_def by blast
      then show False using lk by (simp add: rtsLock_def)
    qed
    then obtain key where e: "gateEnter ops t (gateState st) = Some (key, gateState st)" using gate Some unfolding gateContract_def by blast
    have i: "0 < d t" "d t < 2 ^ 32" "rtsGateCount st = of_nat (d t)" "\<forall>u. u \<noteq> t \<longrightarrow> d u = 0"
      using inv Some v by (auto simp: lockInv_def)
    have "rtsGateCount st \<noteq> 0" using count_nonzero [OF i(1,2)] i(3) by simp
    then have "st' = st\<lparr>rtsGateCount := rtsGateCount st + 1\<rparr>" using lk e by (simp add: rtsLock_def Let_def)
    then show ?thesis using inv Some v i st'(2) by (auto simp: lockInv_def)
  qed
  then show "lockInv ops holder (d(t := d t + 1)) st'" "d u = 0 \<or> u = t" by auto
qed

lemma unlock_step:
  assumes inv: "lockInv ops holder d st" and st': "rts_unlock ops t st = Some st'" "0 < d t"
  shows "lockInv ops holder (d(t := d t - 1)) st'"
proof -
  have lk: "st' = rtsUnlock ops st" using inv st'(1) by (simp add: lockInv_def rts_unlock_def)
  obtain v where h: "holder (gateState st) = Some v" using inv st'(2) by (cases "holder (gateState st)") (auto simp: lockInv_def)
  then have v: "v = t" using inv st'(2) by (auto simp: lockInv_def)
  have i: "d t < 2 ^ 32" "rtsGateCount st = of_nat (d t)" "\<forall>u. u \<noteq> t \<longrightarrow> d u = 0" "holder (gateLeave ops (rtsGateKey st) (gateState st)) = None"
    using inv h v by (auto simp: lockInv_def)
  have n: "rtsGateCount st - 1 = of_nat (d t - 1)" using st'(2) i(2) by (simp add: of_nat_diff)
  show ?thesis
  proof (cases "d t = 1")
    case True
    then show ?thesis using inv i n by (simp add: lk rtsUnlock_def lockInv_def)
  next
    case False
    then have "(of_nat (d t - 1) :: u32) \<noteq> 0" using st'(2) i(1) by (intro count_nonzero) auto
    then have "st' = st\<lparr>rtsGateCount := of_nat (d t - 1)\<rparr>" using n by (simp add: lk rtsUnlock_def)
    then show ?thesis using inv h v i False st'(2) by (auto simp: lockInv_def)
  qed
qed

text \<open>C8. Once the kernel has started, the lock it installs in the run-time library excludes: in every interleaving of threads that lock, also
  repeatedly, and unlock what they have locked, at most one thread is inside. A thread can lock exactly when no other is inside, an unlock never waits,
  the gate is left exactly when the outermost section ends, and then it is free. A lock count of fewer than \<open>2 ^ 32\<close> is assumed.\<close>

theorem rts_lock_excludes:
  assumes "gateContract ops holder" "holder g = None"
    and "lockRun ops (BIOS_startFunc True (biosModuleState g)) d st"
  shows "(\<forall>t u. 0 < d t \<longrightarrow> 0 < d u \<longrightarrow> t = u) \<and>
    (\<forall>t. rts_lock ops t st \<noteq> None \<longleftrightarrow> (\<forall>u. u \<noteq> t \<longrightarrow> d u = 0)) \<and>
    (\<forall>t. rts_unlock ops t st \<noteq> None) \<and>
    (holder (gateState st) = None \<longleftrightarrow> (\<forall>t. d t = 0))"
proof -
  have "lockInv ops holder d st" using assms(3)
  proof induction
    case start
    then show ?case using assms(2) by (simp add: lockInv_def BIOS_startFunc_def registerRTSLock_def register_lock_def register_unlock_def
        callBios_def biosModuleState_def)
  next
    case (lock d st t st')
    then show ?case by (intro lock_step(1) [OF assms(1)])
  next
    case (unlock d st t st')
    then show ?case by (intro unlock_step)
  qed
  then have inv: "lockFxn st = BIOS_rtsLock" "unlockFxn st = BIOS_rtsUnlock" and
      c: "case holder (gateState st) of None \<Rightarrow> \<forall>t. d t = 0 | Some t \<Rightarrow> 0 < d t \<and> (\<forall>u. u \<noteq> t \<longrightarrow> d u = 0)"
    by (auto simp: lockInv_def split: option.splits)
  have l: "rts_lock ops t st \<noteq> None \<longleftrightarrow> (\<forall>u. u \<noteq> t \<longrightarrow> d u = 0)" for t
  proof -
    have "rts_lock ops t st \<noteq> None \<longleftrightarrow> gateEnter ops t (gateState st) \<noteq> None"
      by (simp add: rts_lock_def inv rtsLock_def Let_def split: option.splits)
    also have "\<dots> \<longleftrightarrow> (case holder (gateState st) of None \<Rightarrow> True | Some u \<Rightarrow> u = t)"
      using assms(1) unfolding gateContract_def by (cases "holder (gateState st)") fastforce+
    also have "\<dots> \<longleftrightarrow> (\<forall>u. u \<noteq> t \<longrightarrow> d u = 0)" using c by (cases "holder (gateState st)") auto
    finally show ?thesis .
  qed
  have "\<forall>t u. 0 < d t \<longrightarrow> 0 < d u \<longrightarrow> t = u" "holder (gateState st) = None \<longleftrightarrow> (\<forall>t. d t = 0)"
    using c by (auto split: option.splits) (metis less_irrefl)
  then show ?thesis using l by (simp add: rts_unlock_def inv)
qed

text \<open>A mutex with an owner, whose first entry has the key 0 and whose further entries have the key 1.\<close>

definition mutexOps :: "nat option gate_ops" where
  "mutexOps = \<lparr>gateEnter = (\<lambda>t g. case g of None \<Rightarrow> Some (0, Some t) | Some u \<Rightarrow> if u = t then Some (1, g) else None),
     gateLeave = (\<lambda>key g. if key = 0 then None else g)\<rparr>"

lemma mutexOps_contract: "gateContract mutexOps (\<lambda>g. g)"
  by (auto simp: gateContract_def mutexOps_def)

theorem rts_lock_excludes_witness:
  "\<exists>st. lockRun mutexOps (BIOS_startFunc True (biosModuleState None)) ((\<lambda>_. 0)(7 := 2)) st \<and>
    rts_lock mutexOps 3 st = None \<and> rts_lock mutexOps 7 st \<noteq> None"
proof -
  let ?s = "BIOS_startFunc True (biosModuleState None) :: nat option bios"
  have s: "lockFxn ?s = BIOS_rtsLock" "rtsGateCount ?s = 0" "gateState ?s = None"
    by (simp_all add: BIOS_startFunc_def registerRTSLock_def register_lock_def register_unlock_def callBios_def biosModuleState_def)
  have "rts_lock mutexOps 7 ?s = Some (?s\<lparr>gateState := Some 7, rtsGateKey := 0, rtsGateCount := 1\<rparr>)"
    by (simp add: rts_lock_def rtsLock_def mutexOps_def s)
  from lockRun.lock [OF lockRun.start this]
  have r1: "lockRun mutexOps ?s ((\<lambda>_. 0)(7 := 1)) (?s\<lparr>gateState := Some 7, rtsGateKey := 0, rtsGateCount := 1\<rparr>)" by simp
  have "rts_lock mutexOps 7 (?s\<lparr>gateState := Some 7, rtsGateKey := 0, rtsGateCount := 1\<rparr>) =
      Some (?s\<lparr>gateState := Some 7, rtsGateKey := 0, rtsGateCount := 2\<rparr>)"
    by (simp add: rts_lock_def rtsLock_def mutexOps_def s)
  note lk2 = this
  have e: "((\<lambda>_. 0 :: nat)(7 := 1))(7 := ((\<lambda>_. 0)(7 := 1)) 7 + 1) = (\<lambda>_. 0)(7 := 2)" by (rule ext) simp
  have r2: "lockRun mutexOps ?s ((\<lambda>_. 0)(7 := 2)) (?s\<lparr>gateState := Some 7, rtsGateKey := 0, rtsGateCount := 2\<rparr>)" 
    by (rule lockRun.lock [OF r1 lk2, unfolded e]) simp
  have x: "rts_lock mutexOps t (?s\<lparr>gateState := Some 7, rtsGateKey := 0, rtsGateCount := 2\<rparr>) \<noteq> None \<longleftrightarrow>
      (\<forall>u. u \<noteq> t \<longrightarrow> ((\<lambda>_. 0 :: nat)(7 := 2)) u = 0)" for t
    by (rule rts_lock_excludes [OF mutexOps_contract refl r2, THEN conjunct2, THEN conjunct1, THEN spec])
  have "\<not> (\<forall>u :: nat. u \<noteq> 3 \<longrightarrow> ((\<lambda>_. 0 :: nat)(7 := 2)) u = 0)"
    by (rule notI, drule spec [of _ 7]) simp
  with x [of 3] have "rts_lock mutexOps 3 (?s\<lparr>gateState := Some 7, rtsGateKey := 0, rtsGateCount := 2\<rparr>) = None" by blast
  moreover have "rts_lock mutexOps 7 (?s\<lparr>gateState := Some 7, rtsGateKey := 0, rtsGateCount := 2\<rparr>) \<noteq> None"
    unfolding x by simp
  ultimately show ?thesis using r2 by blast
qed

end
