(* ===== verification/Board_Functions.thy ===== *)
theory Board_Functions
  imports Prelude
begin

text \<open>
  The board-specific initialisation (\<open>CC1310_LAUNCHXL.c\<close>, \<open>CC1310_LAUNCHXL_fxns.c\<close>): pin ownership, and the external flash that is
  woken and then sent to deep power-down over three pins driven by software. The functions are the sequences of calls they make
  to the pin and power drivers and to \<open>CPUdelay\<close>; what the flash chip makes of such a sequence is defined beside them, from its
  serial interface (data is sampled on the rising clock while it is selected).
\<close>

section \<open>Calls\<close>

datatype pin_flag = PIN_GPIO_OUTPUT_EN | PIN_GPIO_LOW | PIN_GPIO_HIGH | PIN_PUSHPULL | PIN_INPUT_EN | PIN_INPUT_DIS
  | PIN_PULLUP | PIN_PULLDOWN | PIN_DRVSTR_MIN | PIN_DRVSTR_MED | PIN_DRVSTR_MAX | PIN_IRQ_BOTHEDGES | PIN_HYSTERESIS

text \<open>A configuration is the pin number with its flags, a table ends where its list ends, and a handle is the table it was opened with.\<close>

type_synonym pin_config = "nat \<times> pin_flag list"

datatype board_call = Power_init | PIN_init "pin_config list" | PIN_open "pin_config list"
  | PIN_setOutputValue "pin_config list" nat nat | PIN_close "pin_config list" | CPUdelay nat

definition IOID_8 :: nat where "IOID_8 = 8"
definition IOID_9 :: nat where "IOID_9 = 9"
definition IOID_10 :: nat where "IOID_10 = 10"
definition IOID_20 :: nat where "IOID_20 = 20"

lemmas ioids = IOID_8_def IOID_9_def IOID_10_def IOID_20_def

function sendExtFlashBits :: "pin_config list \<Rightarrow> u8 \<Rightarrow> nat \<Rightarrow> board_call list" where
  "sendExtFlashBits pinHandle byte i =
     (if i < 8 then
        [PIN_setOutputValue pinHandle IOID_10 0,
         PIN_setOutputValue pinHandle IOID_9 (unat (drop_bit (7 - i) byte AND 0x01)),
         PIN_setOutputValue pinHandle IOID_10 1,
         CPUdelay 8] @ sendExtFlashBits pinHandle byte (i + 1)
      else [])"
  by pat_completeness auto
termination by (relation "measure (\<lambda>(_, _, i). 8 - i)") auto

declare sendExtFlashBits.simps [simp del]

definition CC1310_LAUNCHXL_sendExtFlashByte :: "pin_config list \<Rightarrow> u8 \<Rightarrow> board_call list" where
  "CC1310_LAUNCHXL_sendExtFlashByte pinHandle byte =
     [PIN_setOutputValue pinHandle IOID_20 0] @
     sendExtFlashBits pinHandle byte 0 @
     [PIN_setOutputValue pinHandle IOID_10 0,
      PIN_setOutputValue pinHandle IOID_20 1,
      CPUdelay 700]"

definition wakeUpPinTable :: "pin_config list" where
  "wakeUpPinTable = [(IOID_20, [PIN_GPIO_OUTPUT_EN, PIN_GPIO_HIGH, PIN_PUSHPULL, PIN_INPUT_DIS, PIN_DRVSTR_MED])]"

definition CC1310_LAUNCHXL_wakeUpExtFlash :: "board_call list" where
  "CC1310_LAUNCHXL_wakeUpExtFlash =
     [PIN_open wakeUpPinTable,
      PIN_setOutputValue wakeUpPinTable IOID_20 0,
      CPUdelay 1,
      PIN_setOutputValue wakeUpPinTable IOID_20 1,
      CPUdelay 560,
      PIN_close wakeUpPinTable]"

definition shutDownPinTable :: "pin_config list" where
  "shutDownPinTable =
     [(IOID_20, [PIN_GPIO_OUTPUT_EN, PIN_GPIO_HIGH, PIN_PUSHPULL, PIN_INPUT_DIS, PIN_DRVSTR_MED]),
      (IOID_10, [PIN_GPIO_OUTPUT_EN, PIN_GPIO_LOW, PIN_PUSHPULL, PIN_INPUT_DIS, PIN_DRVSTR_MED]),
      (IOID_9, [PIN_GPIO_OUTPUT_EN, PIN_GPIO_LOW, PIN_PUSHPULL, PIN_INPUT_DIS, PIN_DRVSTR_MED]),
      (IOID_8, [PIN_INPUT_EN, PIN_PULLDOWN])]"

definition CC1310_LAUNCHXL_shutDownExtFlash :: "board_call list" where
  "CC1310_LAUNCHXL_shutDownExtFlash =
     CC1310_LAUNCHXL_wakeUpExtFlash @
     [PIN_open shutDownPinTable] @
     CC1310_LAUNCHXL_sendExtFlashByte shutDownPinTable 0xB9 @
     [PIN_close shutDownPinTable]"

definition Board_initHook :: "board_call list" where
  "Board_initHook = CC1310_LAUNCHXL_shutDownExtFlash"

definition BoardGpioInitTable :: "pin_config list" where
  "BoardGpioInitTable =
     [(6, [PIN_GPIO_OUTPUT_EN, PIN_GPIO_LOW, PIN_PUSHPULL, PIN_DRVSTR_MAX]),
      (7, [PIN_GPIO_OUTPUT_EN, PIN_GPIO_LOW, PIN_PUSHPULL, PIN_DRVSTR_MAX]),
      (13, [PIN_INPUT_EN, PIN_PULLUP, PIN_IRQ_BOTHEDGES, PIN_HYSTERESIS]),
      (14, [PIN_INPUT_EN, PIN_PULLUP, PIN_IRQ_BOTHEDGES, PIN_HYSTERESIS]),
      (20, [PIN_GPIO_OUTPUT_EN, PIN_GPIO_HIGH, PIN_PUSHPULL, PIN_DRVSTR_MIN]),
      (2, [PIN_INPUT_EN, PIN_PULLDOWN]),
      (3, [PIN_GPIO_OUTPUT_EN, PIN_GPIO_LOW, PIN_PUSHPULL]),
      (9, [PIN_INPUT_EN, PIN_PULLDOWN]),
      (8, [PIN_INPUT_EN, PIN_PULLDOWN]),
      (10, [PIN_INPUT_EN, PIN_PULLDOWN])]"

definition CC1310_LAUNCHXL_initGeneral :: "board_call list" where
  "CC1310_LAUNCHXL_initGeneral = [Power_init, PIN_init BoardGpioInitTable] @ Board_initHook"

definition Board_init :: "board_call list" where
  "Board_init = CC1310_LAUNCHXL_initGeneral"

text \<open>The bootloader's copy stops for ever when \<open>PIN_init\<close> fails: its second result tells whether it returns.\<close>

definition bootloaderInitGeneral :: "bool \<Rightarrow> board_call list \<times> bool" where
  "bootloaderInitGeneral pinSuccess =
     (if \<not> pinSuccess then ([Power_init, PIN_init BoardGpioInitTable], False)
      else ([Power_init, PIN_init BoardGpioInitTable] @ Board_initHook, True))"

definition bootloaderBoardInit :: "bool \<Rightarrow> board_call list \<times> bool" where
  "bootloaderBoardInit pinSuccess = bootloaderInitGeneral pinSuccess"

section \<open>The flash chip\<close>

text \<open>The levels of the three lines, the bits shifted in since the chip was selected, and the selections so far, each with the times
  of its edges. The time is counted in processor cycles spent in \<open>CPUdelay\<close>, three for each of its loops, which is a lower bound.\<close>

record ext_flash =
  chipSelect :: bool
  serialClock :: bool
  serialData :: bool
  shifted :: "bool list"
  selectedAt :: nat
  selections :: "(nat \<times> nat \<times> bool list) list"
  clock :: nat

definition selectLine :: "bool \<Rightarrow> ext_flash \<Rightarrow> ext_flash" where
  "selectLine v c =
     (if v \<and> \<not> chipSelect c then c\<lparr>chipSelect := True, selections := selections c @ [(selectedAt c, clock c, shifted c)]\<rparr>
      else if \<not> v \<and> chipSelect c then c\<lparr>chipSelect := False, shifted := [], selectedAt := clock c\<rparr>
      else c)"

definition clockLine :: "bool \<Rightarrow> ext_flash \<Rightarrow> ext_flash" where
  "clockLine v c =
     (if v \<and> \<not> serialClock c \<and> \<not> chipSelect c then c\<lparr>serialClock := True, shifted := shifted c @ [serialData c]\<rparr>
      else c\<lparr>serialClock := v\<rparr>)"

definition drive :: "nat \<Rightarrow> bool \<Rightarrow> ext_flash \<Rightarrow> ext_flash" where
  "drive pin v c =
     (if pin = 20 then selectLine v c else if pin = 10 then clockLine v c
      else if pin = 9 then c\<lparr>serialData := v\<rparr> else c)"

text \<open>A pin of a table takes the level of its configuration; a closed pin goes back to the board's default. Only pins of the
  handle can be driven.\<close>

definition configure :: "pin_config list \<Rightarrow> ext_flash \<Rightarrow> ext_flash" where
  "configure table c = fold (\<lambda>(pin, flags). drive pin (PIN_GPIO_HIGH \<in> set flags)) table c"

primrec flashSees :: "board_call \<Rightarrow> ext_flash \<Rightarrow> ext_flash" where
  "flashSees Power_init c = c"
| "flashSees (PIN_init table) c = configure table c"
| "flashSees (PIN_open table) c = configure table c"
| "flashSees (PIN_setOutputValue h pin v) c = (if pin \<in> fst ` set h then drive pin (v \<noteq> 0) c else c)"
| "flashSees (PIN_close h) c = configure (filter (\<lambda>(pin, flags). pin \<in> fst ` set h) BoardGpioInitTable) c"
| "flashSees (CPUdelay n) c = c\<lparr>clock := clock c + 3 * n\<rparr>"

definition commandByte :: "bool list \<Rightarrow> nat" where
  "commandByte bits = foldl (\<lambda>n b. 2 * n + of_bool b) 0 bits"

section \<open>Lemmas\<close>

lemma pin_numbers [simp]:
  "fst ` set shutDownPinTable = {20, 10, 9, 8}" "fst ` set wakeUpPinTable = {20}"
  by (auto simp: shutDownPinTable_def wakeUpPinTable_def ioids)

lemma flash_bit:
  assumes "{10, 9} \<subseteq> fst ` set h" "\<not> chipSelect c"
  shows "fold flashSees [PIN_setOutputValue h IOID_10 0, PIN_setOutputValue h IOID_9 v, PIN_setOutputValue h IOID_10 1, CPUdelay 8] c =
    c\<lparr>serialClock := True, serialData := (v \<noteq> 0), shifted := shifted c @ [v \<noteq> 0], clock := clock c + 24\<rparr>"
  using assms by (simp add: drive_def clockLine_def ioids)

lemma low_bit_nonzero: "unat (drop_bit n w AND (1 :: u8)) \<noteq> 0 \<longleftrightarrow> bit w n"
  by (simp add: and_one_eq bit_iff_odd_drop_bit unat_eq_zero flip: odd_iff_mod_2_eq_one)

lemma flash_bits:
  assumes "{10, 9} \<subseteq> fst ` set h" "\<not> chipSelect c" "i < 8"
  shows "fold flashSees (sendExtFlashBits h byte i) c =
    c\<lparr>serialClock := True, serialData := bit byte 0,
      shifted := shifted c @ map (\<lambda>j. bit byte (7 - j)) [i..<8], clock := clock c + 24 * (8 - i)\<rparr>"
  using assms
proof (induction h byte i arbitrary: c rule: sendExtFlashBits.induct)
  case (1 h byte i)
  let ?c = "c\<lparr>serialClock := True, serialData := bit byte (7 - i), shifted := shifted c @ [bit byte (7 - i)], clock := clock c + 24\<rparr>"
  have step: "fold flashSees (sendExtFlashBits h byte i) c = fold flashSees (sendExtFlashBits h byte (i + 1)) ?c"
    unfolding sendExtFlashBits.simps [of h byte i] fold_append
    using 1(4) flash_bit [OF 1(2,3), of "unat (drop_bit (7 - i) byte AND 1)"] by (simp only: if_True fold_append o_apply low_bit_nonzero)
  show ?case
  proof (cases "i = 7")
    case True
    then show ?thesis unfolding step by (subst sendExtFlashBits.simps) simp
  next
    case False
    then have "i + 1 < 8" using 1(4) by simp
    moreover have "[i..<8] = i # [i + 1..<8]" using 1(4) by (simp add: upt_conv_Cons)
    ultimately show ?thesis unfolding step using 1(1) [OF 1(4) 1(2), of ?c] 1(3,4) by simp
  qed
qed

lemma flash_byte:
  assumes "{20, 10, 9} \<subseteq> fst ` set h" "chipSelect c"
  shows "fold flashSees (CC1310_LAUNCHXL_sendExtFlashByte h byte) c =
    c\<lparr>serialClock := False, serialData := bit byte 0, shifted := map (\<lambda>j. bit byte (7 - j)) [0..<8], selectedAt := clock c,
      selections := selections c @ [(clock c, clock c + 192, map (\<lambda>j. bit byte (7 - j)) [0..<8])], clock := clock c + 2292\<rparr>"
proof -
  let ?c = "c\<lparr>chipSelect := False, shifted := [], selectedAt := clock c\<rparr>"
  have "fold flashSees (sendExtFlashBits h byte 0) ?c = ?c\<lparr>serialClock := True, serialData := bit byte 0,
      shifted := map (\<lambda>j. bit byte (7 - j)) [0..<8], clock := clock c + 192\<rparr>"
    using flash_bits [of h ?c 0 byte] assms(1) by simp
  moreover have "fold flashSees [PIN_setOutputValue h IOID_20 0] c = ?c"
    using assms by (simp add: drive_def selectLine_def ioids)
  ultimately show ?thesis
    using assms by (simp add: CC1310_LAUNCHXL_sendExtFlashByte_def fold_append drive_def selectLine_def clockLine_def ioids)
qed

lemma commandByte_bits: "commandByte (map (\<lambda>j. bit byte (7 - j)) [0..<8]) = unat (byte :: u8)"
proof -
  have "unat byte = take_bit 8 (unat byte)"
    using unat_u8_less [of byte] by (simp add: take_bit_nat_eq_self)
  also have "\<dots> = horner_sum of_bool 2 (map (bit (unat byte)) [0..<8])"
    by (simp add: horner_sum_bit_eq_take_bit)
  also have "map (bit (unat byte)) [0..<8] = map (bit byte) [0..<8]"
    by (simp add: bit_unsigned_iff)
  also have "[0..<8] = [0, 1, 2, 3, 4, 5, 6, 7 :: nat]" by code_simp
  finally show ?thesis by (simp only: commandByte_def \<open>[0..<8] = [0, 1, 2, 3, 4, 5, 6, 7 :: nat]\<close>) simp
qed

lemma flash_power_up:
  "fold flashSees ([Power_init, PIN_init BoardGpioInitTable] @ CC1310_LAUNCHXL_wakeUpExtFlash @ [PIN_open shutDownPinTable])
     \<lparr>chipSelect = True, serialClock = False, serialData = False, shifted = s, selectedAt = a, selections = [], clock = n\<rparr> =
   \<lparr>chipSelect = True, serialClock = False, serialData = False, shifted = [], selectedAt = n, selections = [(n, n + 3, [])], clock = n + 1683\<rparr>"
  by (simp add: BoardGpioInitTable_def CC1310_LAUNCHXL_wakeUpExtFlash_def wakeUpPinTable_def shutDownPinTable_def configure_def ioids
      drive_def selectLine_def clockLine_def)

lemma flash_power_down:
  "\<not> serialClock c \<Longrightarrow> chipSelect c \<Longrightarrow> flashSees (PIN_close shutDownPinTable) c = c\<lparr>serialData := False\<rparr>"
  by (simp add: BoardGpioInitTable_def configure_def drive_def selectLine_def clockLine_def)

text \<open>C23. The board initialisation of either image puts the external flash to sleep. Any byte sent through a handle that owns the three pins
  reaches the flash as one selection with exactly its eight bits, the most significant first. During
  \<open>Board_init\<close> the flash sees two selections: one of at least 20 ns without a clock edge, which wakes it, and, at least 35 us
  later (cycles of 48 MHz), one that carries the command 0xB9. Afterwards it stays deselected for at least 40 us, with the clock low and the
  pins given back; the bootloader does the same unless \<open>PIN_init\<close> fails, when it stops before any pin is driven.\<close>

theorem external_flash_put_to_sleep:
  fixes byte :: u8
  assumes "{IOID_20, IOID_10, IOID_9} \<subseteq> fst ` set h" "chipSelect c"
    and "c' = fold flashSees (CC1310_LAUNCHXL_sendExtFlashByte h byte) c"
    and "b' = fold flashSees Board_init
      \<lparr>chipSelect = True, serialClock = False, serialData = False, shifted = s, selectedAt = a, selections = [], clock = n\<rparr>"
  shows "(\<exists>from to bits. selections c' = selections c @ [(from, to, bits)] \<and> length bits = 8 \<and> commandByte bits = unat byte) \<and>
    chipSelect c' \<and> \<not> serialClock c' \<and>
    (\<exists>t1 t2 t3 t4 bits. selections b' = [(t1, t2, []), (t3, t4, bits)] \<and> length bits = 8 \<and> commandByte bits = 0xB9 \<and>
       48 * 20 \<le> 1000 * (t2 - t1) \<and> 48 * 35 \<le> t3 - t2 \<and> 48 * 40 \<le> clock b' - t4) \<and>
    chipSelect b' \<and> \<not> serialClock b' \<and>
    bootloaderBoardInit True = (Board_init, True) \<and>
    bootloaderBoardInit False = ([Power_init, PIN_init BoardGpioInitTable], False)"
proof -
  let ?bits = "\<lambda>byte :: u8. map (\<lambda>j. bit byte (7 - j)) [0..<8]"
  let ?w = "\<lparr>chipSelect = True, serialClock = False, serialData = False, shifted = [], selectedAt = n, selections = [(n, n + 3, [])], clock = n + 1683\<rparr>"
  have c': "selections c' = selections c @ [(clock c, clock c + 192, ?bits byte)]" "chipSelect c'" "\<not> serialClock c'"
    using flash_byte [of h c byte] assms(1-3) by (simp_all add: ioids)
  have calls: "Board_init = ([Power_init, PIN_init BoardGpioInitTable] @ CC1310_LAUNCHXL_wakeUpExtFlash @ [PIN_open shutDownPinTable]) @
      CC1310_LAUNCHXL_sendExtFlashByte shutDownPinTable 0xB9 @ [PIN_close shutDownPinTable]"
    by (simp add: Board_init_def CC1310_LAUNCHXL_initGeneral_def Board_initHook_def CC1310_LAUNCHXL_shutDownExtFlash_def)
  have "b' = flashSees (PIN_close shutDownPinTable) (fold flashSees (CC1310_LAUNCHXL_sendExtFlashByte shutDownPinTable 0xB9) ?w)"
    using flash_power_up [of s a n] unfolding assms(4) calls by (simp only: fold_append o_apply fold_simps id_apply)
  then have b': "selections b' = [(n, n + 3, []), (n + 1683, n + 1875, ?bits 0xB9)]" "chipSelect b'" "\<not> serialClock b'" "clock b' = n + 3975"
    by (simp_all add: flash_byte flash_power_down del: flashSees.simps(5))
  have "commandByte (?bits 0xB9) = 0xB9" using commandByte_bits [of "0xB9"] by simp
  then have "\<exists>t1 t2 t3 t4 bits. selections b' = [(t1, t2, []), (t3, t4, bits)] \<and> length bits = 8 \<and> commandByte bits = 0xB9 \<and>
       48 * 20 \<le> 1000 * (t2 - t1) \<and> 48 * 35 \<le> t3 - t2 \<and> 48 * 40 \<le> clock b' - t4"
    using b'(1,4) by (intro exI [of _ n] exI [of _ "n + 3"] exI [of _ "n + 1683"] exI [of _ "n + 1875"] exI [of _ "?bits 0xB9"]) simp
  moreover have "\<exists>from to bits. selections c' = selections c @ [(from, to, bits)] \<and> length bits = 8 \<and> commandByte bits = unat byte"
    using c'(1) commandByte_bits [of byte] by auto
  moreover have "bootloaderBoardInit True = (Board_init, True)" "bootloaderBoardInit False = ([Power_init, PIN_init BoardGpioInitTable], False)"
    by (simp_all add: bootloaderBoardInit_def bootloaderInitGeneral_def Board_init_def CC1310_LAUNCHXL_initGeneral_def)
  ultimately show ?thesis using b'(2,3) c'(2,3) by blast
qed

definition demoFlashChip :: ext_flash where
  "demoFlashChip = \<lparr>chipSelect = True, serialClock = False, serialData = False, shifted = [], selectedAt = 0, selections = [], clock = 0\<rparr>"

theorem external_flash_put_to_sleep_witness:
  "chipSelect (fold flashSees (CC1310_LAUNCHXL_sendExtFlashByte shutDownPinTable 0x9F) demoFlashChip) \<and>
   (\<exists>t1 t2 t3 t4 bits. selections (fold flashSees Board_init demoFlashChip) = [(t1, t2, []), (t3, t4, bits)] \<and> commandByte bits = 0xB9)"
proof -
  have "{IOID_20, IOID_10, IOID_9} \<subseteq> fst ` set shutDownPinTable" by (simp add: ioids)
  from external_flash_put_to_sleep [OF this _ refl refl, of demoFlashChip "0x9F" "[]" 0 0] show ?thesis
    unfolding demoFlashChip_def by auto
qed

end
