(* ===== verification/Cobs.thy ===== *)
theory Cobs
  imports Prelude
begin

text \<open>
  The byte stuffing of the update protocol: \<open>cobsEncode\<close> and the in-place \<open>cobsDecode\<close> of
  \<open>bootloader.c\<close>. Both are modelled on the arrays the code works on, with every store and load
  checked against the array bounds (\<open>None\<close> is an access outside the array). Indices are natural
  numbers: the callers pass at most 162 bytes, and the lemmas bound every index by the array
  length, so the 16-bit indices of the code never wrap. The reference functions \<open>cobs_enc\<close> and
  \<open>cobs_dec\<close> state the encoding on lists; the array routines are shown to compute them.
\<close>

section \<open>The routines of the code\<close>

primrec cobsEncodeLoop ::
  "u8 list \<Rightarrow> u8 list \<Rightarrow> nat \<Rightarrow> nat \<Rightarrow> u8 \<Rightarrow> (u8 list \<times> nat \<times> nat \<times> u8) option" where
  "cobsEncodeLoop [] destination destinationIndex codeIndex code =
     Some (destination, destinationIndex, codeIndex, code)"
| "cobsEncodeLoop (s # source) destination destinationIndex codeIndex code =
     (if s = 0 then
        (case store destination codeIndex code of None \<Rightarrow> None
         | Some d \<Rightarrow> cobsEncodeLoop source d (destinationIndex + 1) destinationIndex 1)
      else
        (case store destination destinationIndex s of None \<Rightarrow> None
         | Some d \<Rightarrow>
            if code + 1 = 0xFF then
              (case store d codeIndex (code + 1) of None \<Rightarrow> None
               | Some d' \<Rightarrow> cobsEncodeLoop source d' (destinationIndex + 2) (destinationIndex + 1) 1)
            else cobsEncodeLoop source d (destinationIndex + 1) codeIndex (code + 1)))"

definition cobsEncode :: "u8 list \<Rightarrow> u8 list \<Rightarrow> (u8 list \<times> nat) option" where
  "cobsEncode source destination =
     (case store destination 0 0 of None \<Rightarrow> None
      | Some d0 \<Rightarrow>
         (case cobsEncodeLoop source d0 1 0 1 of None \<Rightarrow> None
          | Some (d, destinationIndex, codeIndex, code) \<Rightarrow>
             (case store d codeIndex code of None \<Rightarrow> None
              | Some d' \<Rightarrow> Some (d', destinationIndex))))"

primrec cobsCopy :: "nat \<Rightarrow> u8 list \<Rightarrow> nat \<Rightarrow> nat \<Rightarrow> u8 list option" where
  "cobsCopy 0 buffer writeIndex readIndex = Some buffer"
| "cobsCopy (Suc n) buffer writeIndex readIndex =
     (case fetch buffer readIndex of None \<Rightarrow> None
      | Some v \<Rightarrow>
         (case store buffer writeIndex v of None \<Rightarrow> None
          | Some b \<Rightarrow> cobsCopy n b (Suc writeIndex) (Suc readIndex)))"

text \<open>The result of \<open>cobsDecode\<close>: the buffer, and the decoded length or \<open>None\<close> for \<open>-1\<close>.\<close>

function cobsDecodeLoop :: "nat \<Rightarrow> u8 list \<Rightarrow> nat \<Rightarrow> nat \<Rightarrow> (u8 list \<times> nat option) option" where
  "cobsDecodeLoop encodedLength buffer readIndex writeIndex =
     (if readIndex < encodedLength then
        (case fetch buffer readIndex of None \<Rightarrow> None
         | Some code \<Rightarrow>
            (if code = 0 \<or> Suc readIndex + unat code - 1 > encodedLength then Some (buffer, None)
             else
               (case cobsCopy (unat code - 1) buffer writeIndex (Suc readIndex) of None \<Rightarrow> None
                | Some b \<Rightarrow>
                   (if code \<noteq> 0xFF \<and> Suc readIndex + (unat code - 1) < encodedLength then
                      (case store b (writeIndex + (unat code - 1)) 0 of None \<Rightarrow> None
                       | Some b' \<Rightarrow> cobsDecodeLoop encodedLength b' (Suc readIndex + (unat code - 1))
                                     (Suc (writeIndex + (unat code - 1))))
                    else cobsDecodeLoop encodedLength b (Suc readIndex + (unat code - 1))
                           (writeIndex + (unat code - 1))))))
      else Some (buffer, Some writeIndex))"
  by pat_completeness auto
termination
  by (relation "measure (\<lambda>(n, b, r, w). n - r)") auto

definition cobsDecode :: "u8 list \<Rightarrow> nat \<Rightarrow> (u8 list \<times> nat option) option" where
  "cobsDecode buffer encodedLength = cobsDecodeLoop encodedLength buffer 0 0"

declare cobsDecodeLoop.simps [simp del]

section \<open>The encoding on lists\<close>

fun cobs_enc :: "u8 list \<Rightarrow> u8 list \<Rightarrow> u8 list" where
  "cobs_enc acc [] = of_nat (length acc + 1) # acc"
| "cobs_enc acc (x # xs) =
     (if x = 0 then of_nat (length acc + 1) # acc @ cobs_enc [] xs
      else if length acc = 253 then 0xFF # acc @ x # cobs_enc [] xs
      else cobs_enc (acc @ [x]) xs)"

fun cobs_dec :: "u8 list \<Rightarrow> u8 list option" where
  "cobs_dec [] = Some []"
| "cobs_dec (c # xs) =
     (if c = 0 \<or> length xs < unat c - 1 then None
      else
        (case cobs_dec (drop (unat c - 1) xs) of None \<Rightarrow> None
         | Some ys \<Rightarrow> Some (take (unat c - 1) xs @
                       (if c \<noteq> 0xFF \<and> unat c - 1 < length xs then [0] else []) @ ys)))"

lemma cobs_enc_not_Nil [simp]: "cobs_enc acc xs \<noteq> []"
  by (induction acc xs rule: cobs_enc.induct) auto

lemma unat_code: "length acc < 254 \<Longrightarrow> unat (of_nat (length acc + 1) :: u8) = length acc + 1"
  by (rule unat_of_nat_less) simp

lemma code_not_0: "length acc < 254 \<Longrightarrow> (of_nat (length acc + 1) :: u8) \<noteq> 0"
  using unat_code [of acc] by (metis Zero_not_Suc add.commute plus_1_eq_Suc unat_0)

lemma code_not_FF: "length acc < 254 \<Longrightarrow> (of_nat (length acc + 1) :: u8) \<noteq> 0xFF"
proof
  assume "length acc < 254" "(of_nat (length acc + 1) :: u8) = 0xFF"
  with unat_code [of acc] show False by simp
qed

lemma length_cobs_enc_gt: "length acc < length (cobs_enc acc xs)"
  by (induction acc xs rule: cobs_enc.induct) auto

theorem cobs_dec_enc: "length acc < 254 \<Longrightarrow> cobs_dec (cobs_enc acc xs) = Some (acc @ xs)"
proof (induction acc xs rule: cobs_enc.induct)
  case (1 acc)
  then show ?case
    using unat_code [of acc] code_not_0 [of acc] by simp
next
  case (2 acc x xs)
  then show ?case
    using unat_code [of acc] code_not_0 [of acc] code_not_FF [of acc] by simp
qed

theorem cobs_enc_nonzero: "length acc < 254 \<Longrightarrow> 0 \<notin> set acc \<Longrightarrow> 0 \<notin> set (cobs_enc acc xs)"
proof (induction acc xs rule: cobs_enc.induct)
  case (1 acc)
  then show ?case
    using code_not_0 [of acc] by auto
next
  case (2 acc x xs)
  then show ?case
    using code_not_0 [of acc] by auto
qed

theorem length_cobs_enc:
  "length acc < 254 \<Longrightarrow>
   length (cobs_enc acc xs) \<le> length acc + length xs + (length acc + length xs) div 254 + 1"
proof (induction acc xs rule: cobs_enc.induct)
  case (2 acc x xs)
  consider "x = 0" | "x \<noteq> 0" "length acc = 253" | "x \<noteq> 0" "length acc < 253"
    using 2 by linarith
  then show ?case
  proof cases
    case 1
    with 2 have "length (cobs_enc [] xs) \<le> length xs + length xs div 254 + 1" by simp
    moreover have "length xs div 254 \<le> (length acc + Suc (length xs)) div 254"
      by (rule div_le_mono) simp
    ultimately show ?thesis using 1 by simp
  next
    case 2
    have "(254 + length xs) div 254 = Suc (length xs div 254)" by simp
    with 2 "2.IH"(2) show ?thesis by simp
  next
    case 3
    with "2.IH"(3) show ?thesis by simp
  qed
qed simp

section \<open>The array routines compute the encoding\<close>

lemma code_255_iff: "length acc < 254 \<Longrightarrow> (of_nat (length acc + 1) + 1 = (0xFF :: u8)) = (length acc = 253)"
proof -
  assume acc: "length acc < 254"
  have "unat (of_nat (length acc + 2) :: u8) = length acc + 2"
    using acc by (intro unat_of_nat_less) simp
  then have "(of_nat (length acc + 2) = (0xFF :: u8)) = (length acc + 2 = 255)"
    by (simp only: word_unat_eq_iff unat_numeral) simp
  then show ?thesis by (simp add: add.commute)
qed

lemma cobsEncodeLoop_refines:
  assumes "length acc < 254"
    and "length (out @ cobs_enc acc xs) \<le> length (out @ p # acc @ tail)"
  shows "\<exists>d n ci code d'.
    cobsEncodeLoop xs (out @ p # acc @ tail) (length out + 1 + length acc) (length out)
      (of_nat (length acc + 1)) = Some (d, n, ci, code) \<and>
    store d ci code = Some d' \<and> n = length (out @ cobs_enc acc xs) \<and>
    take n d' = out @ cobs_enc acc xs \<and> length d' = length (out @ p # acc @ tail)"
  using assms
proof (induction xs arbitrary: out p acc tail)
  case Nil
  then show ?case by simp
next
  case (Cons x xs)
  have ne: "length (cobs_enc b c) > 0" for b c by simp
  consider (zero) "x = 0" | (full) "x \<noteq> 0" "length acc = 253" | (more) "x \<noteq> 0" "length acc < 253"
    using Cons.prems(1) by linarith
  then show ?case
  proof cases
    case zero
    with Cons.prems ne [of "[]" xs] obtain t tail' where tail: "tail = t # tail'"
      by (cases tail) auto
    with zero Cons.prems(2)
    show ?thesis
      using Cons.IH [of "[]" "out @ of_nat (length acc + 1) # acc" t tail'] by simp
  next
    case full
    with Cons.prems ne [of "[]" xs] obtain t u tail' where tail: "tail = t # u # tail'"
      by (cases tail; cases "tl tail") auto
    show ?thesis
      using full tail Cons.prems(2) code_255_iff [of acc]
        Cons.IH [of "[]" "out @ 0xFF # acc @ [x]" u tail']
      by (simp add: list_update_append add.commute)
  next
    case more
    with Cons.prems(2) length_cobs_enc_gt [of "acc @ [x]" xs] obtain t tail' where tail: "tail = t # tail'"
      by (cases tail) auto
    show ?thesis
      using more tail Cons.prems(2) code_255_iff [of acc]
        Cons.IH [of "acc @ [x]" out p tail'] by (simp add: list_update_append)
  qed
qed

lemma cobsEncode_refines:
  assumes "length (cobs_enc [] source) \<le> length destination"
  shows "\<exists>d. cobsEncode source destination = Some (d, length (cobs_enc [] source)) \<and>
    take (length (cobs_enc [] source)) d = cobs_enc [] source \<and> length d = length destination"
proof -
  from assms length_cobs_enc_gt [of "[]" source] obtain p tail where dst: "destination = p # tail"
    by (cases destination) auto
  show ?thesis
    using cobsEncodeLoop_refines [of "[]" "[]" source 0 tail] assms
    by (auto simp: cobsEncode_def dst)
qed

lemma cobsCopy_spec:
  assumes "w < r" "r + k \<le> length buf"
  shows "\<exists>b. cobsCopy k buf w r = Some b \<and> length b = length buf \<and>
    take (w + k) b = take w buf @ take k (drop r buf) \<and> drop (r + k) b = drop (r + k) buf"
  using assms
proof (induction k arbitrary: buf w r)
  case (Suc k)
  let ?b = "buf[w := buf ! r]"
  have "w < length buf" "r < length buf" using Suc.prems by simp_all
  moreover from Suc.prems Suc.IH [of "Suc w" "Suc r" ?b] obtain b where
    "cobsCopy k ?b (Suc w) (Suc r) = Some b" "length b = length buf"
    "take (Suc w + k) b = take (Suc w) ?b @ take k (drop (Suc r) ?b)"
    "drop (Suc r + k) b = drop (Suc r + k) ?b" by auto
  ultimately show ?case
    using Suc.prems by (simp add: take_update_at drop_update_cancel take_Suc_conv_app_nth
        Cons_nth_drop_Suc [symmetric])
qed simp

lemma cobsDecodeLoop_block:
  assumes "r < n" "n \<le> length buf" "code = buf ! r" "code \<noteq> 0" "m = unat code - 1"
    and "r2 = Suc r + m" "r2 \<le> n" "cobsCopy m buf w (Suc r) = Some b"
  shows "cobsDecodeLoop n buf r w =
    (if code \<noteq> 0xFF \<and> r2 < n then
       (case store b (w + m) 0 of None \<Rightarrow> None | Some b' \<Rightarrow> cobsDecodeLoop n b' r2 (Suc (w + m)))
     else cobsDecodeLoop n b r2 (w + m))"
proof -
  have "\<not> Suc r + unat code - 1 > n"
    using assms unat_gt_0 [of code] by auto
  then show ?thesis
    using assms by (simp add: cobsDecodeLoop.simps [of n buf r w] cong: option.case_cong)
qed

text \<open>What a run of the decoder from an already written prefix returns: the rest of the decoded
  bytes after the prefix, or \<open>-1\<close>.\<close>

definition decoded :: "u8 list \<Rightarrow> nat \<Rightarrow> u8 list option \<Rightarrow> (u8 list \<times> nat option) option \<Rightarrow> bool" where
  "decoded pre len dec res = (\<exists>b. length b = len \<and>
     (case dec of
        None \<Rightarrow> res = Some (b, None)
      | Some d \<Rightarrow> res = Some (b, Some (length (pre @ d))) \<and> take (length (pre @ d)) b = pre @ d))"

lemma decoded_extend:
  "decoded (pre @ x) len dec res \<Longrightarrow> decoded pre len (map_option (\<lambda>d. x @ d) dec) res"
  by (cases dec) (auto simp: decoded_def)

lemma cobs_dec_block:
  "c \<noteq> 0 \<Longrightarrow> m = unat c - 1 \<Longrightarrow> m \<le> length xs \<Longrightarrow>
   cobs_dec (c # xs) = map_option (\<lambda>d. (take m xs @ (if c \<noteq> 0xFF \<and> m < length xs then [0] else [])) @ d)
     (cobs_dec (drop m xs))"
  by (simp split: option.split)

lemma cobsDecodeLoop_refines:
  assumes "w \<le> r" "r \<le> n" "n \<le> length buf"
  shows "decoded (take w buf) (length buf) (cobs_dec (drop r (take n buf))) (cobsDecodeLoop n buf r w)"
  using assms
proof (induction "n - r" arbitrary: buf r w rule: less_induct)
  case less
  show ?case
  proof (cases "r < n")
    case False
    with less.prems show ?thesis by (simp add: cobsDecodeLoop.simps decoded_def)
  next
    case True
    define code where "code = buf ! r"
    define m where "m = unat code - 1"
    define rest where "rest = drop (Suc r) (take n buf)"
    have cells: "drop r (take n buf) = code # rest"
      using True less.prems Cons_nth_drop_Suc [of r "take n buf"] by (simp add: code_def rest_def)
    have len: "length rest = n - Suc r" using less.prems by (simp add: rest_def)
    have guard: "Suc r + unat code - 1 > n \<longleftrightarrow> length rest < m" if "code \<noteq> 0"
      using that True len unat_gt_0 [of code] by (auto simp: m_def)
    show ?thesis
    proof (cases "code = 0 \<or> length rest < m")
      case True
      with \<open>r < n\<close> guard less.prems have "cobsDecodeLoop n buf r w = Some (buf, None)"
        by (auto simp: cobsDecodeLoop.simps [of n buf r w] code_def)
      with True show ?thesis by (auto simp: cells m_def decoded_def)
    next
      case False
      define r2 where "r2 = Suc r + m"
      have r2: "r < r2" "r2 \<le> n" and m: "m \<le> length rest"
        using False len True by (auto simp: r2_def)
      obtain b where b: "cobsCopy m buf w (Suc r) = Some b" "length b = length buf"
        "take (w + m) b = take w buf @ take m rest" "drop r2 b = drop r2 buf"
        using cobsCopy_spec [of w "Suc r" m buf] less.prems r2 m len
        unfolding r2_def by (auto simp: rest_def drop_take min_def)
      define z where "z = (if code \<noteq> 0xFF \<and> r2 < n then [0 :: u8] else [])"
      define b' where "b' = (if code \<noteq> 0xFF \<and> r2 < n then b[w + m := 0] else b)"
      have "decoded (take (w + m + length z) b') (length buf) (cobs_dec (drop r2 (take n b')))
          (cobsDecodeLoop n b' r2 (w + m + length z))"
        using less.hyps [of r2 "w + m + length z" b'] r2 less.prems b(2)
        by (auto simp: z_def b'_def r2_def)
      moreover have "take (w + m + length z) b' = take w buf @ take m rest @ z"
        using b less.prems r2 by (auto simp: z_def b'_def r2_def take_update_at)
      moreover have "drop r2 (take n b') = drop m rest"
        using b(4) less.prems
        by (auto simp: b'_def rest_def r2_def drop_take drop_update_cancel add.commute)
      moreover have "cobsDecodeLoop n buf r w = cobsDecodeLoop n b' r2 (w + m + length z)"
        using cobsDecodeLoop_block [of r n buf code m r2 w b] True False less.prems b r2
        by (auto simp: code_def m_def r2_def z_def b'_def)
      moreover have "cobs_dec (code # rest) =
          map_option (\<lambda>d. (take m rest @ z) @ d) (cobs_dec (drop m rest))"
        using False m len cobs_dec_block [of code m rest] True by (auto simp: z_def r2_def m_def)
      ultimately show ?thesis
        unfolding cells by (simp only: decoded_extend)
    qed
  qed
qed

lemma cobsDecode_refines:
  assumes "n \<le> length buf"
  shows "\<exists>b. length b = length buf \<and>
    (case cobs_dec (take n buf) of
       None \<Rightarrow> cobsDecode buf n = Some (b, None)
     | Some d \<Rightarrow> cobsDecode buf n = Some (b, Some (length d)) \<and> take (length d) b = d)"
  using cobsDecodeLoop_refines [of 0 0 n buf] assms
  by (cases "cobs_dec (take n buf)") (simp_all add: cobsDecode_def decoded_def)

lemma length_cobs_dec: "cobs_dec xs = Some d \<Longrightarrow> length d \<le> length xs - 1"
proof (induction xs arbitrary: d rule: cobs_dec.induct)
  case (2 c xs)
  then obtain ys where ys: "cobs_dec (drop (unat c - 1) xs) = Some ys" "c \<noteq> 0" "unat c - 1 \<le> length xs"
    and d: "d = take (unat c - 1) xs @ (if c \<noteq> 0xFF \<and> unat c - 1 < length xs then [0] else []) @ ys"
    by (auto split: if_splits option.splits)
  have "length ys \<le> length xs - (unat c - 1) - 1"
    using "2.IH" ys by simp
  with ys d show ?case
    by (cases "unat c - 1 < length xs") (auto simp: min_def)
qed simp

text \<open>The decoder never reads or writes outside its buffer, whatever the bytes are.\<close>

lemma cobsDecode_in_bounds:
  "n \<le> length buf \<Longrightarrow> cobsDecode buf n \<noteq> None"
  using cobsDecode_refines [of n buf] by (auto split: option.splits)

end
