(* ===== verification/Protocol_Frame.thy ===== *)
theory Protocol_Frame
  imports Crc Cobs
begin

text \<open>
  The frames of the update protocol: \<open>writeProtocolFrame\<close> and \<open>readProtocolFrame\<close> of \<open>bootloader.c\<close>.
  The stack arrays of the two functions are lists of their declared sizes with unspecified
  initial contents, and every access is checked against the bounds (\<open>None\<close> and \<open>Fault\<close> are
  accesses outside an array). The reader is a function of the bytes the UART delivers; it is
  \<open>Waiting\<close> when they are used up inside the endless receive loop.
\<close>

section \<open>Constants and data\<close>

definition PROTOCOL_VERSION :: u8 where "PROTOCOL_VERSION = 2"
definition MAX_PROTOCOL_PAYLOAD :: nat where "MAX_PROTOCOL_PAYLOAD = 152"
definition MAX_ENCODED_FRAME_SIZE :: nat where "MAX_ENCODED_FRAME_SIZE = 160"

lemmas frame_sizes [bound_simps] = MAX_PROTOCOL_PAYLOAD_def MAX_ENCODED_FRAME_SIZE_def

record protocol_frame =
  messageType :: u8
  frameSequence :: u16
  framePayload :: "u8 list"

datatype read_result =
    Fault
  | Waiting "u8 list" nat
  | Received protocol_frame "u8 list"

section \<open>Sending\<close>

text \<open>Consecutive stores, as \<open>memcpy\<close> into an array makes them.\<close>

primrec storeBytes :: "u8 list \<Rightarrow> nat \<Rightarrow> u8 list \<Rightarrow> u8 list option" where
  "storeBytes destination i [] = Some destination"
| "storeBytes destination i (b # bs) =
     (case store destination i b of None \<Rightarrow> None | Some d \<Rightarrow> storeBytes d (Suc i) bs)"

definition writeProtocolFrame ::
  "u8 list \<Rightarrow> u8 list \<Rightarrow> u8 \<Rightarrow> u16 \<Rightarrow> u8 list \<Rightarrow> u8 list option" where
  "writeProtocolFrame decodedFrame encodedFrame mtype sequence data =
     (let payloadLength = of_nat (length data) :: u16;
          frameLength = 6 + payloadLength in
      case storeBytes decodedFrame 0
             ([PROTOCOL_VERSION, mtype] @ bytesLe16 sequence @ bytesLe16 payloadLength) of None \<Rightarrow> None
      | Some d1 \<Rightarrow>
      (case storeBytes d1 6 data of None \<Rightarrow> None
      | Some d2 \<Rightarrow>
      (case storeBytes d2 (unat frameLength)
              (bytesLe16 (calculateCrc16 (take (unat frameLength) d2))) of None \<Rightarrow> None
      | Some d3 \<Rightarrow>
      (case cobsEncode (take (unat (frameLength + 2)) d3) encodedFrame of None \<Rightarrow> None
      | Some (e, encodedLength) \<Rightarrow> Some (take encodedLength e @ [0])))))"

section \<open>Receiving\<close>

text \<open>What the reader does with a delimiter: decode in place, check length, version and checksum,
  copy the payload into the caller's array. The inner \<open>None\<close> is a frame that is dropped.\<close>

definition acceptFrame :: "u8 list \<Rightarrow> nat \<Rightarrow> protocol_frame option option" where
  "acceptFrame encodedFrame encodedLength =
     (if encodedLength = 0 then Some None
      else case cobsDecode encodedFrame encodedLength of
        None \<Rightarrow> None
      | Some (b, None) \<Rightarrow> Some None
      | Some (b, Some decodedLength) \<Rightarrow>
          if decodedLength < 8 then Some None
          else if length b < decodedLength then None
          else
            (let expectedLength = 8 + wordLe16 (b ! 4) (b ! 5);
                 receivedCrc = wordLe16 (b ! (decodedLength - 2)) (b ! (decodedLength - 1)) in
             if of_nat decodedLength = expectedLength \<and> b ! 0 = PROTOCOL_VERSION \<and>
                receivedCrc = calculateCrc16 (take (decodedLength - 2) b) then
               (let payloadLength = unat (wordLe16 (b ! 4) (b ! 5)) in
                if payloadLength > MAX_PROTOCOL_PAYLOAD \<or> 6 + payloadLength > length b then None
                else Some (Some \<lparr>messageType = b ! 1, frameSequence = wordLe16 (b ! 2) (b ! 3),
                       framePayload = take payloadLength (drop 6 b)\<rparr>))
             else Some None))"

primrec readProtocolFrame :: "u8 list \<Rightarrow> nat \<Rightarrow> u8 list \<Rightarrow> read_result" where
  "readProtocolFrame encodedFrame encodedLength [] = Waiting encodedFrame encodedLength"
| "readProtocolFrame encodedFrame encodedLength (receivedByte # input) =
     (if receivedByte \<noteq> 0 then
        (if encodedLength < MAX_ENCODED_FRAME_SIZE then
           (case store encodedFrame encodedLength receivedByte of None \<Rightarrow> Fault
            | Some e \<Rightarrow> readProtocolFrame e (encodedLength + 1) input)
         else readProtocolFrame encodedFrame 0 input)
      else
        (case acceptFrame encodedFrame encodedLength of
           None \<Rightarrow> Fault
         | Some (Some frame) \<Rightarrow> Received frame input
         | Some None \<Rightarrow> readProtocolFrame encodedFrame 0 input))"

section \<open>The frame as a byte string\<close>

definition frameBody :: "u8 \<Rightarrow> u16 \<Rightarrow> u8 list \<Rightarrow> u8 list" where
  "frameBody t s p = [PROTOCOL_VERSION, t] @ bytesLe16 s @ bytesLe16 (of_nat (length p)) @ p"

definition frameBytes :: "u8 \<Rightarrow> u16 \<Rightarrow> u8 list \<Rightarrow> u8 list" where
  "frameBytes t s p = frameBody t s p @ bytesLe16 (calculateCrc16 (frameBody t s p))"

lemma length_frameBody [simp]: "length (frameBody t s p) = 6 + length p"
  by (simp add: frameBody_def)

lemma length_frameBytes [simp]: "length (frameBytes t s p) = 8 + length p"
  by (simp add: frameBytes_def)

lemma storeBytes_take:
  "i + length bs \<le> length d \<Longrightarrow> \<exists>d'. storeBytes d i bs = Some d' \<and> length d' = length d \<and>
     take (i + length bs) d' = take i d @ bs"
proof (induction bs arbitrary: d i)
  case (Cons b bs)
  then have i: "i < length d" by simp
  with Cons.IH [of "Suc i" "d[i := b]"] Cons.prems show ?case
    by (simp add: take_update_at)
qed simp

declare storeBytes.simps [simp del]

lemma unat_frameLength:
  assumes "n \<le> 152"
  shows "unat (6 + of_nat n :: u16) = 6 + n" "unat (6 + of_nat n + 2 :: u16) = 8 + n"
proof -
  have six: "6 + of_nat n = (of_nat (6 + n) :: u16)" by simp
  have eight: "6 + of_nat n + 2 = (of_nat (8 + n) :: u16)" by simp
  show "unat (6 + of_nat n :: u16) = 6 + n"
    unfolding six by (rule unat_of_nat_less) (use assms in simp)
  show "unat (6 + of_nat n + 2 :: u16) = 8 + n"
    unfolding eight by (rule unat_of_nat_less) (use assms in simp)
qed

lemma writeProtocolFrame_refines:
  assumes "length d = MAX_ENCODED_FRAME_SIZE" "length e = MAX_ENCODED_FRAME_SIZE + 2"
    and "length p \<le> MAX_PROTOCOL_PAYLOAD"
  shows "writeProtocolFrame d e t s p = Some (cobs_enc [] (frameBytes t s p) @ [0])"
proof -
  note b = assms [unfolded frame_sizes]
  note un = unat_frameLength [OF b(3)]
  let ?h = "[PROTOCOL_VERSION, t] @ bytesLe16 s @ bytesLe16 (of_nat (length p))"
  obtain d1 where d1: "storeBytes d 0 ?h = Some d1" "length d1 = 160" "take 6 d1 = ?h"
    using storeBytes_take [of 0 ?h d] b by auto
  obtain d2 where d2: "storeBytes d1 6 p = Some d2" "length d2 = 160"
    "take (6 + length p) d2 = frameBody t s p"
    using storeBytes_take [of 6 p d1] b d1 by (auto simp: frameBody_def)
  let ?c = "bytesLe16 (calculateCrc16 (frameBody t s p))"
  obtain d3 where d3: "storeBytes d2 (6 + length p) ?c = Some d3"
    "take (8 + length p) d3 = frameBytes t s p"
    using storeBytes_take [of "6 + length p" ?c d2] b d2
    by (auto simp: frameBytes_def add.commute add.left_commute)
  have "length (cobs_enc [] (frameBytes t s p)) \<le> length e"
    using length_cobs_enc [of "[]" "frameBytes t s p"] b by simp
  from cobsEncode_refines [OF this] show ?thesis
    unfolding writeProtocolFrame_def Let_def un d1(1) option.case d2(1) d2(3) d3(1) d3(2) by auto
qed

section \<open>What the reader accepts\<close>

lemma expected_length:
  assumes "of_nat n = (8 + w :: u16)" "8 \<le> n" "n < 65536"
  shows "n = 8 + unat w"
proof -
  have "w = of_nat (n - 8)" using assms(1,2) by (simp add: of_nat_diff)
  moreover have "unat (of_nat (n - 8) :: u16) = n - 8"
    by (rule unat_of_nat_less) (use assms(3) in simp)
  ultimately show ?thesis using assms(2) by simp
qed

text \<open>A decoded buffer that passes the checks is the byte string of the frame.\<close>

lemma list_prefix_6:
  assumes "6 \<le> length d"
  shows "d = [d ! 0, d ! 1, d ! 2, d ! 3, d ! 4, d ! 5] @ drop 6 d"
proof -
  have "take 6 d = [d ! 0, d ! 1, d ! 2, d ! 3, d ! 4, d ! 5]"
    by (rule nth_equalityI) (use assms in \<open>auto simp: less_Suc_eq numeral_eq_Suc\<close>)
  then show ?thesis by (metis append_take_drop_id)
qed

lemma list_last_2:
  assumes "2 \<le> length d"
  shows "d = take (length d - 2) d @ [d ! (length d - 2), d ! (length d - 1)]"
proof -
  have "drop (length d - 2) d = [d ! (length d - 2), d ! (length d - 1)]"
    by (rule nth_equalityI) (use assms in \<open>auto simp: less_Suc_eq numeral_eq_Suc\<close>)
  then show ?thesis by (metis append_take_drop_id)
qed

lemma frameBytes_of_checks:
  assumes "8 \<le> length d" "length d < 65536" "of_nat (length d) = (8 + wordLe16 (d ! 4) (d ! 5))"
    and "d ! 0 = PROTOCOL_VERSION"
    and "wordLe16 (d ! (length d - 2)) (d ! (length d - 1)) = calculateCrc16 (take (length d - 2) d)"
    and "p = take (length d - 8) (drop 6 d)"
  shows "d = frameBytes (d ! 1) (wordLe16 (d ! 2) (d ! 3)) p"
    "unat (wordLe16 (d ! 4) (d ! 5)) = length d - 8" "length p = length d - 8"
proof -
  have len: "length d = 8 + unat (wordLe16 (d ! 4) (d ! 5))"
    using assms(1-3) by (intro expected_length) auto
  then show "unat (wordLe16 (d ! 4) (d ! 5)) = length d - 8" by simp
  show lp: "length p = length d - 8" using assms(1,6) by simp
  have w: "of_nat (length p) = wordLe16 (d ! 4) (d ! 5)"
  proof -
    have "length p = unat (wordLe16 (d ! 4) (d ! 5))" using len lp by simp
    then show ?thesis by (simp only: of_nat_unat) simp
  qed
  have body: "take (length d - 2) d = frameBody (d ! 1) (wordLe16 (d ! 2) (d ! 3)) p"
  proof -
    have "take (length d - 2) d = [d ! 0, d ! 1, d ! 2, d ! 3, d ! 4, d ! 5] @ p"
    proof -
      have "take (length d - 2) ([d ! 0, d ! 1, d ! 2, d ! 3, d ! 4, d ! 5] @ drop 6 d) =
          [d ! 0, d ! 1, d ! 2, d ! 3, d ! 4, d ! 5] @ p"
        using assms(1,6) by (simp only: take_append) simp
      then show ?thesis using list_prefix_6 [of d] assms(1) by simp
    qed
    then show ?thesis by (simp add: frameBody_def w assms(4))
  qed
  show "d = frameBytes (d ! 1) (wordLe16 (d ! 2) (d ! 3)) p"
  proof -
    have "bytesLe16 (calculateCrc16 (take (length d - 2) d)) = [d ! (length d - 2), d ! (length d - 1)]"
      using assms(5) by (metis bytesLe16_wordLe16)
    with list_last_2 [of d] assms(1) show ?thesis by (simp add: frameBytes_def body)
  qed
qed

text \<open>The bytes of a frame pass the checks.\<close>

lemma checks_of_frameBytes:
  assumes "length p \<le> 152" "d = frameBytes t s p"
  shows "d ! 0 = PROTOCOL_VERSION" "d ! 1 = t" "wordLe16 (d ! 2) (d ! 3) = s"
    "wordLe16 (d ! 4) (d ! 5) = of_nat (length p)" "take (length p) (drop 6 d) = p"
    "wordLe16 (d ! (length d - 2)) (d ! (length d - 1)) = calculateCrc16 (take (length d - 2) d)"
    "of_nat (length d) = 8 + (of_nat (length p) :: u16)" "unat (of_nat (length p) :: u16) = length p"
proof -
  have d: "d = [PROTOCOL_VERSION, t, ucast s, ucast (drop_bit 8 s), ucast (of_nat (length p) :: u16),
      ucast (drop_bit 8 (of_nat (length p) :: u16))] @ p @ bytesLe16 (calculateCrc16 (frameBody t s p))"
    by (simp add: assms(2) frameBytes_def frameBody_def bytesLe16_def)
  then show "d ! 0 = PROTOCOL_VERSION" "d ! 1 = t" "wordLe16 (d ! 2) (d ! 3) = s"
    "wordLe16 (d ! 4) (d ! 5) = of_nat (length p)" "take (length p) (drop 6 d) = p"
    by simp_all
  have len: "length d = 8 + length p" by (simp add: assms(2))
  then show "of_nat (length d) = 8 + (of_nat (length p) :: u16)" by simp
  show "unat (of_nat (length p) :: u16) = length p"
    by (rule unat_of_nat_less) (use assms(1) in simp)
  have body: "take (length d - 2) d = frameBody t s p" by (simp add: assms(2) frameBytes_def)
  have "d ! (length d - 2) = bytesLe16 (calculateCrc16 (frameBody t s p)) ! 0"
    "d ! (length d - 1) = bytesLe16 (calculateCrc16 (frameBody t s p)) ! 1"
    by (simp_all add: assms(2) frameBytes_def nth_append)
  then show "wordLe16 (d ! (length d - 2)) (d ! (length d - 1)) = calculateCrc16 (take (length d - 2) d)"
    unfolding body by (simp only: wordLe16_bytesLe16)
qed

text \<open>\<open>acceptFrame\<close> on the decoded string instead of the buffer that holds it.\<close>

definition checkFrame :: "u8 list \<Rightarrow> protocol_frame option" where
  "checkFrame d =
     (if 8 \<le> length d \<and> of_nat (length d) = 8 + wordLe16 (d ! 4) (d ! 5) \<and> d ! 0 = PROTOCOL_VERSION \<and>
         wordLe16 (d ! (length d - 2)) (d ! (length d - 1)) = calculateCrc16 (take (length d - 2) d)
      then Some \<lparr>messageType = d ! 1, frameSequence = wordLe16 (d ! 2) (d ! 3),
             framePayload = take (length d - 8) (drop 6 d)\<rparr>
      else None)"

lemma acceptFrame_refines:
  assumes "n \<le> length e" "length e = 160"
  shows "acceptFrame e n =
    Some (if n = 0 then None else Option.bind (cobs_dec (take n e)) checkFrame)"
proof (cases "n = 0")
  case False
  from cobsDecode_refines [OF assms(1)] obtain b where b: "length b = length e"
    "case cobs_dec (take n e) of None \<Rightarrow> cobsDecode e n = Some (b, None)
     | Some d \<Rightarrow> cobsDecode e n = Some (b, Some (length d)) \<and> take (length d) b = d" by blast
  show ?thesis
  proof (cases "cobs_dec (take n e)")
    case None
    with b False show ?thesis by (simp add: acceptFrame_def)
  next
    case (Some d)
    with b have c: "cobsDecode e n = Some (b, Some (length d))" "take (length d) b = d" by simp_all
    have le: "length d \<le> 159" using length_cobs_dec [OF Some] assms by simp
    have nth: "b ! i = d ! i" if "i < length d" for i
      using c(2) that by (metis nth_take)
    show ?thesis
    proof (cases "8 \<le> length d")
      case True
      have tk: "take (length d - 2) b = take (length d - 2) d"
        using arg_cong [OF c(2), of "take (length d - 2)"] by simp
      have dr: "take (length d - 8) (drop 6 b) = take (length d - 8) (drop 6 d)"
        using arg_cong [OF c(2), of "\<lambda>l. take (length d - 8) (drop 6 l)"] True
        by (simp add: drop_take)
      have sz: "unat (wordLe16 (d ! 4) (d ! 5)) = length d - 8"
        if "of_nat (length d) = 8 + wordLe16 (d ! 4) (d ! 5)"
        using expected_length [OF that True] le by simp
      have nths: "b ! 0 = d ! 0" "b ! 1 = d ! 1" "b ! 2 = d ! 2" "b ! 3 = d ! 3" "b ! 4 = d ! 4"
        "b ! 5 = d ! 5" "b ! (length d - 2) = d ! (length d - 2)" "b ! (length d - 1) = d ! (length d - 1)"
        by (rule nth, use True in linarith)+
      have c8: "\<not> length d < 8" "\<not> length b < length d" using True b(1) assms le by simp_all
      show ?thesis
      proof (cases "of_nat (length d) = 8 + wordLe16 (d ! 4) (d ! 5) \<and> d ! 0 = PROTOCOL_VERSION \<and>
          wordLe16 (d ! (length d - 2)) (d ! (length d - 1)) = calculateCrc16 (take (length d - 2) d)")
        case cond: True
        then have room: "\<not> (unat (wordLe16 (d ! 4) (d ! 5)) > MAX_PROTOCOL_PAYLOAD \<or>
            6 + unat (wordLe16 (d ! 4) (d ! 5)) > length b)"
          using sz True le b(1) assms unfolding frame_sizes by linarith
        have "checkFrame d = Some \<lparr>messageType = d ! 1, frameSequence = wordLe16 (d ! 2) (d ! 3),
             framePayload = take (length d - 8) (drop 6 d)\<rparr>"
          using cond True by (simp only: checkFrame_def simp_thms if_True)
        with cond room False Some dr sz show ?thesis
          by (simp only: acceptFrame_def c(1) option.case prod.case if_False if_True Let_def nths tk c8
              simp_thms bind.bind_lunit)
      next
        case cond: False
        then have "checkFrame d = None" unfolding checkFrame_def by presburger
        with cond False Some show ?thesis
          by (simp only: acceptFrame_def c(1) option.case prod.case if_False Let_def nths tk c8
              bind.bind_lunit)
      qed
    qed (use False Some c in \<open>simp add: acceptFrame_def checkFrame_def\<close>)
  qed
qed (simp add: acceptFrame_def)

lemma checkFrame_sound:
  assumes "checkFrame d = Some fr" "length d \<le> 159"
  shows "d = frameBytes (messageType fr) (frameSequence fr) (framePayload fr)"
    "length (framePayload fr) \<le> 151"
  using frameBytes_of_checks [of d "take (length d - 8) (drop 6 d)"] assms
  by (auto simp: checkFrame_def split: if_splits)

lemma checkFrame_complete:
  assumes "length p \<le> 152"
  shows "checkFrame (frameBytes t s p) = Some \<lparr>messageType = t, frameSequence = s, framePayload = p\<rparr>"
  using checks_of_frameBytes [of p "frameBytes t s p" t s, OF assms refl]
  unfolding checkFrame_def by simp

lemma length_store: "store d i v = Some d' \<Longrightarrow> length d' = length d"
  by (auto dest: store_SomeD)

text \<open>Receiving a run of non-zero bytes fills the buffer; the delimiter then judges it.\<close>

lemma read_nonzero:
  assumes "0 \<notin> set xs" "n + length xs \<le> 160" "length e = 160"
  shows "\<exists>e'. length e' = 160 \<and> take (n + length xs) e' = take n e @ xs \<and>
    readProtocolFrame e n (xs @ ys) = readProtocolFrame e' (n + length xs) ys"
  using assms
proof (induction xs arbitrary: e n)
  case (Cons x xs)
  then have n: "n < length e" "x \<noteq> 0" by auto
  from Cons.IH [of "Suc n" "e[n := x]"] Cons.prems n show ?case
    by (auto simp: take_update_at frame_sizes)
qed auto

lemma read_frame:
  assumes "length p \<le> 151" "length e = 160"
  shows "readProtocolFrame e 0 (cobs_enc [] (frameBytes t s p) @ 0 # rest) =
    Received \<lparr>messageType = t, frameSequence = s, framePayload = p\<rparr> rest"
proof -
  let ?x = "cobs_enc [] (frameBytes t s p)"
  have len: "length ?x \<le> 160" using length_cobs_enc [of "[]" "frameBytes t s p"] assms by simp
  from read_nonzero [of ?x 0 e "0 # rest"] cobs_enc_nonzero [of "[]"] len assms(2) obtain e' where
    e': "length e' = 160" "take (length ?x) e' = ?x"
      "readProtocolFrame e 0 (?x @ 0 # rest) = readProtocolFrame e' (length ?x) (0 # rest)" by auto
  have "acceptFrame e' (length ?x) = Some (checkFrame (frameBytes t s p))"
    using acceptFrame_refines [of "length ?x" e'] e' len cobs_dec_enc [of "[]" "frameBytes t s p"] by simp
  with checkFrame_complete [of p t s] assms(1) show ?thesis by (simp add: e'(3))
qed

lemma read_sound:
  assumes "readProtocolFrame e n input = Received fr rest" "n \<le> 160" "length e = 160"
  shows "\<exists>pre enc. take n e @ input = pre @ enc @ 0 # rest \<and> length enc \<le> 160 \<and>
    cobs_dec enc = Some (frameBytes (messageType fr) (frameSequence fr) (framePayload fr)) \<and>
    length (framePayload fr) \<le> 151"
  using assms
proof (induction input arbitrary: e n)
  case (Cons x input)
  consider (byte) "x \<noteq> 0" "n < 160" | (full) "x \<noteq> 0" "n = 160" | (delim) "x = 0"
    using Cons.prems(2) by linarith
  then show ?case
  proof cases
    case byte
    with Cons.prems Cons.IH [of "e[n := x]" "Suc n"] show ?thesis
      by (simp add: frame_sizes take_update_at)
  next
    case full
    with Cons.prems Cons.IH [of e 0] obtain pre enc where
      "input = pre @ enc @ 0 # rest" "length enc \<le> 160"
      "cobs_dec enc = Some (frameBytes (messageType fr) (frameSequence fr) (framePayload fr))"
      "length (framePayload fr) \<le> 151" by (auto simp: frame_sizes)
    then show ?thesis by (intro exI [of _ "take n e @ x # pre"] exI [of _ enc]) simp
  next
    case delim
    note acc = acceptFrame_refines [of n e] Cons.prems(2,3)
    show ?thesis
    proof (cases "\<exists>d. n \<noteq> 0 \<and> cobs_dec (take n e) = Some d \<and> checkFrame d \<noteq> None")
      case True
      then obtain d fr' where d: "n \<noteq> 0" "cobs_dec (take n e) = Some d" "checkFrame d = Some fr'" by auto
      with acc Cons.prems(1) delim have fr: "fr' = fr" "rest = input" by simp_all
      have "length d \<le> 159" using length_cobs_dec [OF d(2)] Cons.prems(2,3) by simp
      from checkFrame_sound [OF d(3) this] d(2) delim fr Cons.prems(2,3) show ?thesis
        by (intro exI [of _ "[]"] exI [of _ "take n e"]) simp
    next
      case False
      then have "acceptFrame e n = Some None"
        using acc by (cases "cobs_dec (take n e)") auto
      with delim Cons.prems(1) have "readProtocolFrame e 0 input = Received fr rest" by simp
      from Cons.IH [OF this _ Cons.prems(3)] obtain pre enc where
        "input = pre @ enc @ 0 # rest" "length enc \<le> 160"
        "cobs_dec enc = Some (frameBytes (messageType fr) (frameSequence fr) (framePayload fr))"
        "length (framePayload fr) \<le> 151" by auto
      then show ?thesis by (intro exI [of _ "take n e @ x # pre"] exI [of _ enc]) simp
    qed
  qed
qed simp

lemma read_no_fault:
  "n \<le> 160 \<Longrightarrow> length e = 160 \<Longrightarrow> readProtocolFrame e n input \<noteq> Fault"
proof (induction input arbitrary: e n)
  case (Cons x input)
  then show ?case
    using acceptFrame_refines [of n e] by (auto simp: frame_sizes split: option.splits)
qed simp

lemma read_append:
  "readProtocolFrame e n xs = Waiting e' n' \<Longrightarrow> readProtocolFrame e n (xs @ ys) = readProtocolFrame e' n' ys"
  by (induction xs arbitrary: e n) (auto split: if_splits option.splits)

lemma read_waiting_length:
  "readProtocolFrame e n xs = Waiting e' n' \<Longrightarrow> length e' = length e"
  by (induction xs arbitrary: e n) (auto split: if_splits option.splits dest: length_store)

lemma read_waiting_delimiter:
  assumes "readProtocolFrame e n (xs @ [0]) = Waiting e' n'"
  shows "n' = 0"
  using assms by (induction xs arbitrary: e n) (auto split: if_splits option.splits)

lemma read_consumes: "readProtocolFrame e n xs = Received fr rest \<Longrightarrow> length rest < length xs"
  by (induction xs arbitrary: e n) (auto split: if_splits option.splits intro: less_SucI)

section \<open>The protocol as a message link\<close>

text \<open>What the two ends rely on: a message that is sent is received, and what follows it on the line
  is left for the next read. A whole conversation is then received in order.\<close>

locale message_link =
  fixes send :: "'m \<Rightarrow> 'b list" and receive :: "'b list \<Rightarrow> ('m \<times> 'b list) option"
    and fits :: "'m \<Rightarrow> bool"
  assumes receive_send: "fits m \<Longrightarrow> receive (send m @ rest) = Some (m, rest)"
begin

fun receiveMany :: "nat \<Rightarrow> 'b list \<Rightarrow> ('m list \<times> 'b list) option" where
  "receiveMany 0 xs = Some ([], xs)"
| "receiveMany (Suc n) xs =
     (case receive xs of None \<Rightarrow> None
      | Some (m, ys) \<Rightarrow> map_option (\<lambda>(ms, zs). (m # ms, zs)) (receiveMany n ys))"

lemma receiveMany_send:
  "list_all fits ms \<Longrightarrow> receiveMany (length ms) (concat (map send ms) @ rest) = Some (ms, rest)"
  by (induction ms) (simp_all add: receive_send)

lemma send_inj: "fits m \<Longrightarrow> fits m' \<Longrightarrow> send m = send m' \<Longrightarrow> m = m'"
  using receive_send [of m "[]"] receive_send [of m' "[]"] by simp

end

text \<open>The bytes on the wire for a frame, and a read that starts with an empty buffer.\<close>

definition wireBytes :: "protocol_frame \<Rightarrow> u8 list" where
  "wireBytes fr = cobs_enc [] (frameBytes (messageType fr) (frameSequence fr) (framePayload fr)) @ [0]"

definition emptyBuffer :: "u8 list" where
  "emptyBuffer = replicate MAX_ENCODED_FRAME_SIZE 0"

definition receiveFrame :: "u8 list \<Rightarrow> (protocol_frame \<times> u8 list) option" where
  "receiveFrame input =
     (case readProtocolFrame emptyBuffer 0 input of Received fr rest \<Rightarrow> Some (fr, rest) | _ \<Rightarrow> None)"

lemma length_emptyBuffer [simp]: "length emptyBuffer = 160"
  by (simp add: emptyBuffer_def frame_sizes)

lemma write_wireBytes:
  "length d = 160 \<Longrightarrow> length e = 162 \<Longrightarrow> length p \<le> 152 \<Longrightarrow> writeProtocolFrame d e t s p =
    Some (wireBytes \<lparr>messageType = t, frameSequence = s, framePayload = p\<rparr>)"
  using writeProtocolFrame_refines [of d e p t s] by (simp add: frame_sizes wireBytes_def)

lemma read_wireBytes:
  "length (framePayload fr) \<le> 151 \<Longrightarrow> length e = 160 \<Longrightarrow>
   readProtocolFrame e 0 (wireBytes fr @ rest) = Received fr rest"
  using read_frame [of "framePayload fr" e "messageType fr" "frameSequence fr" rest]
  by (simp add: wireBytes_def)

interpretation update_link: message_link wireBytes receiveFrame
  "\<lambda>fr. length (framePayload fr) \<le> 151"
  by unfold_locales (simp add: receiveFrame_def read_wireBytes)

section \<open>Properties\<close>

text \<open>C9. Round trip of a frame: for every type, sequence number and payload of up to 151 bytes the
  writer stays inside its stack arrays, whatever they held, and the reader recovers exactly the
  frame from its output, leaving the bytes that follow.\<close>

theorem frame_roundtrip:
  assumes "length p \<le> 151" "length d = MAX_ENCODED_FRAME_SIZE" "length e = MAX_ENCODED_FRAME_SIZE + 2"
    and "length b = MAX_ENCODED_FRAME_SIZE"
  shows "\<exists>bytes. writeProtocolFrame d e t s p = Some bytes \<and>
    readProtocolFrame b 0 (bytes @ rest) =
      Received \<lparr>messageType = t, frameSequence = s, framePayload = p\<rparr> rest"
  using write_wireBytes [of d e p t s] read_wireBytes [of "\<lparr>messageType = t, frameSequence = s, framePayload = p\<rparr>" b]
    assms by (simp add: frame_sizes)

theorem frame_roundtrip_witness:
  "\<exists>bytes. writeProtocolFrame (replicate 160 7) (replicate 162 9) 5 0x1234 (replicate 132 0) = Some bytes \<and>
    readProtocolFrame (replicate 160 1) 0 (bytes @ [3]) =
      Received \<lparr>messageType = 5, frameSequence = 0x1234, framePayload = replicate 132 0\<rparr> [3]"
  by (rule frame_roundtrip) (simp_all add: frame_sizes)

text \<open>C10. The reader is memory safe and sound on every byte stream: no input makes it access an
  array out of bounds, and whatever it returns was on the line as a zero-terminated COBS block
  whose decoded bytes carry the right version, length and CRC. A payload never has more than
  151 bytes, one less than \<open>MAX_PROTOCOL_PAYLOAD\<close>.\<close>

theorem reader_safe_and_sound:
  assumes "length b = MAX_ENCODED_FRAME_SIZE"
  shows "readProtocolFrame b 0 input \<noteq> Fault \<and>
    (readProtocolFrame b 0 input = Received fr rest \<longrightarrow>
      (\<exists>pre enc. input = pre @ enc @ 0 # rest \<and>
         cobs_dec enc = Some (frameBytes (messageType fr) (frameSequence fr) (framePayload fr)) \<and>
         length (framePayload fr) < MAX_PROTOCOL_PAYLOAD))"
  using read_no_fault [of 0 b input] read_sound [of b 0 input fr rest] assms
  by (fastforce simp: frame_sizes)

theorem reader_safe_and_sound_witness:
  "readProtocolFrame (replicate 160 0) 0 (replicate 500 0x55 @ [0]) \<noteq> Fault"
  using reader_safe_and_sound [of "replicate 160 0"] by (simp add: frame_sizes)

text \<open>C11. Resynchronisation: after any bytes that end in a delimiter and yield no frame, the reader
  has an empty buffer, and the next frame on the line is received intact.\<close>

theorem reader_resynchronises:
  assumes "length b = MAX_ENCODED_FRAME_SIZE" "length (framePayload fr) \<le> 151"
    and "readProtocolFrame b 0 (noise @ [0]) = Waiting b' n"
  shows "n = 0 \<and> readProtocolFrame b 0 (noise @ [0] @ wireBytes fr @ rest) = Received fr rest"
proof -
  have n: "n = 0" "length b' = 160"
    using read_waiting_delimiter [OF assms(3)] read_waiting_length [OF assms(3)] assms(1)
    by (simp_all add: frame_sizes)
  have "readProtocolFrame b 0 ((noise @ [0]) @ wireBytes fr @ rest) = Received fr rest"
    using read_append [OF assms(3), of "wireBytes fr @ rest"] read_wireBytes [OF assms(2)] n by simp
  with n show ?thesis by simp
qed

theorem reader_resynchronises_witness:
  "readProtocolFrame (replicate 160 0) 0 ([5, 7] @ [0] @
     wireBytes \<lparr>messageType = 1, frameSequence = 0, framePayload = []\<rparr> @ []) =
   Received \<lparr>messageType = 1, frameSequence = 0, framePayload = []\<rparr> []"
proof -
  obtain b' n where w: "readProtocolFrame (replicate 160 0) 0 ([5, 7] @ [0]) = Waiting b' n"
    by (simp add: frame_sizes acceptFrame_def cobsDecode_def cobsDecodeLoop.simps)
  show ?thesis
    by (rule conjunct2 [OF reader_resynchronises [OF _ _ w]]) (simp_all add: frame_sizes)
qed

end
