(* ===== verification/Firmware_Update.thy ===== *)
theory Firmware_Update
  imports Boot_Decision Protocol_Frame
begin

text \<open>
  The update session of \<open>bootloader.c\<close>: the package header and \<open>runFirmwareUpdate\<close>. The body of its
  endless loop is \<open>handleFrame\<close>, a function from the local variables, the flash and one received
  frame to the new state, the reply, and whether the device resets. \<open>runFirmwareUpdate\<close> itself
  iterates it over the bytes that the UART delivers.
\<close>

section \<open>Constants and data\<close>

definition PACKAGE_MAGIC :: u32 where "PACKAGE_MAGIC = 0x4B505746"
definition FIRMWARE_TARGET_ID :: u32 where "FIRMWARE_TARGET_ID = 0x4343314D"
definition PACKAGE_FORMAT_VERSION :: u16 where "PACKAGE_FORMAT_VERSION = 1"
definition PROTOCOL_HELLO :: u8 where "PROTOCOL_HELLO = 1"
definition PROTOCOL_INFO :: u8 where "PROTOCOL_INFO = 2"
definition PROTOCOL_BEGIN :: u8 where "PROTOCOL_BEGIN = 3"
definition PROTOCOL_READY :: u8 where "PROTOCOL_READY = 4"
definition PROTOCOL_DATA :: u8 where "PROTOCOL_DATA = 5"
definition PROTOCOL_ACK :: u8 where "PROTOCOL_ACK = 6"
definition PROTOCOL_NACK :: u8 where "PROTOCOL_NACK = 7"
definition PROTOCOL_END :: u8 where "PROTOCOL_END = 8"
definition PROTOCOL_COMPLETE :: u8 where "PROTOCOL_COMPLETE = 9"
definition PROTOCOL_ERROR :: u8 where "PROTOCOL_ERROR = 10"
definition PROTOCOL_SET_ROLE :: u8 where "PROTOCOL_SET_ROLE = 11"

lemmas protocol_types = PROTOCOL_HELLO_def PROTOCOL_INFO_def PROTOCOL_BEGIN_def PROTOCOL_READY_def
  PROTOCOL_DATA_def PROTOCOL_ACK_def PROTOCOL_NACK_def PROTOCOL_END_def PROTOCOL_COMPLETE_def
  PROTOCOL_ERROR_def PROTOCOL_SET_ROLE_def

record FirmwarePackageHeader =
  packageMagic :: u32
  packageFormatVersion :: u16
  headerSize :: u16
  targetId :: u32
  applicationAddress :: u32
  packageImageSize :: u32
  packageFirmwareVersion :: u32
  packageImageCrc32 :: u32
  headerCrc32 :: u32

abbreviation (input) sizeofPackageHeader :: nat where "sizeofPackageHeader \<equiv> 32"

definition headerBody :: "FirmwarePackageHeader \<Rightarrow> u8 list" where
  "headerBody h = storeUint32Le (packageMagic h) @ bytesLe16 (packageFormatVersion h) @
     bytesLe16 (headerSize h) @ storeUint32Le (targetId h) @ storeUint32Le (applicationAddress h) @
     storeUint32Le (packageImageSize h) @ storeUint32Le (packageFirmwareVersion h) @
     storeUint32Le (packageImageCrc32 h)"

definition headerBytes :: "FirmwarePackageHeader \<Rightarrow> u8 list" where
  "headerBytes h = headerBody h @ storeUint32Le (headerCrc32 h)"

definition headerOf :: "u8 list \<Rightarrow> FirmwarePackageHeader" where
  "headerOf bs = \<lparr>packageMagic = loadUint32Le bs,
     packageFormatVersion = wordLe16 (bs ! 4) (bs ! 5), headerSize = wordLe16 (bs ! 6) (bs ! 7),
     targetId = loadUint32Le (drop 8 bs), applicationAddress = loadUint32Le (drop 12 bs),
     packageImageSize = loadUint32Le (drop 16 bs), packageFirmwareVersion = loadUint32Le (drop 20 bs),
     packageImageCrc32 = loadUint32Le (drop 24 bs), headerCrc32 = loadUint32Le (drop 28 bs)\<rparr>"

definition isValidPackageHeader :: "FirmwarePackageHeader \<Rightarrow> bool" where
  "isValidPackageHeader header \<longleftrightarrow>
     packageMagic header = PACKAGE_MAGIC \<and>
     packageFormatVersion header = PACKAGE_FORMAT_VERSION \<and>
     headerSize header = of_nat sizeofPackageHeader \<and> targetId header = FIRMWARE_TARGET_ID \<and>
     applicationAddress header = of_nat APPLICATION_FLASH_START \<and> packageImageSize header \<noteq> 0 \<and>
     packageImageSize header \<le> of_nat (APPLICATION_FLASH_END - APPLICATION_FLASH_START) \<and>
     packageImageSize header AND 3 = 0 \<and>
     headerCrc32 header = calculateCrc32 (headerBody header)"

text \<open>The pages of the application area are erased in order; the first failure ends the loop.\<close>

primrec erasePages :: "flash_driver \<Rightarrow> nat list \<Rightarrow> flash \<Rightarrow> int \<times> flash" where
  "erasePages drv [] f = (0, f)"
| "erasePages drv (address # pages) f =
     (case FlashSectorErase drv address f of (st, f') \<Rightarrow>
        if st \<noteq> 0 then (-1, f') else erasePages drv pages f')"

definition applicationPages :: "nat list" where
  "applicationPages = map (\<lambda>i. APPLICATION_FLASH_START + i * FLASH_PAGE_SIZE)
     [0..<(APPLICATION_FLASH_END - APPLICATION_FLASH_START) div FLASH_PAGE_SIZE]"

definition eraseApplicationFlash :: "flash_driver \<Rightarrow> flash \<Rightarrow> int \<times> flash" where
  "eraseApplicationFlash drv f = erasePages drv applicationPages f"

section \<open>The session\<close>

record session =
  metadata :: BootMetadata
  packageHeader :: FirmwarePackageHeader
  bytesWritten :: u32
  requestedRole :: u32
  updateActive :: bool

record reply =
  replyType :: u8
  replyPayload :: "u8 list"
  systemReset :: bool

definition respond :: "u8 \<Rightarrow> u8 list \<Rightarrow> reply" where
  "respond t p = \<lparr>replyType = t, replyPayload = p, systemReset = False\<rparr>"

definition errorReply :: reply where
  "errorReply = respond PROTOCOL_ERROR []"

definition completeReply :: reply where
  "completeReply = \<lparr>replyType = PROTOCOL_COMPLETE, replyPayload = [], systemReset = True\<rparr>"

definition handleHello :: "session \<Rightarrow> reply" where
  "handleHello s = respond PROTOCOL_INFO (storeUint32Le FIRMWARE_TARGET_ID @
     storeUint32Le (state (metadata s)) @
     storeUint32Le (of_nat (APPLICATION_FLASH_END - APPLICATION_FLASH_START)) @
     storeUint32Le (imageSize (metadata s)) @ storeUint32Le (firmwareVersion (metadata s)) @
     storeUint32Le (appRole (metadata s)))"

definition handleBegin :: "flash_driver \<Rightarrow> u8 list \<Rightarrow> session \<Rightarrow> flash \<Rightarrow> reply \<times> session \<times> flash" where
  "handleBegin drv data s f =
     (let s = s\<lparr>packageHeader := headerOf (take sizeofPackageHeader data),
               requestedRole := loadUint32Le (drop sizeofPackageHeader data)\<rparr> in
      if \<not> isValidPackageHeader (packageHeader s) \<or> \<not> isValidAppRole (requestedRole s)
      then (errorReply, s, f)
      else (case appendMetadataRecord drv setDefaultMetadata f of (st, m, f1) \<Rightarrow>
        let s = s\<lparr>metadata := m\<rparr> in
        if st \<noteq> 0 then (errorReply, s, f1)
        else (case eraseApplicationFlash drv f1 of (st', f2) \<Rightarrow>
          if st' \<noteq> 0 then (errorReply, s, f2)
          else (let s = s\<lparr>bytesWritten := 0, updateActive := True\<rparr> in
                (respond PROTOCOL_READY (storeUint32Le (bytesWritten s)), s, f2)))))"

definition handleData :: "flash_driver \<Rightarrow> u8 list \<Rightarrow> session \<Rightarrow> flash \<Rightarrow> reply \<times> session \<times> flash" where
  "handleData drv data s f =
     (let offset = loadUint32Le data;
          dataLength = of_nat (length data) - 4 :: u16 in
      if dataLength = 0 \<or> dataLength > 128 \<or> dataLength AND 3 \<noteq> 0 \<or>
         offset + ucast dataLength > packageImageSize (packageHeader s)
      then (errorReply, s, f)
      else
        (let (s, f) =
           (if offset = bytesWritten s then
              (case FlashProgram drv (take (unat dataLength) (drop 4 data))
                      (unat (of_nat APPLICATION_FLASH_START + offset)) f of (st, f') \<Rightarrow>
                 (if st = 0 then (s\<lparr>bytesWritten := bytesWritten s + ucast dataLength\<rparr>, f') else (s, f')))
            else (s, f)) in
         (respond (if offset \<le> bytesWritten s then PROTOCOL_ACK else PROTOCOL_NACK)
            (storeUint32Le (bytesWritten s)), s, f)))"

definition handleEnd :: "flash_driver \<Rightarrow> session \<Rightarrow> flash \<Rightarrow> reply \<times> session \<times> flash" where
  "handleEnd drv s f =
     (let h = packageHeader s;
          m = (metadata s)\<lparr>state := BOOT_STATE_VALID_APPLICATION, imageSize := packageImageSize h,
                imageCrc32 := packageImageCrc32 h, firmwareVersion := packageFirmwareVersion h,
                appRole := requestedRole s, unconfirmedBootCount := 0, bootAttemptId := 0,
                confirmedBootAttemptId := 0\<rparr> in
      case appendMetadataRecord drv m f of (st, m', f') \<Rightarrow>
        (if st \<noteq> 0 then errorReply else completeReply, s\<lparr>metadata := m'\<rparr>, f'))"

definition handleSetRole :: "flash_driver \<Rightarrow> u8 list \<Rightarrow> session \<Rightarrow> flash \<Rightarrow> reply \<times> session \<times> flash" where
  "handleSetRole drv data s f =
     (let m = (metadata s)\<lparr>state := BOOT_STATE_VALID_APPLICATION, appRole := loadUint32Le data\<rparr> in
      case appendMetadataRecord drv m f of (st, m', f') \<Rightarrow>
        (if st \<noteq> 0 then errorReply else completeReply, s\<lparr>metadata := m'\<rparr>, f'))"

definition handleFrame ::
  "flash_driver \<Rightarrow> protocol_frame \<Rightarrow> session \<Rightarrow> flash \<Rightarrow> reply \<times> session \<times> flash" where
  "handleFrame drv fr s f =
     (let data = framePayload fr in
      if messageType fr = PROTOCOL_HELLO \<and> data = [] then (handleHello s, s, f)
      else if messageType fr = PROTOCOL_BEGIN \<and> length data = sizeofPackageHeader + 4
        then handleBegin drv data s f
      else if messageType fr = PROTOCOL_DATA \<and> updateActive s \<and> length data \<ge> 4
        then handleData drv data s f
      else if messageType fr = PROTOCOL_END \<and> updateActive s \<and> data = [] \<and>
          bytesWritten s = packageImageSize (packageHeader s) \<and>
          calculateCrc32 (readBytes f APPLICATION_FLASH_START (unat (packageImageSize (packageHeader s)))) =
            packageImageCrc32 (packageHeader s)
        then handleEnd drv s f
      else if messageType fr = PROTOCOL_SET_ROLE \<and> length data = 4 \<and>
          isValidAppRole (loadUint32Le data) \<and> isApplicationImageValid f (metadata s)
        then handleSetRole drv data s f
      else (errorReply, s, f))"

text \<open>The whole loop on a received byte stream: the frames it sends, and how it stands when the
  bytes are used up (\<open>Inl\<close>) or the device resets (\<open>Inr\<close>). Each read starts with an empty
  buffer.\<close>

function runFirmwareUpdate ::
  "flash_driver \<Rightarrow> session \<Rightarrow> flash \<Rightarrow> u8 list \<Rightarrow> protocol_frame list \<times> (session \<times> flash + flash)" where
  "runFirmwareUpdate drv s f input =
     (case readProtocolFrame emptyBuffer 0 input of
        Received fr rest \<Rightarrow>
          (case handleFrame drv fr s f of (r, s', f') \<Rightarrow>
             let out = \<lparr>messageType = replyType r, frameSequence = frameSequence fr,
                        framePayload = replyPayload r\<rparr> in
             if systemReset r then ([out], Inr f')
             else (case runFirmwareUpdate drv s' f' rest of (outs, res) \<Rightarrow> (out # outs, res)))
      | _ \<Rightarrow> ([], Inl (s, f)))"
  by pat_completeness auto
termination
  by (relation "measure (\<lambda>(drv, s, f, input). length input)") (auto dest: read_consumes)

declare runFirmwareUpdate.simps [simp del]

section \<open>Flash the session may touch\<close>

text \<open>The cells outside the metadata pages and the application area: the bootloader's own code and
  the configuration page.\<close>

definition protectedCells :: "nat set" where
  "protectedCells = {x. x < METADATA_PAGE_PRIMARY \<or> APPLICATION_FLASH_END \<le> x}"

definition sessionOk :: "session \<Rightarrow> bool" where
  "sessionOk s \<longleftrightarrow> (updateActive s \<longrightarrow> isValidPackageHeader (packageHeader s) \<and>
     isValidAppRole (requestedRole s) \<and> bytesWritten s \<le> 0x17000)"

text \<open>A frame that is not a \<open>BEGIN\<close> the device refuses for its header or role.\<close>

definition acceptable :: "protocol_frame \<Rightarrow> bool" where
  "acceptable fr \<longleftrightarrow> (messageType fr = PROTOCOL_BEGIN \<and> length (framePayload fr) = 36 \<longrightarrow>
     isValidPackageHeader (headerOf (take 32 (framePayload fr))) \<and>
     isValidAppRole (loadUint32Le (drop 32 (framePayload fr))))"

lemma protected_not_application:
  "x \<in> protectedCells \<Longrightarrow> x \<notin> {APPLICATION_FLASH_START..<APPLICATION_FLASH_END}"
  by (auto simp: protectedCells_def application_consts METADATA_PAGE_PRIMARY_def)

lemma applicationPages_range:
  "a \<in> set applicationPages \<Longrightarrow> a \<ge> 0x8000 \<and> a + FLASH_PAGE_SIZE \<le> 0x1F000"
  by (auto simp: applicationPages_def application_consts FLASH_PAGE_SIZE_def)

lemma applicationPages_cover:
  assumes "x \<in> {APPLICATION_FLASH_START..<APPLICATION_FLASH_END}"
  shows "\<exists>a\<in>set applicationPages. x \<in> {a..<a + FLASH_PAGE_SIZE}"
  using assms
  by (intro bexI [of _ "APPLICATION_FLASH_START + (x - APPLICATION_FLASH_START) div FLASH_PAGE_SIZE * FLASH_PAGE_SIZE"])
    (auto simp: applicationPages_def application_consts FLASH_PAGE_SIZE_def)

lemma header_size_bound:
  assumes "isValidPackageHeader h"
  shows "unat (packageImageSize h) \<le> 0x17000"
  using assms by (simp add: isValidPackageHeader_def application_consts word_le_nat_alt)

lemma unat_ucast_u16_u32: "unat (ucast (w :: u16) :: u32) = unat w"
  using unat_u16_less [of w] by (simp add: unsigned_ucast_eq take_bit_nat_eq_self)

text \<open>A block of data that passes the checks lies in the application area, and no sum wraps.\<close>

lemma data_in_area:
  fixes off size :: u32 and len :: u16
  assumes "unat size \<le> 0x17000" "off \<le> 0x17000" "\<not> off + ucast len > size" "len \<le> 128"
  shows "unat off + unat len \<le> unat size" "unat (of_nat 0x8000 + off) = 0x8000 + unat off"
    "unat (off + ucast len) = unat off + unat len"
proof -
  have o: "unat off \<le> 0x17000" and l: "unat len \<le> 128" using assms(2,4) by (simp_all add: word_le_nat_alt)
  note u = unat_ucast_u16_u32 [of len]
  show s: "unat (off + ucast len) = unat off + unat len"
    using unat_word_ariths(1) [of off "ucast len"] o l u by simp
  show "unat off + unat len \<le> unat size" using assms(3) s by (simp add: word_le_nat_alt not_less)
  show "unat (of_nat 0x8000 + off) = 0x8000 + unat off"
    using unat_word_ariths(1) [of "0x8000" off] o by simp
qed

context nor_flash
begin

lemma erasePages_frame:
  assumes "erasePages drv pages f = (st, f')" "\<And>a. a \<in> set pages \<Longrightarrow> x \<notin> {a..<a + FLASH_PAGE_SIZE}"
  shows "cells f' x = cells f x"
  using assms
proof (induction pages arbitrary: f)
  case (Cons a pages)
  obtain st1 f1 where e: "FlashSectorErase drv a f = (st1, f1)" by fastforce
  with erase_frame [OF e] Cons.prems(2) have "cells f1 x = cells f x" by simp
  with Cons e show ?case by (auto split: if_splits)
qed simp

lemma erasePages_done:
  assumes "erasePages drv pages f = (0, f')" "\<exists>a\<in>set pages. x \<in> {a..<a + FLASH_PAGE_SIZE}"
  shows "cells f' x = 0xFF"
  using assms
proof (induction pages arbitrary: f)
  case (Cons p pages)
  from Cons.prems(1) obtain f1 where e: "FlashSectorErase drv p f = (0, f1)" "erasePages drv pages f1 = (0, f')"
    by (auto split: prod.splits if_splits)
  show ?case
  proof (cases "\<exists>b\<in>set pages. x \<in> {b..<b + FLASH_PAGE_SIZE}")
    case False
    with Cons.prems have "cells f1 x = 0xFF" using erase_done [OF e(1)] by auto
    with erasePages_frame [OF e(2)] False show ?thesis by auto
  qed (use Cons e in blast)
qed simp

lemma eraseApplication_frame:
  "eraseApplicationFlash drv f = (st, f') \<Longrightarrow>
   x \<notin> {APPLICATION_FLASH_START..<APPLICATION_FLASH_END} \<Longrightarrow> cells f' x = cells f x"
  unfolding eraseApplicationFlash_def
  by (erule erasePages_frame) (use applicationPages_range in \<open>fastforce simp: application_consts\<close>)

lemma eraseApplication_done:
  "eraseApplicationFlash drv f = (0, f') \<Longrightarrow>
   x \<in> {APPLICATION_FLASH_START..<APPLICATION_FLASH_END} \<Longrightarrow> cells f' x = 0xFF"
  unfolding eraseApplicationFlash_def by (erule erasePages_done) (rule applicationPages_cover)

lemma handleBegin_confined:
  assumes "handleBegin drv data s f = (r, s', f')" "x \<in> protectedCells"
  shows "cells f' x = cells f x"
  using assms
  by (auto simp: handleBegin_def Let_def protectedCells_def application_consts METADATA_PAGE_PRIMARY_def
      split: if_splits prod.splits dest!: append_frame [where x = x] eraseApplication_frame [where x = x])

lemma append_confined:
  "appendMetadataRecord drv m f = (st, m', f') \<Longrightarrow> x \<in> protectedCells \<Longrightarrow> cells f' x = cells f x"
  by (rule append_frame) (auto simp: protectedCells_def application_consts)

lemma handleData_frame:
  assumes "handleData drv data s f = (r, s', f')" "sessionOk s" "updateActive s"
    "x \<notin> {APPLICATION_FLASH_START..<APPLICATION_FLASH_END}"
  shows "cells f' x = cells f x"
proof -
  let ?len = "of_nat (length data) - 4 :: u16"
  let ?off = "loadUint32Le data"
  let ?bs = "take (unat ?len) (drop 4 data)"
  consider "f' = f" | st where "?off = bytesWritten s" "\<not> ?off + ucast ?len > packageImageSize (packageHeader s)"
      "?len \<le> 128" "FlashProgram drv ?bs (unat (of_nat APPLICATION_FLASH_START + ?off)) f = (st, f')"
    using assms(1) by (auto simp: handleData_def Let_def split: if_splits prod.splits)
  then show ?thesis
  proof cases
    case 2
    have "unat ?off + unat ?len \<le> 0x17000" "unat (of_nat 0x8000 + ?off) = 0x8000 + unat ?off"
      using data_in_area [OF header_size_bound _ 2(2,3)] assms(2,3) 2(1) header_size_bound
      by (fastforce simp: sessionOk_def)+
    then have "x \<notin> {unat (of_nat APPLICATION_FLASH_START + ?off)..<
        unat (of_nat APPLICATION_FLASH_START + ?off) + length ?bs}"
      using assms(4) by (auto simp: application_consts)
    with program_frame [OF 2(4)] show ?thesis by blast
  qed simp
qed

lemma handleFrame_confined:
  assumes "handleFrame drv fr s f = (r, s', f')" "sessionOk s" "x \<in> protectedCells"
  shows "cells f' x = cells f x"
  using assms handleBegin_confined [of "framePayload fr" s f r s' f' x]
    handleData_frame [of "framePayload fr" s f r s' f' x] protected_not_application [of x]
  by (auto simp: handleFrame_def handleEnd_def handleSetRole_def Let_def
      split: if_splits prod.splits dest: append_confined)

end

lemma data_written_bound:
  fixes b size :: u32 and len :: u16
  assumes "unat size \<le> 0x17000" "b \<le> 0x17000" "\<not> b + ucast len > size" "len \<le> 128"
  shows "b + ucast len \<le> 0x17000"
  using data_in_area [OF assms] assms(1) by (simp add: word_le_nat_alt)

lemma handleFrame_sessionOk:
  assumes "handleFrame drv fr s f = (r, s', f')" "sessionOk s" "acceptable fr"
  shows "sessionOk s'"
proof -
  have data: "sessionOk s'" if "handleData drv (framePayload fr) s f = (r, s', f')" "updateActive s"
    using that assms(2) data_written_bound [OF header_size_bound]
    by (auto simp: handleData_def Let_def sessionOk_def not_less split: if_splits prod.splits)
  have beg: "sessionOk s'" if "handleBegin drv (framePayload fr) s f = (r, s', f')"
      "isValidPackageHeader (headerOf (take 32 (framePayload fr)))"
      "isValidAppRole (loadUint32Le (drop 32 (framePayload fr)))"
    using that assms(2) by (auto simp: handleBegin_def Let_def sessionOk_def split: if_splits prod.splits)
  show ?thesis
    using assms data beg
    by (auto simp: handleFrame_def handleEnd_def handleSetRole_def acceptable_def Let_def sessionOk_def
        split: if_splits prod.splits)
qed

end
