(* ===== verification/Update_Session.thy ===== *)
theory Update_Session
  imports Firmware_Update
begin

text \<open>
  Correctness of update sessions: what a session may touch, what is on record while it runs, that
  \<open>COMPLETE\<close> is sent only for a persisted, verified image, and that a host that follows the
  protocol installs its image.
\<close>

section \<open>Whole sessions\<close>

text \<open>The frames contained in a byte stream, as the loop receives them.\<close>

function receivedFrames :: "u8 list \<Rightarrow> protocol_frame list" where
  "receivedFrames input =
     (case readProtocolFrame emptyBuffer 0 input of
        Received fr rest \<Rightarrow> fr # receivedFrames rest
      | _ \<Rightarrow> [])"
  by pat_completeness auto
termination
  by (relation "measure length") (auto dest: read_consumes)

declare receivedFrames.simps [simp del]

text \<open>The loop on frames instead of bytes.\<close>

primrec handleFrames ::
  "flash_driver \<Rightarrow> session \<Rightarrow> flash \<Rightarrow> protocol_frame list \<Rightarrow> protocol_frame list \<times> (session \<times> flash + flash)" where
  "handleFrames drv s f [] = ([], Inl (s, f))"
| "handleFrames drv s f (fr # frs) =
     (case handleFrame drv fr s f of (r, s', f') \<Rightarrow>
        let out = \<lparr>messageType = replyType r, frameSequence = frameSequence fr, framePayload = replyPayload r\<rparr> in
        if systemReset r then ([out], Inr f')
        else (case handleFrames drv s' f' frs of (outs, res) \<Rightarrow> (out # outs, res)))"

lemma run_handleFrames:
  "runFirmwareUpdate drv s f input = handleFrames drv s f (receivedFrames input)"
proof (induction drv s f input rule: runFirmwareUpdate.induct)
  case (1 drv s f input)
  show ?case
    using 1 by (subst runFirmwareUpdate.simps, subst receivedFrames.simps)
      (auto simp: Let_def split: read_result.split prod.split)
qed

lemma receivedFrames_wire:
  "list_all (\<lambda>fr. length (framePayload fr) \<le> 151) frs \<Longrightarrow>
   receivedFrames (concat (map wireBytes frs)) = frs"
proof (induction frs)
  case Nil
  show ?case by (simp add: receivedFrames.simps)
next
  case (Cons fr frs)
  then show ?case
    by (simp, subst receivedFrames.simps) (simp add: read_wireBytes)
qed

definition flashOf :: "session \<times> flash + flash \<Rightarrow> flash" where
  "flashOf res = (case res of Inl (s, f) \<Rightarrow> f | Inr f \<Rightarrow> f)"

section \<open>What is on record during a session\<close>

lemma journal_cong:
  assumes same: "\<And>x. x \<in> {METADATA_PAGE_PRIMARY..<APPLICATION_FLASH_START} \<Longrightarrow> cells f' x = cells f x"
    and ok: "journal_ok K f" "K < 2 ^ 31"
  shows "journal_ok K f' \<and> readBootMetadata f' = readBootMetadata f"
proof -
  have c: "cells f' (slot p i + k) = cells f (slot p i + k)"
    if "p \<in> journalPages" "i < 85" "k < 48" for p i k
    by (rule same) (use slot_in_page [OF that(2,3), of p] that(1) in
        \<open>auto simp: journalPages_def metadata_consts application_consts\<close>)
  have rec: "recordAt f' (slot p i) = recordAt f (slot p i)"
    "isValidMetadataRecord f' (slot p i) = isValidMetadataRecord f (slot p i)"
    if "p \<in> journalPages" "i < 85" for p i
    using record_cong(1,3) [of f' "slot p i" f] c [OF that] by simp_all
  show ?thesis
  proof (cases "emptyJournal f")
    case True
    then have "emptyJournal f'" by (auto simp: emptyJournal_def rec)
    with True show ?thesis by (simp add: empty_read journal_ok_def)
  next
    case False
    with ok obtain p i where j: "journal K f p i" by (auto simp: journal_ok_def)
    then have "p \<in> journalPages" "i < 85" by (simp_all add: journal_def)
    then have "journal K f' p i"
      by (intro journal_keep(1) [OF j] c) (auto simp: rec)
    with j rec [of p i] \<open>p \<in> journalPages\<close> \<open>i < 85\<close> show ?thesis
      using journal_read [OF j ok(2)] journal_read [OF _ ok(2), of f' p i] by (auto simp: journal_ok_def)
  qed
qed

definition crcMatches :: "flash \<Rightarrow> BootMetadata \<Rightarrow> bool" where
  "crcMatches f m \<longleftrightarrow>
     calculateCrc32 (readBytes f APPLICATION_FLASH_START (unat (imageSize m))) = imageCrc32 m"

context nor_flash
begin

lemma append_crcMatches:
  assumes "appendMetadataRecord drv m0 f = (st, m, f')"
  shows "crcMatches f' m = crcMatches f m0"
proof -
  have "readBytes f' APPLICATION_FLASH_START n = readBytes f APPLICATION_FLASH_START n" for n
    by (rule readBytes_cong) (use append_frame [OF assms] in \<open>simp add: application_consts\<close>)
  with payload_fields [OF append_payload_kept [OF assms]] show ?thesis by (simp add: crcMatches_def)
qed

lemma handleEnd_persists:
  assumes "handleEnd drv s f = (r, s', f')" "systemReset r" "journal_ok K f" "K < 2 ^ 31 - 1"
    and "crcMatches f ((metadata s)\<lparr>imageSize := packageImageSize (packageHeader s),
           imageCrc32 := packageImageCrc32 (packageHeader s)\<rparr>)"
  obtains m where "readBootMetadata f' = Some m" "crcMatches f' m" "r = completeReply"
    "payload m = [BOOT_STATE_VALID_APPLICATION, packageImageSize (packageHeader s),
       packageImageCrc32 (packageHeader s), packageFirmwareVersion (packageHeader s),
       requestedRole s, 0, 0, 0]"
    "journal_ok (Suc K) f'" "\<And>x. x \<ge> APPLICATION_FLASH_START \<Longrightarrow> cells f' x = cells f x"
proof -
  let ?h = "packageHeader s"
  let ?g = "\<lambda>m. m\<lparr>state := BOOT_STATE_VALID_APPLICATION, imageSize := packageImageSize ?h,
                imageCrc32 := packageImageCrc32 ?h, firmwareVersion := packageFirmwareVersion ?h,
                appRole := requestedRole s, unconfirmedBootCount := 0, bootAttemptId := 0,
                confirmedBootAttemptId := 0\<rparr>"
  from assms(1,2) obtain m where a: "appendMetadataRecord drv (?g (metadata s)) f = (0, m, f')"
    and r: "r = completeReply"
    by (auto simp: handleEnd_def Let_def errorReply_def respond_def split: prod.splits if_splits)
  note u = journal_register.update_read [of ?g, OF a assms(3,4)]
  have "crcMatches f' m" using append_crcMatches [OF a] assms(5) by (simp add: crcMatches_def)
  with that u r append_frame [OF a] show thesis by (simp add: payload_def application_consts)
qed

lemma handleSetRole_persists:
  assumes "handleSetRole drv data s f = (r, s', f')" "systemReset r" "journal_ok K f" "K < 2 ^ 31 - 1"
    and "isApplicationImageValid f (metadata s)"
  obtains m where "readBootMetadata f' = Some m" "crcMatches f' m" "r = completeReply"
    "payload m = payload ((metadata s)\<lparr>state := BOOT_STATE_VALID_APPLICATION, appRole := loadUint32Le data\<rparr>)"
proof -
  let ?g = "\<lambda>m. m\<lparr>state := BOOT_STATE_VALID_APPLICATION, appRole := loadUint32Le data\<rparr>"
  from assms(1,2) obtain m where a: "appendMetadataRecord drv (?g (metadata s)) f = (0, m, f')"
    and r: "r = completeReply"
    by (auto simp: handleSetRole_def Let_def errorReply_def respond_def split: prod.splits if_splits)
  note u = journal_register.update_read [of ?g, OF a assms(3,4)]
  have "crcMatches f' m"
    using append_crcMatches [OF a] assms(5) by (simp add: crcMatches_def isApplicationImageValid_def Let_def)
  with that u r show thesis by simp
qed

lemma reset_replies [simp]:
  "\<not> systemReset errorReply" "\<not> systemReset (handleHello s)" "\<not> systemReset (respond t p)"
  by (simp_all add: errorReply_def handleHello_def respond_def)

lemma handleBegin_no_reset:
  "handleBegin drv data s f = (r, s', f') \<Longrightarrow> \<not> systemReset r \<and> replyType r \<noteq> PROTOCOL_COMPLETE"
  by (auto simp: handleBegin_def Let_def errorReply_def respond_def protocol_types
      split: if_splits prod.splits)

lemma handleData_no_reset:
  "handleData drv data s f = (r, s', f') \<Longrightarrow> \<not> systemReset r \<and> replyType r \<noteq> PROTOCOL_COMPLETE"
  by (auto simp: handleData_def Let_def errorReply_def respond_def protocol_types
      split: if_splits prod.splits)

lemma handleFrame_complete:
  assumes "handleFrame drv fr s f = (r, s', f')" "replyType r = PROTOCOL_COMPLETE"
  shows "systemReset r"
proof -
  have "replyType errorReply \<noteq> PROTOCOL_COMPLETE" "replyType (handleHello s) \<noteq> PROTOCOL_COMPLETE"
    by (simp_all add: errorReply_def handleHello_def respond_def protocol_types)
  moreover have "handleEnd drv s f = (r, s', f') \<Longrightarrow> r = errorReply \<or> r = completeReply"
    "handleSetRole drv (framePayload fr) s f = (r, s', f') \<Longrightarrow> r = errorReply \<or> r = completeReply"
    by (auto simp: handleEnd_def handleSetRole_def Let_def split: if_splits prod.splits)
  ultimately show ?thesis
    using assms handleBegin_no_reset [of "framePayload fr" s f r s' f']
      handleData_no_reset [of "framePayload fr" s f r s' f']
    unfolding handleFrame_def Let_def completeReply_def by (auto split: if_splits)
qed

lemma handleFrame_reset:
  assumes "handleFrame drv fr s f = (r, s', f')" "systemReset r"
  shows "messageType fr = PROTOCOL_END \<and> framePayload fr = [] \<and> updateActive s \<and>
       bytesWritten s = packageImageSize (packageHeader s) \<and>
       crcMatches f ((metadata s)\<lparr>imageSize := packageImageSize (packageHeader s),
           imageCrc32 := packageImageCrc32 (packageHeader s)\<rparr>) \<and>
       handleEnd drv s f = (r, s', f') \<or>
     messageType fr = PROTOCOL_SET_ROLE \<and> length (framePayload fr) = 4 \<and>
       isValidAppRole (loadUint32Le (framePayload fr)) \<and> isApplicationImageValid f (metadata s) \<and>
       handleSetRole drv (framePayload fr) s f = (r, s', f')"
  using assms handleBegin_no_reset [of "framePayload fr" s f r s' f']
    handleData_no_reset [of "framePayload fr" s f r s' f']
  unfolding handleFrame_def Let_def crcMatches_def
  by (simp split: if_splits) auto

end

section \<open>The running session\<close>

definition inProgress :: "flash \<Rightarrow> bool" where
  "inProgress f \<longleftrightarrow> (\<exists>m. readBootMetadata f = Some m \<and> state m = BOOT_STATE_UPDATE_IN_PROGRESS)"

definition running :: "nat \<Rightarrow> session \<Rightarrow> flash \<Rightarrow> bool" where
  "running K s f \<longleftrightarrow> journal_ok K f \<and> sessionOk s \<and>
     (updateActive s \<longrightarrow> imageSize (metadata s) = 0 \<and> inProgress f)"

lemma running_mono: "running K s f \<Longrightarrow> K \<le> K' \<Longrightarrow> running K' s f"
  unfolding running_def using journal_ok_mono by blast

section \<open>A host that follows the protocol\<close>

text \<open>The frames a host sends to install an image in the given chunks, and the replies it is due.\<close>

definition chunkOk :: "u8 list \<Rightarrow> bool" where
  "chunkOk c \<longleftrightarrow> c \<noteq> [] \<and> length c \<le> 128 \<and> 4 dvd length c"

primrec dataFrames :: "u16 \<Rightarrow> nat \<Rightarrow> u8 list list \<Rightarrow> protocol_frame list" where
  "dataFrames q n [] = []"
| "dataFrames q n (c # cs) = \<lparr>messageType = PROTOCOL_DATA, frameSequence = q,
     framePayload = storeUint32Le (of_nat n) @ c\<rparr> # dataFrames (q + 1) (n + length c) cs"

primrec ackFrames :: "u16 \<Rightarrow> nat \<Rightarrow> u8 list list \<Rightarrow> protocol_frame list" where
  "ackFrames q n [] = []"
| "ackFrames q n (c # cs) = \<lparr>messageType = PROTOCOL_ACK, frameSequence = q,
     framePayload = storeUint32Le (of_nat (n + length c))\<rparr> # ackFrames (q + 1) (n + length c) cs"

definition hostFrames :: "FirmwarePackageHeader \<Rightarrow> u32 \<Rightarrow> u8 list list \<Rightarrow> protocol_frame list" where
  "hostFrames h role cs =
     \<lparr>messageType = PROTOCOL_BEGIN, frameSequence = 0, framePayload = headerBytes h @ storeUint32Le role\<rparr> #
     dataFrames 1 0 cs @
     [\<lparr>messageType = PROTOCOL_END, frameSequence = of_nat (length cs + 1), framePayload = []\<rparr>]"

definition deviceFrames :: "u8 list list \<Rightarrow> protocol_frame list" where
  "deviceFrames cs =
     \<lparr>messageType = PROTOCOL_READY, frameSequence = 0, framePayload = storeUint32Le 0\<rparr> #
     ackFrames 1 0 cs @
     [\<lparr>messageType = PROTOCOL_COMPLETE, frameSequence = of_nat (length cs + 1), framePayload = []\<rparr>]"

lemma length_headerBytes [simp]: "length (headerBytes h) = 32"
  by (simp add: headerBytes_def headerBody_def)

lemma headerOf_headerBytes [simp]: "headerOf (headerBytes h) = h"
  by (simp add: headerOf_def headerBytes_def headerBody_def nth_append bytesLe16_def)

lemma dataFrames_fit:
  "list_all chunkOk cs \<Longrightarrow> list_all (\<lambda>fr. length (framePayload fr) \<le> 151) (dataFrames q n cs)"
  by (induction cs arbitrary: q n) (auto simp: chunkOk_def)

lemma hostFrames_fit:
  "list_all chunkOk cs \<Longrightarrow> list_all (\<lambda>fr. length (framePayload fr) \<le> 151) (hostFrames h role cs)"
  using dataFrames_fit [of cs 1 0] by (simp add: hostFrames_def)

context reliable_flash
begin

lemma append_ok_obtain:
  obtains m' f' where "appendMetadataRecord drv m f = (0, m', f')"
  using append_ok [of m f] by (cases "appendMetadataRecord drv m f") auto

lemma erasePages_ok: "fst (erasePages drv pages f) = 0"
proof (induction pages arbitrary: f)
  case (Cons a pages)
  then show ?case using erase_ok [of a f] by (auto split: prod.splits)
qed simp

lemma eraseApplication_ok_obtain:
  obtains f' where "eraseApplicationFlash drv f = (0, f')"
  using erasePages_ok [of applicationPages f]
  by (cases "eraseApplicationFlash drv f") (auto simp: eraseApplicationFlash_def)

text \<open>A valid \<open>BEGIN\<close>: the update state is on record before the application area is blank.\<close>

lemma handleBegin_ok:
  assumes "isValidPackageHeader (headerOf (take 32 data))" "isValidAppRole (loadUint32Le (drop 32 data))"
    and "journal_ok K f" "K < 2 ^ 31 - 1"
  obtains s' f' where "handleBegin drv data s f = (respond PROTOCOL_READY (storeUint32Le 0), s', f')"
    "packageHeader s' = headerOf (take 32 data)" "requestedRole s' = loadUint32Le (drop 32 data)"
    "bytesWritten s' = 0" "updateActive s'" "running (Suc K) s' f'"
    "\<And>x. x \<in> {APPLICATION_FLASH_START..<APPLICATION_FLASH_END} \<Longrightarrow> cells f' x = 0xFF"
proof -
  obtain m f1 where a: "appendMetadataRecord drv setDefaultMetadata f = (0, m, f1)" by (rule append_ok_obtain)
  obtain f2 where e: "eraseApplicationFlash drv f1 = (0, f2)" by (rule eraseApplication_ok_obtain)
  let ?s = "s\<lparr>packageHeader := headerOf (take 32 data), requestedRole := loadUint32Le (drop 32 data),
     metadata := m, bytesWritten := 0, updateActive := True\<rparr>"
  note u = journal_register.update_read [of "\<lambda>_. setDefaultMetadata", OF a assms(3,4)]
  have j: "journal_ok (Suc K) f2 \<and> readBootMetadata f2 = readBootMetadata f1"
    by (rule journal_cong) (use u(3) assms(4) eraseApplication_frame [OF e] in \<open>auto simp: application_consts\<close>)
  note p = payload_fields [OF u(2)]
  have "running (Suc K) ?s f2"
    using j u(1) p assms(1,2) by (simp add: running_def sessionOk_def inProgress_def setDefaultMetadata_def)
  moreover have "handleBegin drv data s f = (respond PROTOCOL_READY (storeUint32Le 0), ?s, f2)"
    using assms(1,2) a e by (simp add: handleBegin_def Let_def)
  ultimately show thesis
    using that [of ?s f2] eraseApplication_done [OF e] by simp
qed

lemma handleData_running:
  assumes "handleData drv data s f = (r, s', f')" "running K s f" "updateActive s" "K < 2 ^ 31"
  shows "running K s' f'" "updateActive s'"
proof -
  from assms(2) have ok: "sessionOk s" "journal_ok K f" by (simp_all add: running_def)
  have j: "journal_ok K f' \<and> readBootMetadata f' = readBootMetadata f"
    by (rule journal_cong) (use ok(2) assms(4) handleData_frame [OF assms(1) ok(1) assms(3)] in auto)
  have s': "metadata s' = metadata s" "updateActive s'"
    using assms(1,3) by (auto simp: handleData_def Let_def split: if_splits prod.splits)
  then show "updateActive s'" by simp
  have "sessionOk s'"
    using assms(1,3) ok(1) data_written_bound [OF header_size_bound]
    by (auto simp: handleData_def Let_def sessionOk_def not_less split: if_splits prod.splits)
  with j s' assms(2,3) show "running K s' f'" by (simp add: running_def inProgress_def)
qed

text \<open>One block of data at the expected offset.\<close>

lemma handleData_write:
  assumes "running K s f" "updateActive s" "bytesWritten s = of_nat n"
    and "n + length bs \<le> unat (packageImageSize (packageHeader s))"
    and "bs \<noteq> []" "length bs \<le> 128" "4 dvd length bs"
  obtains s' f' where
    "handleData drv (storeUint32Le (of_nat n) @ bs) s f =
       (respond PROTOCOL_ACK (storeUint32Le (of_nat (n + length bs))), s', f')"
    "s' = s\<lparr>bytesWritten := of_nat (n + length bs)\<rparr>"
    "FlashProgram drv bs (0x8000 + n) f = (0, f')"
proof -
  let ?data = "storeUint32Le (of_nat n) @ bs"
  let ?len = "of_nat (length bs) :: u16"
  let ?off = "of_nat n :: u32"
  from assms(1,2) have v: "unat (packageImageSize (packageHeader s)) \<le> 0x17000"
    using header_size_bound by (simp add: running_def sessionOk_def)
  then have n: "n \<le> 0x17000" "n + length bs \<le> 0x17000" using assms(4) by simp_all
  have uoff: "unat ?off = n" by (rule unat_of_nat_less) (use n in simp)
  have ulen: "unat ?len = length bs" by (rule unat_of_nat_less) (use assms(6) in simp)
  have dl: "of_nat (length ?data) - 4 = ?len" by simp
  have sum: "?off + ucast ?len = of_nat (n + length bs)"
    using n assms(6) by (simp add: word_unat_eq_iff unat_word_ariths(1) unat_ucast_u16_u32 unat_of_nat)
  have usum: "unat (of_nat (n + length bs) :: u32) = n + length bs"
    by (rule unat_of_nat_less) (use n in simp)
  have ok: "?len \<noteq> 0" "?len \<le> 128" "?len AND 3 = 0"
    "\<not> of_nat (n + length bs) > packageImageSize (packageHeader s)"
  proof -
    show "?len \<noteq> 0" using ulen assms(5) by (metis length_0_conv unat_0)
    show "?len \<le> 128" using ulen assms(6) by (simp add: word_le_nat_alt)
    show "?len AND 3 = 0" using ulen assms(7) by (simp add: and_3_eq_0_iff)
    show "\<not> of_nat (n + length bs) > packageImageSize (packageHeader s)"
      using usum assms(4) unfolding not_less word_le_nat_alt by simp
  qed
  have addr: "unat (of_nat APPLICATION_FLASH_START + ?off) = 0x8000 + n"
    using unat_word_ariths(1) [of "0x8000" ?off] uoff n by (simp add: application_consts)
  obtain f' where p: "FlashProgram drv bs (0x8000 + n) f = (0, f')"
    using program_ok [of bs "0x8000 + n" f] by (metis prod.collapse)
  have le: "?off \<le> of_nat (n + length bs)" using uoff usum by (simp add: word_le_nat_alt)
  have "handleData drv ?data s f =
      (respond PROTOCOL_ACK (storeUint32Le (of_nat (n + length bs))), s\<lparr>bytesWritten := of_nat (n + length bs)\<rparr>, f')"
    unfolding handleData_def Let_def dl loadUint32Le_storeUint32Le sum ulen
    using ok le p assms(3) sum addr by (simp add: not_less)
  with that p show thesis by blast
qed

lemma handleFrames_data:
  assumes "running K s f" "K < 2 ^ 31" "updateActive s" "bytesWritten s = of_nat n"
    and "n + length (concat cs) \<le> unat (packageImageSize (packageHeader s))"
    and "list_all chunkOk cs"
    and "\<And>x. x \<in> {0x8000 + n..<0x8000 + n + length (concat cs)} \<Longrightarrow> cells f x = 0xFF"
  shows "\<exists>f'. handleFrames drv s f (dataFrames q n cs @ frs) =
      (case handleFrames drv (s\<lparr>bytesWritten := of_nat (n + length (concat cs))\<rparr>) f' frs of
         (outs, res) \<Rightarrow> (ackFrames q n cs @ outs, res)) \<and>
    running K (s\<lparr>bytesWritten := of_nat (n + length (concat cs))\<rparr>) f' \<and>
    readBytes f' (0x8000 + n) (length (concat cs)) = concat cs \<and>
    (\<forall>x. x \<notin> {0x8000 + n..<0x8000 + n + length (concat cs)} \<longrightarrow> cells f' x = cells f x)"
  using assms
proof (induction cs arbitrary: s f n q)
  case Nil
  then have e: "s\<lparr>bytesWritten := of_nat n\<rparr> = s" by (cases s) simp
  show ?case using Nil(1) by (intro exI [of _ f]) (simp add: e readBytes_def split: prod.split)
next
  case (Cons c cs)
  let ?n = "n + length c"
  from Cons.prems(6) have c: "c \<noteq> []" "length c \<le> 128" "4 dvd length c" by (simp_all add: chunkOk_def)
  from Cons.prems(5) have room: "n + length c \<le> unat (packageImageSize (packageHeader s))" by simp
  obtain s1 f1 where
    h: "handleData drv (storeUint32Le (of_nat n) @ c) s f =
      (respond PROTOCOL_ACK (storeUint32Le (of_nat ?n)), s1, f1)" and
    s1: "s1 = s\<lparr>bytesWritten := of_nat ?n\<rparr>" and
    p: "FlashProgram drv c (0x8000 + n) f = (0, f1)"
    by (rule handleData_write [OF Cons.prems(1,3,4) room c])
  have r1: "running K s1 f1" using handleData_running [OF h Cons.prems(1,3,2)] by simp
  have img: "readBytes f1 (0x8000 + n) (length c) = c"
    using program_erased [OF p] Cons.prems(7) by simp
  have keep: "cells f1 x = cells f x" if "x \<notin> {0x8000 + n..<0x8000 + n + length c}" for x
    using program_frame [OF p that] .
  have blank: "cells f1 x = 0xFF" if "x \<in> {0x8000 + ?n..<0x8000 + ?n + length (concat cs)}" for x
    using keep [of x] Cons.prems(7) [of x] that by simp
  have side: "updateActive s1" "bytesWritten s1 = of_nat ?n"
    "?n + length (concat cs) \<le> unat (packageImageSize (packageHeader s1))" "list_all chunkOk cs"
    "s1\<lparr>bytesWritten := w\<rparr> = s\<lparr>bytesWritten := w\<rparr>" for w
    using s1 Cons.prems(3,5,6) by simp_all
  from Cons.IH [OF r1 Cons.prems(2) side(1-4) blank, where q = "q + 1"] obtain f' where
    f': "handleFrames drv s1 f1 (dataFrames (q + 1) ?n cs @ frs) =
      (case handleFrames drv (s\<lparr>bytesWritten := of_nat (?n + length (concat cs))\<rparr>) f' frs of
         (outs, res) \<Rightarrow> (ackFrames (q + 1) ?n cs @ outs, res))"
      "running K (s\<lparr>bytesWritten := of_nat (?n + length (concat cs))\<rparr>) f'"
      "readBytes f' (0x8000 + ?n) (length (concat cs)) = concat cs"
      "\<And>x. x \<notin> {0x8000 + ?n..<0x8000 + ?n + length (concat cs)} \<Longrightarrow> cells f' x = cells f1 x"
    unfolding side(5) by blast
  have "handleFrame drv \<lparr>messageType = PROTOCOL_DATA, frameSequence = q,
      framePayload = storeUint32Le (of_nat n) @ c\<rparr> s f =
      (respond PROTOCOL_ACK (storeUint32Le (of_nat ?n)), s1, f1)"
    using h Cons.prems(3) by (simp add: handleFrame_def protocol_types)
  moreover have "readBytes f' (0x8000 + n) (length c) = c"
    using img f'(4) readBytes_cong [of "length c" f' "0x8000 + n" f1] by simp
  ultimately show ?case
    using f' keep readBytes_append [of f' "0x8000 + n" "length c" "length (concat cs)"]
    by (intro exI [of _ f']) (auto simp: Let_def respond_def add.assoc split: prod.splits)
qed

lemma handleEnd_ok:
  obtains s' f' where "handleEnd drv s f = (completeReply, s', f')"
proof -
  let ?h = "packageHeader s"
  obtain m' f' where "appendMetadataRecord drv ((metadata s)\<lparr>state := BOOT_STATE_VALID_APPLICATION,
      imageSize := packageImageSize ?h, imageCrc32 := packageImageCrc32 ?h,
      firmwareVersion := packageFirmwareVersion ?h, appRole := requestedRole s,
      unconfirmedBootCount := 0, bootAttemptId := 0, confirmedBootAttemptId := 0\<rparr>) f = (0, m', f')"
    by (rule append_ok_obtain)
  with that show thesis by (simp add: handleEnd_def Let_def)
qed

lemma install:
  assumes h: "isValidPackageHeader h" "isValidAppRole role" and K: "journal_ok K f" "K < 2 ^ 31 - 2"
    and cs: "list_all chunkOk cs" "length (concat cs) = unat (packageImageSize h)"
      "calculateCrc32 (concat cs) = packageImageCrc32 h"
  shows "\<exists>f' m. handleFrames drv s f (hostFrames h role cs) = (deviceFrames cs, Inr f') \<and>
    readBytes f' APPLICATION_FLASH_START (length (concat cs)) = concat cs \<and>
    readBootMetadata f' = Some m \<and> journal_ok (K + 2) f' \<and>
    payload m = [BOOT_STATE_VALID_APPLICATION, packageImageSize h, packageImageCrc32 h,
      packageFirmwareVersion h, role, 0, 0, 0]"
proof -
  let ?d = "headerBytes h @ storeUint32Le role"
  let ?N = "length (concat cs)"
  from K have K': "K < 2 ^ 31 - 1" "Suc K < 2 ^ 31 - 1" "Suc K < 2 ^ 31" by simp_all
  obtain s1 f1 where b: "handleBegin drv ?d s f = (respond PROTOCOL_READY (storeUint32Le 0), s1, f1)"
    and s1: "packageHeader s1 = h" "requestedRole s1 = role" "bytesWritten s1 = 0" "updateActive s1"
      "running (Suc K) s1 f1"
    and blank: "\<And>x. x \<in> {APPLICATION_FLASH_START..<APPLICATION_FLASH_END} \<Longrightarrow> cells f1 x = 0xFF"
    using handleBegin_ok [of ?d K f s] h K(1) K'(1) by (auto simp del: atLeastLessThan_iff)
  let ?s2 = "s1\<lparr>bytesWritten := of_nat ?N\<rparr>"
  let ?last = "\<lparr>messageType = PROTOCOL_END, frameSequence = of_nat (length cs + 1), framePayload = []\<rparr>"
  have N: "?N \<le> 0x17000" using cs(2) header_size_bound [OF h(1)] by simp
  have "\<exists>f2. handleFrames drv s1 f1 (dataFrames 1 0 cs @ [?last]) =
      (case handleFrames drv ?s2 f2 [?last] of (outs, res) \<Rightarrow> (ackFrames 1 0 cs @ outs, res)) \<and>
    running (Suc K) ?s2 f2 \<and> readBytes f2 0x8000 ?N = concat cs"
    using handleFrames_data [OF s1(5) K'(3) s1(4), of 0 cs 1 "[?last]"] s1(1,3) cs(1,2) blank N
    by (fastforce simp: application_consts)
  then obtain f2 where d: "handleFrames drv s1 f1 (dataFrames 1 0 cs @ [?last]) =
      (case handleFrames drv ?s2 f2 [?last] of (outs, res) \<Rightarrow> (ackFrames 1 0 cs @ outs, res))"
    "running (Suc K) ?s2 f2" "readBytes f2 0x8000 ?N = concat cs" by blast
  have bw: "bytesWritten ?s2 = packageImageSize (packageHeader ?s2)"
    using s1(1) by (simp add: cs(2) flip: word_unat_eq_iff)
  obtain s3 f3 where e: "handleEnd drv ?s2 f2 = (completeReply, s3, f3)" by (rule handleEnd_ok)
  have "handleFrame drv ?last ?s2 f2 = (completeReply, s3, f3)"
    using e s1 bw d(3) cs(2,3) by (simp add: handleFrame_def protocol_types APPLICATION_FLASH_START_def)
  with b d(1) have run: "handleFrames drv s f (hostFrames h role cs) = (deviceFrames cs, Inr f3)"
    by (simp add: hostFrames_def deviceFrames_def handleFrame_def protocol_types Let_def respond_def
        completeReply_def)
  have ok2: "journal_ok (Suc K) f2" using d(2) by (simp add: running_def)
  have crc: "crcMatches f2 ((metadata ?s2)\<lparr>imageSize := packageImageSize (packageHeader ?s2),
      imageCrc32 := packageImageCrc32 (packageHeader ?s2)\<rparr>)"
    using d(3) cs(2,3) s1(1) by (simp add: crcMatches_def APPLICATION_FLASH_START_def)
  from handleEnd_persists [OF e _ ok2 K'(2) crc] obtain m where
    "readBootMetadata f3 = Some m" "journal_ok (Suc (Suc K)) f3"
    "payload m = [BOOT_STATE_VALID_APPLICATION, packageImageSize h, packageImageCrc32 h,
      packageFirmwareVersion h, role, 0, 0, 0]"
    and keep: "\<And>x. x \<ge> APPLICATION_FLASH_START \<Longrightarrow> cells f3 x = cells f2 x"
    by (auto simp: completeReply_def s1)
  moreover have "readBytes f3 APPLICATION_FLASH_START ?N = concat cs"
    using keep d(3) readBytes_cong [of ?N f3 "0x8000" f2] by (simp add: APPLICATION_FLASH_START_def)
  ultimately show ?thesis using run by auto
qed

end

section \<open>A concrete package\<close>

definition demoHeader :: FirmwarePackageHeader where
  "demoHeader = (let h = \<lparr>packageMagic = PACKAGE_MAGIC, packageFormatVersion = PACKAGE_FORMAT_VERSION,
     headerSize = 32, targetId = FIRMWARE_TARGET_ID, applicationAddress = 0x8000, packageImageSize = 8,
     packageFirmwareVersion = 0x200, packageImageCrc32 = calculateCrc32 demoImage, headerCrc32 = 0\<rparr>
   in h\<lparr>headerCrc32 := calculateCrc32 (headerBody h)\<rparr>)"

definition idleSession :: session where
  "idleSession = \<lparr>metadata = setDefaultMetadata, packageHeader = demoHeader, bytesWritten = 0,
     requestedRole = APP_ROLE_UNSET, updateActive = False\<rparr>"

lemma demoHeader_valid: "isValidPackageHeader demoHeader"
  by (simp add: isValidPackageHeader_def demoHeader_def Let_def application_consts headerBody_def)

lemma demoHeader_fields [simp]:
  "packageImageSize demoHeader = 8" "packageImageCrc32 demoHeader = calculateCrc32 demoImage"
  by (simp_all add: demoHeader_def Let_def)

lemma role_valid [simp]: "isValidAppRole APP_ROLE_TX" "isValidAppRole APP_ROLE_RX"
  by (simp_all add: isValidAppRole_def)

lemma length_demoImage [simp]: "length demoImage = 8" "demoImage \<noteq> []"
  by (simp_all add: demoImage_def storeUint32Le_def)

lemma idle_running: "running K idleSession (blankFlash n)"
  by (simp add: running_def sessionOk_def idleSession_def)

definition demoBegin :: protocol_frame where
  "demoBegin = \<lparr>messageType = PROTOCOL_BEGIN, frameSequence = 0,
     framePayload = headerBytes demoHeader @ storeUint32Le APP_ROLE_TX\<rparr>"

lemma demoBegin_acceptable: "acceptable demoBegin"
  by (simp add: acceptable_def demoBegin_def demoHeader_valid)

lemma demoBegin_run:
  obtains s f where "runFirmwareUpdate ideal_driver idleSession (blankFlash 0) (wireBytes demoBegin) =
    ([\<lparr>messageType = PROTOCOL_READY, frameSequence = 0, framePayload = storeUint32Le 0\<rparr>], Inl (s, f))"
proof -
  have "handleFrame ideal_driver demoBegin idleSession (blankFlash 0) =
      handleBegin ideal_driver (framePayload demoBegin) idleSession (blankFlash 0)"
    by (simp add: handleFrame_def demoBegin_def protocol_types)
  moreover have "receivedFrames (wireBytes demoBegin) = [demoBegin]"
    using receivedFrames_wire [of "[demoBegin]"] by (simp add: demoBegin_def)
  moreover obtain s f where "handleBegin ideal_driver (framePayload demoBegin) idleSession (blankFlash 0) =
      (respond PROTOCOL_READY (storeUint32Le 0), s, f)"
    by (rule ideal.handleBegin_ok [of "framePayload demoBegin" 0 "blankFlash 0"])
      (simp_all add: demoBegin_def demoHeader_valid)
  ultimately show thesis
    by (intro that) (simp add: run_handleFrames Let_def respond_def, simp add: demoBegin_def)
qed

section \<open>Properties\<close>





lemma data_fields:
  assumes "length bs \<le> 128"
  shows "of_nat (length (storeUint32Le off @ bs)) - 4 = (of_nat (length bs) :: u16)"
    "unat (of_nat (length bs) :: u16) = length bs"
    "ucast (of_nat (length bs) :: u16) = (of_nat (length bs) :: u32)"
proof -
  show "of_nat (length (storeUint32Le off @ bs)) - 4 = (of_nat (length bs) :: u16)" by simp
  show u: "unat (of_nat (length bs) :: u16) = length bs"
    by (rule unat_of_nat_less) (use assms in simp)
  have "unat (of_nat (length bs) :: u32) = length bs"
    by (rule unat_of_nat_less) (use assms in simp)
  with u unat_ucast_u16_u32 [of "of_nat (length bs)"]
  show "ucast (of_nat (length bs) :: u16) = (of_nat (length bs) :: u32)" by (simp add: word_unat_eq_iff)
qed

lemma chunk_checks:
  assumes "chunkOk bs"
  shows "(of_nat (length bs) :: u16) \<noteq> 0" "(of_nat (length bs) :: u16) \<le> 128"
    "(of_nat (length bs) :: u16) AND 3 = 0"
proof -
  from assms have u: "unat (of_nat (length bs) :: u16) = length bs" "length bs \<noteq> 0" "length bs \<le> 128"
    "4 dvd length bs" using data_fields(2) [of bs] by (simp_all add: chunkOk_def)
  then show "(of_nat (length bs) :: u16) \<noteq> 0" by (metis unat_0)
  show "(of_nat (length bs) :: u16) \<le> 128" using u by (simp add: word_le_nat_alt)
  show "(of_nat (length bs) :: u16) AND 3 = 0" using u by (simp add: and_3_eq_0_iff)
qed

text \<open>C16. Stop-and-wait: a well-formed block is programmed only at the expected position. A repeated
  block is acknowledged and a block from the future is refused, both with the current position
  and without any effect; a block at the expected position is programmed and advances it. When
  the flash reports a failure the position stays, but the reply is still \<open>ACK\<close>.\<close>

theorem data_block_handling:
  assumes "sessionOk s" "updateActive s" "chunkOk bs"
    and "off + of_nat (length bs) \<le> packageImageSize (packageHeader s)"
    and "handleFrame drv \<lparr>messageType = PROTOCOL_DATA, frameSequence = q,
           framePayload = storeUint32Le off @ bs\<rparr> s f = (r, s', f')"
    and "FlashProgram drv bs (0x8000 + unat off) f = (st, f1)"
  shows "(off < bytesWritten s \<longrightarrow> r = respond PROTOCOL_ACK (storeUint32Le (bytesWritten s)) \<and> s' = s \<and> f' = f) \<and>
    (off > bytesWritten s \<longrightarrow> r = respond PROTOCOL_NACK (storeUint32Le (bytesWritten s)) \<and> s' = s \<and> f' = f) \<and>
    (off = bytesWritten s \<and> st \<noteq> 0 \<longrightarrow>
       r = respond PROTOCOL_ACK (storeUint32Le (bytesWritten s)) \<and> s' = s \<and> f' = f1) \<and>
    (off = bytesWritten s \<and> st = 0 \<longrightarrow>
       r = respond PROTOCOL_ACK (storeUint32Le (off + of_nat (length bs))) \<and>
       s' = s\<lparr>bytesWritten := off + of_nat (length bs)\<rparr> \<and> f' = f1)"
proof -
  from assms(3) have l: "length bs \<le> 128" by (simp add: chunkOk_def)
  note d = data_fields [OF l] and c = chunk_checks [OF assms(3)]
  from assms(5,2) have h: "handleData drv (storeUint32Le off @ bs) s f = (r, s', f')"
    by (simp add: handleFrame_def protocol_types)
  have size: "unat (packageImageSize (packageHeader s)) \<le> 0x17000"
    using assms(1,2) header_size_bound by (simp add: sessionOk_def)
  have area: "unat (of_nat 0x8000 + off) = 0x8000 + unat off"
    "unat (off + of_nat (length bs)) = unat off + length bs" if "off = bytesWritten s"
    using data_in_area [OF size _ _ c(2), of off] that assms(1,2,4) d by (simp_all add: sessionOk_def not_less)
  have checks: "\<not> (of_nat (length bs) = (0 :: u16) \<or> of_nat (length bs) > (128 :: u16) \<or>
      of_nat (length bs) AND 3 \<noteq> (0 :: u16) \<or> off + of_nat (length bs) > packageImageSize (packageHeader s))"
    using c assms(4) by auto
  have data: "take (length bs) (drop 4 (storeUint32Le off @ bs)) = bs" by simp
  show ?thesis
  proof (cases "off = bytesWritten s")
    case True
    have p: "FlashProgram drv bs (unat (of_nat APPLICATION_FLASH_START + off)) f = (st, f1)"
      using assms(6) area(1) [OF True] by (simp add: APPLICATION_FLASH_START_def)
    have le: "off \<le> off + of_nat (length bs)" using area(2) [OF True] by (simp add: word_le_nat_alt)
    from h checks True p le show ?thesis
      unfolding handleData_def Let_def d(1-3) loadUint32Le_storeUint32Le data
      by (auto split: if_splits)
  next
    case False
    from h checks False show ?thesis
      unfolding handleData_def Let_def d(1-3) loadUint32Le_storeUint32Le by auto
  qed
qed

definition activeSession :: session where
  "activeSession = idleSession\<lparr>updateActive := True, requestedRole := APP_ROLE_TX\<rparr>"

lemma activeSession_ok: "sessionOk activeSession" "updateActive activeSession"
  by (simp_all add: sessionOk_def activeSession_def idleSession_def demoHeader_valid)

theorem data_block_handling_witness:
  "\<exists>f'. handleFrame countdown_driver \<lparr>messageType = PROTOCOL_DATA, frameSequence = 3,
       framePayload = storeUint32Le 0 @ take 4 demoImage\<rparr> activeSession (blankFlash 0) =
     (respond PROTOCOL_ACK (storeUint32Le 0), activeSession, f')"
proof -
  obtain r s' f' where h: "handleFrame countdown_driver \<lparr>messageType = PROTOCOL_DATA, frameSequence = 3,
      framePayload = storeUint32Le 0 @ take 4 demoImage\<rparr> activeSession (blankFlash 0) = (r, s', f')"
    by (metis prod_cases3)
  obtain f1 where p: "FlashProgram countdown_driver (take 4 demoImage) (0x8000 + unat (0 :: u32)) (blankFlash 0) = (1, f1)"
    by (simp add: countdown_driver_def blankFlash_def)
  have w: "bytesWritten activeSession = 0" by (simp add: activeSession_def idleSession_def)
  have "r = respond PROTOCOL_ACK (storeUint32Le (bytesWritten activeSession)) \<and> s' = activeSession"
    using data_block_handling [OF activeSession_ok _ _ h p] w
    by (simp add: chunkOk_def activeSession_def idleSession_def)
  with h w show ?thesis by simp
qed

text \<open>C17. A refused \<open>BEGIN\<close> is not without effect: it replaces the header and the role of the running
  session, which stays active. A complete download followed by a \<open>BEGIN\<close> with the same header
  and a bad role is answered with \<open>ERROR\<close>, and the \<open>END\<close> after it persists a valid application
  with the bad role.\<close>

theorem refused_begin_changes_session:
  assumes "reliable_flash drv" "journal_ok K f" "K < 2 ^ 31 - 1" "updateActive s"
    and "bytesWritten s = packageImageSize (packageHeader s)"
    and "calculateCrc32 (readBytes f APPLICATION_FLASH_START (unat (packageImageSize (packageHeader s)))) =
      packageImageCrc32 (packageHeader s)"
    and "\<not> isValidAppRole role"
  shows "\<exists>f' m. handleFrames drv s f
      [\<lparr>messageType = PROTOCOL_BEGIN, frameSequence = q,
        framePayload = headerBytes (packageHeader s) @ storeUint32Le role\<rparr>,
       \<lparr>messageType = PROTOCOL_END, frameSequence = q + 1, framePayload = []\<rparr>] =
      ([\<lparr>messageType = PROTOCOL_ERROR, frameSequence = q, framePayload = []\<rparr>,
        \<lparr>messageType = PROTOCOL_COMPLETE, frameSequence = q + 1, framePayload = []\<rparr>], Inr f') \<and>
    readBootMetadata f' = Some m \<and> state m = BOOT_STATE_VALID_APPLICATION \<and> appRole m = role"
proof -
  let ?b = "\<lparr>messageType = PROTOCOL_BEGIN, frameSequence = q,
        framePayload = headerBytes (packageHeader s) @ storeUint32Le role\<rparr>"
  let ?e = "\<lparr>messageType = PROTOCOL_END, frameSequence = q + 1, framePayload = []\<rparr> :: protocol_frame"
  let ?s = "s\<lparr>requestedRole := role\<rparr>"
  have "s\<lparr>packageHeader := packageHeader s, requestedRole := role\<rparr> = ?s" by (cases s) simp
  then have b: "handleFrame drv ?b s f = (errorReply, ?s, f)"
    using assms(7) by (simp add: handleFrame_def handleBegin_def Let_def protocol_types)
  obtain s' f' where h: "handleEnd drv ?s f = (completeReply, s', f')"
    using reliable_flash.handleEnd_ok [OF assms(1)] by blast
  then have e: "handleFrame drv ?e ?s f = (completeReply, s', f')"
    using assms(4-6) by (simp add: handleFrame_def protocol_types)
  have "crcMatches f ((metadata ?s)\<lparr>imageSize := packageImageSize (packageHeader ?s),
      imageCrc32 := packageImageCrc32 (packageHeader ?s)\<rparr>)"
    using assms(6) by (simp add: crcMatches_def)
  from nor_flash.handleEnd_persists [OF reliable_flash.axioms(1) [OF assms(1)] h _ assms(2,3) this] obtain m where
    "readBootMetadata f' = Some m" "payload m = [BOOT_STATE_VALID_APPLICATION, packageImageSize (packageHeader ?s),
       packageImageCrc32 (packageHeader ?s), packageFirmwareVersion (packageHeader ?s), role, 0, 0, 0]"
    by (auto simp: completeReply_def)
  with b e show ?thesis
    by (auto simp: Let_def payload_def) (auto simp: errorReply_def completeReply_def respond_def)
qed

theorem refused_begin_changes_session_witness:
  "\<exists>outs f' m. handleFrames ideal_driver (activeSession\<lparr>bytesWritten := 8\<rparr>) demoFlash
      [\<lparr>messageType = PROTOCOL_BEGIN, frameSequence = 0, framePayload = headerBytes demoHeader @ storeUint32Le 7\<rparr>,
       \<lparr>messageType = PROTOCOL_END, frameSequence = 0 + 1, framePayload = []\<rparr>] = (outs, Inr f') \<and>
     readBootMetadata f' = Some m \<and> appRole m = 7 \<and> \<not> isValidAppRole (appRole m)"
  using refused_begin_changes_session [OF ideal.reliable_flash_axioms demoFlash_ok [of 0],
      where s = "activeSession\<lparr>bytesWritten := 8\<rparr>" and role = 7 and q = 0] demoFlash_image
  by (fastforce simp: activeSession_def idleSession_def isValidAppRole_def app_role_defs)

end
