(* ===== verification/Update_Recovery.thy ===== *)
theory Update_Recovery
  imports Update_Session
begin

text \<open>
  What is left of an update session when the power fails. The driver is any driver within its
  contract, so every flash call may fail or stop half-way; a loss of power in the middle of a frame
  is a failing call after which the input ends, because no handler makes a further flash call
  after one that failed, and a loss between two calls is a failing call that changes nothing. The
  frames may contain \<open>BEGIN\<close> frames which the device refuses, after which \<open>DATA\<close> is bounded by a
  size that was never validated.
\<close>

section \<open>Failed appends\<close>

text \<open>An append that succeeds, and a frame that leaves the journal alone, are never accidents.\<close>

lemma crc_blank_body: "calculateCrc32 (replicate 44 0xFF) \<noteq> 0xFFFFFFFF"
  by (simp add: crc_eval replicate_numeral)

lemma erased_body: "isErasedRecord f a \<Longrightarrow> readBytes f a 44 = replicate 44 0xFF"
  by (simp add: isErasedRecord_iff readBytes_eq_iff)

lemma noCrcAccident_same:
  assumes "\<And>x. x \<in> {METADATA_PAGE_PRIMARY..<APPLICATION_FLASH_START} \<Longrightarrow> cells f' x = cells f x"
  shows "noCrcAccident f f' m"
proof -
  have c: "cells f' (slot p i + k) = cells f (slot p i + k)"
    if "p \<in> journalPages" "i < 85" "k < 48" for p i k
    by (rule assms) (use slot_in_page [OF that(2,3), of p] that(1) in
        \<open>auto simp: journalPages_def metadata_consts application_consts\<close>)
  show ?thesis
  proof (cases "findWritableRecord f [METADATA_PAGE_PRIMARY, METADATA_PAGE_SECONDARY]")
    case None
    have "readBytes f' (slot (rotatedPage f) i) 48 = readBytes f (slot (rotatedPage f) i) 48" if "i < 85" for i
      by (rule readBytes_cong) (rule c [OF rotatedPage_in that])
    then show ?thesis unfolding noCrcAccident_def None by (simp add: Let_def)
  next
    case (Some a)
    then obtain p i where "p \<in> journalPages" "i < 85" "a = slot p i" "isErasedRecord f a"
      by (rule findWritableRecord_SomeD) blast
    with c record_cong(2) [of f' a f] have "readBytes f' a 44 = replicate 44 0xFF"
      by (intro erased_body) simp
    with crc_blank_body show ?thesis unfolding noCrcAccident_def Some by simp
  qed
qed

context nor_flash
begin

lemma noCrcAccident_done:
  assumes "appendMetadataRecord drv m0 f = (0, m, f')"
  shows "noCrcAccident f f' m"
proof -
  have body: "readBytes f' a 44 = metadataBody m" if "readBytes f' a 48 = metadataBytes m" for a
    using that take_readBytes [of 44 48 f' a] by (simp add: metadataBytes_def)
  have target: "appendTarget f = a" if "findWritableRecord f [METADATA_PAGE_PRIMARY, METADATA_PAGE_SECONDARY] = Some a" for a
    unfolding appendTarget_def that by simp
  show ?thesis
  proof (cases "findWritableRecord f [METADATA_PAGE_PRIMARY, METADATA_PAGE_SECONDARY]")
    case (Some a)
    from assms have "readBytes f' (appendTarget f) 48 = metadataBytes m"
      by (cases rule: append_effect) simp_all
    with body target [OF Some] show ?thesis unfolding noCrcAccident_def Some by simp
  next
    case None
    from assms show ?thesis
    proof (cases rule: append_effect)
      case (slot p i)
      with findWritableRecord_NoneD [OF None] show ?thesis by blast
    next
      case rotate
      have "i = 0 \<and> readBytes f' (slot (rotatedPage f) i) 44 = metadataBody m \<or> \<not> matchesOwnCrc f' (slot (rotatedPage f) i)"
        if "i < 85" for i
      proof (cases "i = 0")
        case True
        with body rotate(4) show ?thesis by simp
      next
        case False
        with rotate(5) that have er: "isErasedRecord f' (slot (rotatedPage f) i)" by simp
        then have "readUint32 f' (slot (rotatedPage f) i + 44) = NOT 0"
          unfolding readUint32_ones isErasedRecord_iff by (simp add: add.assoc)
        moreover have "(NOT 0 :: u32) = 0xFFFFFFFF" by simp
        ultimately show ?thesis
          using erased_body [OF er] crc_blank_body unfolding matchesOwnCrc_def by metis
      qed
      then show ?thesis unfolding noCrcAccident_def None by (simp add: Let_def)
    qed
  qed
qed

end

text \<open>The records that the frames of a session append: no failed one leaves bytes that carry their own
  checksum. After every frame \<open>metadata\<close> is the record that the frame appended, if it appended one.\<close>

primrec noCrcAccidents :: "flash_driver \<Rightarrow> session \<Rightarrow> flash \<Rightarrow> protocol_frame list \<Rightarrow> bool" where
  "noCrcAccidents drv s f [] = True"
| "noCrcAccidents drv s f (fr # frs) =
     (case handleFrame drv fr s f of (r, s', f') \<Rightarrow>
        systemReset r \<or> noCrcAccident f f' (metadata s') \<and> noCrcAccidents drv s' f' frs)"

section \<open>One block of data, wherever the header allows it\<close>

text \<open>No assumption on the header: the position alone bounds what is written.\<close>

lemma handleData_effect:
  assumes "handleData drv data s f = (r, s', f')" "unat (bytesWritten s) + 0x8080 < 2 ^ 32"
  shows "metadata s' = metadata s \<and> packageHeader s' = packageHeader s \<and> updateActive s' = updateActive s \<and>
    unat (bytesWritten s) \<le> unat (bytesWritten s') \<and> unat (bytesWritten s') \<le> unat (bytesWritten s) + 128"
  and "nor_flash drv \<Longrightarrow> x \<notin> {0x8000 + unat (bytesWritten s)..<0x8000 + unat (bytesWritten s) + 128} \<Longrightarrow>
    cells f' x = cells f x"
proof -
  let ?len = "of_nat (length data) - 4 :: u16"
  let ?b = "bytesWritten s"
  let ?bs = "take (unat ?len) (drop 4 data)"
  consider "s' = s" "f' = f"
    | st where "?len \<le> 128" "FlashProgram drv ?bs (unat (of_nat APPLICATION_FLASH_START + ?b)) f = (st, f')"
        "s' = s \<or> s' = s\<lparr>bytesWritten := ?b + ucast ?len\<rparr>"
    using assms(1) by (auto simp: handleData_def Let_def split: if_splits prod.splits)
  note c = this
  have area: "unat (of_nat APPLICATION_FLASH_START + ?b) = 0x8000 + unat ?b"
    using unat_word_ariths(1) [of "0x8000" ?b] assms(2) by (simp add: application_consts)
  have sum: "unat (?b + ucast ?len) = unat ?b + unat ?len" if "?len \<le> 128"
  proof -
    from that have "unat ?len \<le> 128" by (simp add: word_le_nat_alt)
    then show ?thesis
      using unat_word_ariths(1) [of ?b "ucast ?len"] assms(2) unat_ucast_u16_u32 [of ?len] by simp
  qed
  show "metadata s' = metadata s \<and> packageHeader s' = packageHeader s \<and> updateActive s' = updateActive s \<and>
    unat (bytesWritten s) \<le> unat (bytesWritten s') \<and> unat (bytesWritten s') \<le> unat (bytesWritten s) + 128"
    using c
  proof cases
    case 2
    then have "unat ?len \<le> 128" by (simp add: word_le_nat_alt)
    with 2 sum show ?thesis by auto
  qed simp
  assume n: "nor_flash drv"
    and x: "x \<notin> {0x8000 + unat (bytesWritten s)..<0x8000 + unat (bytesWritten s) + 128}"
  show "cells f' x = cells f x"
    using c
  proof cases
    case 2
    then have "unat ?len \<le> 128" by (simp add: word_le_nat_alt)
    then have "length ?bs \<le> 128" by simp
    with x area have "x \<notin> {unat (of_nat APPLICATION_FLASH_START + ?b)..<
        unat (of_nat APPLICATION_FLASH_START + ?b) + length ?bs}" by auto
    from nor_flash.program_frame [OF n 2(2) this] show ?thesis .
  qed simp
qed

text \<open>What a frame can be, with the handler that takes it.\<close>

lemma handleFrame_cases:
  assumes "handleFrame drv fr s f = (r, s', f')"
  obtains "s' = s" "f' = f" "r = errorReply \<or> r = handleHello s"
    | "messageType fr = PROTOCOL_BEGIN" "length (framePayload fr) = 36"
      "handleBegin drv (framePayload fr) s f = (r, s', f')"
    | "messageType fr = PROTOCOL_DATA" "updateActive s" "handleData drv (framePayload fr) s f = (r, s', f')"
    | "messageType fr = PROTOCOL_END" "updateActive s" "bytesWritten s = packageImageSize (packageHeader s)"
      "crcMatches f ((metadata s)\<lparr>imageSize := packageImageSize (packageHeader s),
         imageCrc32 := packageImageCrc32 (packageHeader s)\<rparr>)" "handleEnd drv s f = (r, s', f')"
    | "messageType fr = PROTOCOL_SET_ROLE" "isApplicationImageValid f (metadata s)"
      "handleSetRole drv (framePayload fr) s f = (r, s', f')"
  using assms unfolding handleFrame_def Let_def crcMatches_def by (simp split: if_splits) auto

section \<open>What a session can write\<close>

lemma handleBegin_bound:
  "handleBegin drv data s f = (r, s', f') \<Longrightarrow> unat (bytesWritten s) \<le> B \<Longrightarrow> unat (bytesWritten s') \<le> B"
  by (auto simp: handleBegin_def Let_def split: if_splits prod.splits)

lemma handleEnd_session: "handleEnd drv s f = (r, s', f') \<Longrightarrow> \<exists>m. s' = s\<lparr>metadata := m\<rparr>"
  by (auto simp: handleEnd_def Let_def split: prod.splits)

lemma handleSetRole_session: "handleSetRole drv data s f = (r, s', f') \<Longrightarrow> \<exists>m. s' = s\<lparr>metadata := m\<rparr>"
  by (auto simp: handleSetRole_def Let_def split: prod.splits)

lemma handleFrame_code:
  assumes "nor_flash drv" "handleFrame drv fr s f = (r, s', f')"
    and "updateActive s \<longrightarrow> unat (bytesWritten s) \<le> B" "B + 0x8080 < 2 ^ 32"
  shows "updateActive s' \<longrightarrow> unat (bytesWritten s') \<le> B + 128"
    "x < METADATA_PAGE_PRIMARY \<Longrightarrow> cells f' x = cells f x"
proof -
  have x: "x \<in> protectedCells" if "x < METADATA_PAGE_PRIMARY" using that by (simp add: protectedCells_def)
  from assms(2) have "(updateActive s' \<longrightarrow> unat (bytesWritten s') \<le> B + 128) \<and>
    (x < METADATA_PAGE_PRIMARY \<longrightarrow> cells f' x = cells f x)"
  proof (cases rule: handleFrame_cases)
    case 1
    with assms(3) show ?thesis by auto
  next
    case 2
    have "updateActive s' \<longrightarrow> updateActive s \<or> bytesWritten s' = 0"
      using 2(3) by (auto simp: handleBegin_def Let_def split: if_splits prod.splits)
    with handleBegin_bound [OF 2(3), of B] assms(3) nor_flash.handleBegin_confined [OF assms(1) 2(3), of x] x
    show ?thesis by auto
  next
    case 3
    then have b: "unat (bytesWritten s) \<le> B" "unat (bytesWritten s) + 0x8080 < 2 ^ 32" using assms(3,4) by simp_all
    from handleData_effect(1) [OF 3(3) b(2)] handleData_effect(2) [OF 3(3) b(2) assms(1), of x] b(1)
    show ?thesis by (auto simp: METADATA_PAGE_PRIMARY_def)
  next
    case 4
    then obtain m where "s' = s\<lparr>metadata := m\<rparr>" using handleEnd_session by blast
    with 4 assms(3) nor_flash.append_confined [OF assms(1)] x show ?thesis
      by (auto simp: handleEnd_def Let_def split: prod.splits)
  next
    case 5
    then obtain m where "s' = s\<lparr>metadata := m\<rparr>" using handleSetRole_session by blast
    with 5 assms(3) nor_flash.append_confined [OF assms(1)] x show ?thesis
      by (auto simp: handleSetRole_def Let_def split: prod.splits)
  qed
  then show "updateActive s' \<longrightarrow> unat (bytesWritten s') \<le> B + 128"
    "x < METADATA_PAGE_PRIMARY \<Longrightarrow> cells f' x = cells f x" by blast+
qed

lemma handleFrames_code:
  assumes "nor_flash drv" "handleFrames drv s f frs = (outs, res)" "x < METADATA_PAGE_PRIMARY"
    and "updateActive s \<longrightarrow> unat (bytesWritten s) \<le> B" "B + 128 * length frs + 0x8080 < 2 ^ 32"
  shows "cells (flashOf res) x = cells f x"
  using assms(2,4,5)
proof (induction frs arbitrary: s f outs B)
  case Nil
  then show ?case by (auto simp: flashOf_def)
next
  case (Cons fr frs)
  obtain r s1 f1 where h: "handleFrame drv fr s f = (r, s1, f1)" by (metis prod_cases3)
  from Cons.prems(3) have B: "B + 0x8080 < 2 ^ 32" by simp
  note one = handleFrame_code [OF assms(1) h Cons.prems(2) B]
  show ?case
  proof (cases "systemReset r")
    case True
    with h Cons.prems(1) one(2) [OF assms(3)] show ?thesis by (auto simp: flashOf_def Let_def)
  next
    case False
    with h Cons.prems(1) obtain outs' where "handleFrames drv s1 f1 frs = (outs', res)"
      by (auto simp: Let_def split: prod.splits)
    from Cons.IH [OF this one(1)] Cons.prems(3) one(2) [OF assms(3)] show ?thesis by simp
  qed
qed

lemma handleFrames_configuration:
  assumes "nor_flash drv" "handleFrames drv s f frs = (outs, res)" "sessionOk s" "list_all acceptable frs"
    "x \<in> protectedCells"
  shows "cells (flashOf res) x = cells f x"
  using assms(2-4)
proof (induction frs arbitrary: s f outs)
  case Nil
  then show ?case by (auto simp: flashOf_def)
next
  case (Cons fr frs)
  obtain r s1 f1 where h: "handleFrame drv fr s f = (r, s1, f1)" by (metis prod_cases3)
  have c: "cells f1 x = cells f x" using nor_flash.handleFrame_confined [OF assms(1) h Cons.prems(2) assms(5)] .
  have ok: "sessionOk s1" using handleFrame_sessionOk [OF h Cons.prems(2)] Cons.prems(3) by simp
  show ?case
  proof (cases "systemReset r")
    case True
    with h Cons.prems(1) c show ?thesis by (auto simp: flashOf_def Let_def)
  next
    case False
    with h Cons.prems(1) obtain outs' where "handleFrames drv s1 f1 frs = (outs', res)"
      by (auto simp: Let_def split: prod.splits)
    from Cons.IH [OF this ok] Cons.prems(3) c show ?thesis by simp
  qed
qed

text \<open>After a refused \<open>BEGIN\<close> the session goes on with the refused header. When the largest image has been
  received, a \<open>BEGIN\<close> that announces a larger one is refused, and the next block is programmed
  and acknowledged at \<open>0x1F000\<close>, the page of the chip configuration.\<close>

lemma refused_begin_reaches_configuration:
  assumes "reliable_flash drv" "updateActive s" "bytesWritten s = 0x17000"
    and "packageImageSize h \<ge> 0x17080" "chunkOk bs"
  shows "\<exists>s' f'. handleFrames drv s f
      [\<lparr>messageType = PROTOCOL_BEGIN, frameSequence = q, framePayload = headerBytes h @ storeUint32Le role\<rparr>,
       \<lparr>messageType = PROTOCOL_DATA, frameSequence = q + 1, framePayload = storeUint32Le 0x17000 @ bs\<rparr>] =
      ([\<lparr>messageType = PROTOCOL_ERROR, frameSequence = q, framePayload = []\<rparr>,
        \<lparr>messageType = PROTOCOL_ACK, frameSequence = q + 1,
          framePayload = storeUint32Le (0x17000 + of_nat (length bs))\<rparr>], Inl (s', f')) \<and>
    (\<forall>i<length bs. cells f' (APPLICATION_FLASH_END + i) = cells f (APPLICATION_FLASH_END + i) AND bs ! i)"
proof -
  let ?b = "\<lparr>messageType = PROTOCOL_BEGIN, frameSequence = q, framePayload = headerBytes h @ storeUint32Le role\<rparr>"
  let ?d = "\<lparr>messageType = PROTOCOL_DATA, frameSequence = q + 1, framePayload = storeUint32Le 0x17000 @ bs\<rparr> :: protocol_frame"
  let ?s = "s\<lparr>packageHeader := h, requestedRole := role\<rparr>"
  from assms(5) have l: "length bs \<le> 128" by (simp add: chunkOk_def)
  note d = data_fields [OF l] and c = chunk_checks [OF assms(5)]
  have "\<not> isValidPackageHeader h"
    using header_size_bound [of h] assms(4) by (auto simp: word_le_nat_alt)
  then have b: "handleFrame drv ?b s f = (errorReply, ?s, f)"
    by (simp add: handleFrame_def handleBegin_def Let_def protocol_types)
  obtain f' where p: "FlashProgram drv bs 0x1F000 f = (0, f')"
    using reliable_flash.program_ok [OF assms(1), of bs "0x1F000" f] by (metis prod.collapse)
  have ul: "unat (of_nat (length bs) :: u32) = length bs" by (rule unat_of_nat_less) (use l in simp)
  have sum: "unat (0x17000 + of_nat (length bs) :: u32) = 0x17000 + length bs"
    using unat_word_ariths(1) [of "0x17000 :: u32" "of_nat (length bs)"] ul l by simp
  have fits: "\<not> 0x17000 + of_nat (length bs) > packageImageSize h" "(0x17000 :: u32) \<le> 0x17000 + of_nat (length bs)"
    using sum l assms(4) unfolding word_le_nat_alt not_less by simp_all
  have "handleData drv (storeUint32Le 0x17000 @ bs) ?s f =
      (respond PROTOCOL_ACK (storeUint32Le (0x17000 + of_nat (length bs))),
       ?s\<lparr>bytesWritten := 0x17000 + of_nat (length bs)\<rparr>, f')"
    unfolding handleData_def Let_def d(1-3) loadUint32Le_storeUint32Le
    using c fits p assms(3) by (simp add: APPLICATION_FLASH_START_def not_less)
  then have "handleFrame drv ?d ?s f = (respond PROTOCOL_ACK (storeUint32Le (0x17000 + of_nat (length bs))),
       ?s\<lparr>bytesWritten := 0x17000 + of_nat (length bs)\<rparr>, f')"
    using assms(2) by (simp add: handleFrame_def protocol_types)
  moreover have "\<forall>i<length bs. cells f' (APPLICATION_FLASH_END + i) = cells f (APPLICATION_FLASH_END + i) AND bs ! i"
    using nor_flash.program_done [OF reliable_flash.axioms(1) [OF assms(1)] p] by (simp add: APPLICATION_FLASH_END_def)
  ultimately show ?thesis using b
    by (simp add: Let_def errorReply_def respond_def)
qed

section \<open>What the next boot finds\<close>

lemma unat_u32_le: "unat (w :: u32) \<le> 2 ^ 32"
  using unat_u32_less [of w] by simp

definition installed :: "nat \<Rightarrow> flash \<Rightarrow> bool" where
  "installed n f \<longleftrightarrow> (\<exists>m. readBootMetadata f = Some m \<and> state m = BOOT_STATE_VALID_APPLICATION \<and>
     crcMatches f m \<and> unat (imageSize m) \<le> n)"

text \<open>The invariant from \<open>READY\<close> on: \<open>ended\<close> says that an \<open>END\<close> was received. The journal holds the update
  state, or (after an \<open>END\<close>) the record of an image that lies completely below the position, so
  that no later block can touch it.\<close>

definition recoverable :: "nat \<Rightarrow> nat \<Rightarrow> bool \<Rightarrow> session \<Rightarrow> flash \<Rightarrow> bool" where
  "recoverable K B ended s f \<longleftrightarrow> journal_ok K f \<and>
     (updateActive s \<longrightarrow> unat (bytesWritten s) \<le> B \<and>
        unat (imageSize (metadata s)) \<le> unat (bytesWritten s) \<and> (\<not> ended \<longrightarrow> imageSize (metadata s) = 0) \<and>
        (inProgress f \<or> ended \<and> installed (unat (bytesWritten s)) f))"

definition endSeen :: "protocol_frame list \<Rightarrow> bool" where
  "endSeen frs \<longleftrightarrow> PROTOCOL_END \<in> messageType ` set frs"

lemma recoverable_mono:
  "recoverable K B e s f \<Longrightarrow> K \<le> K' \<Longrightarrow> B \<le> B' \<Longrightarrow> (e \<Longrightarrow> e') \<Longrightarrow> recoverable K' B' e' s f"
  unfolding recoverable_def using journal_ok_mono by fastforce

lemma installed_cong:
  assumes "installed n f" "readBootMetadata f' = readBootMetadata f" "n \<le> n'"
    and "\<And>x. x \<in> {0x8000..<0x8000 + n} \<Longrightarrow> cells f' x = cells f x"
  shows "installed n' f'"
proof -
  from assms(1) obtain m where m: "readBootMetadata f = Some m" "state m = BOOT_STATE_VALID_APPLICATION"
    "crcMatches f m" "unat (imageSize m) \<le> n" by (auto simp: installed_def)
  have "readBytes f' APPLICATION_FLASH_START (unat (imageSize m)) =
      readBytes f APPLICATION_FLASH_START (unat (imageSize m))"
    by (rule readBytes_cong) (use assms(4) m(4) in \<open>simp add: APPLICATION_FLASH_START_def\<close>)
  with m assms(2,3) show ?thesis by (auto simp: installed_def crcMatches_def)
qed

context nor_flash
begin

text \<open>An append that fails leaves what was on record or the complete new record, and the image alone.\<close>

lemma append_failed:
  assumes "appendMetadataRecord drv m0 f = (st, m, f')" "st \<noteq> 0 \<longrightarrow> noCrcAccident f f' m"
    and "journal_ok K f" "K < 2 ^ 31 - 1"
  shows "journal_ok (Suc K) f'" "payload m = payload m0"
    "readBootMetadata f' = Some m \<or> st \<noteq> 0 \<and> readBootMetadata f' = readBootMetadata f"
    "\<And>x. x \<ge> APPLICATION_FLASH_START \<Longrightarrow> cells f' x = cells f x"
  using append_stays_or_advances [OF assms(3,4,1) append_is_genuine [OF assms(1,2)]]
    append_payload_kept [OF assms(1)] append_frame [OF assms(1)]
  by (auto simp: APPLICATION_FLASH_START_def)

text \<open>An append whose record describes what is in flash.\<close>

lemma append_installed:
  assumes a: "appendMetadataRecord drv m0 f = (st, m, f')" "st \<noteq> 0 \<longrightarrow> noCrcAccident f f' m"
    and j: "journal_ok K f" "K < 2 ^ 31 - 1"
    and m0: "state m0 = BOOT_STATE_VALID_APPLICATION" "crcMatches f m0" "unat (imageSize m0) \<le> n"
    and old: "inProgress f \<or> installed n f"
  shows "inProgress f' \<or> installed n f'" "st = 0 \<Longrightarrow> installed n f'"
proof -
  note f = append_failed [OF a j]
  have new: "installed n f'" if "readBootMetadata f' = Some m"
    using that append_crcMatches [OF a(1)] m0 payload_fields [OF f(2)] by (auto simp: installed_def)
  then show "st = 0 \<Longrightarrow> installed n f'" using f(3) by blast
  have "inProgress f' \<or> installed n f'" if "readBootMetadata f' = readBootMetadata f"
    using old installed_cong [of n f f' n] that f(4) by (auto simp: inProgress_def APPLICATION_FLASH_START_def)
  with f(3) new show "inProgress f' \<or> installed n f'" by blast
qed

lemma handleBegin_recoverable:
  assumes h: "handleBegin drv data s f = (r, s', f')" and crc: "noCrcAccident f f' (metadata s')"
    and run: "recoverable K B e s f" and K: "K < 2 ^ 31 - 1"
  shows "recoverable (Suc K) B e s' f'" "updateActive s \<or> replyType r = PROTOCOL_READY \<longrightarrow> updateActive s'"
proof -
  let ?s = "s\<lparr>packageHeader := headerOf (take 32 data), requestedRole := loadUint32Le (drop 32 data)\<rparr>"
  from run have j: "journal_ok K f" by (simp add: recoverable_def)
  have "recoverable (Suc K) B e s' f' \<and> (updateActive s \<or> replyType r = PROTOCOL_READY \<longrightarrow> updateActive s')"
  proof (cases "r = errorReply \<and> s' = ?s \<and> f' = f")
    case True
    with run recoverable_mono [of K B e ?s f "Suc K" B e] show ?thesis
      by (simp add: recoverable_def errorReply_def respond_def protocol_types)
  next
    case False
    obtain st m f1 where a: "appendMetadataRecord drv setDefaultMetadata f = (st, m, f1)" by (metis prod_cases3)
    show ?thesis
    proof (cases "st = 0")
      case False
      with h \<open>\<not> (r = errorReply \<and> _)\<close> a have r: "r = errorReply" "s' = ?s\<lparr>metadata := m\<rparr>" "f' = f1"
        by (auto simp: handleBegin_def Let_def split: if_splits)
      note f = append_failed [OF a _ j K]
      have c: "st \<noteq> 0 \<longrightarrow> noCrcAccident f f1 m" using crc r by simp
      note p = payload_fields [OF f(2) [OF c]]
      have "inProgress f1 \<or> e \<and> installed n f1" if "inProgress f \<or> e \<and> installed n f" for n
        using that f(3) [OF c] p f(4) [OF c] installed_cong [of n f f1 n]
        by (auto simp: inProgress_def setDefaultMetadata_def APPLICATION_FLASH_START_def)
      with run r f(1) [OF c] p show ?thesis
        by (auto simp: recoverable_def setDefaultMetadata_def errorReply_def respond_def protocol_types)
    next
      case True
      obtain st2 f2 where er: "eraseApplicationFlash drv f1 = (st2, f2)" by fastforce
      note u = journal_register.update_read [of "\<lambda>_. setDefaultMetadata", OF a [unfolded True] j K]
      have jc: "journal_ok (Suc K) f2 \<and> readBootMetadata f2 = readBootMetadata f1"
        by (rule journal_cong) (use u(3) K eraseApplication_frame [OF er] in \<open>auto simp: application_consts\<close>)
      then have ip: "inProgress f2" using u(1) payload_fields [OF u(2)] by (simp add: inProgress_def setDefaultMetadata_def)
      from h \<open>\<not> (r = errorReply \<and> _)\<close> a True er
      have "f' = f2" "r = errorReply \<and> s' = ?s\<lparr>metadata := m\<rparr> \<or>
          s' = ?s\<lparr>metadata := m, bytesWritten := 0, updateActive := True\<rparr>"
        by (auto simp: handleBegin_def Let_def split: if_splits)
      with run jc ip payload_fields [OF u(2)] show ?thesis
        by (auto simp: recoverable_def setDefaultMetadata_def errorReply_def respond_def protocol_types)
    qed
  qed
  then show "recoverable (Suc K) B e s' f'" "updateActive s \<or> replyType r = PROTOCOL_READY \<longrightarrow> updateActive s'"
    by blast+
qed

lemma handleData_recoverable:
  assumes h: "handleData drv data s f = (r, s', f')" and run: "recoverable K B e s f" "updateActive s"
    and K: "K < 2 ^ 31" "B + 0x8080 < 2 ^ 32"
  shows "recoverable K (B + 128) e s' f'" "updateActive s'"
proof -
  from run have b: "unat (bytesWritten s) \<le> B" by (simp add: recoverable_def)
  with K(2) have "unat (bytesWritten s) + 0x8080 < 2 ^ 32" by simp
  note d = handleData_effect [OF h this]
  note keep = d(2) [OF nor_flash_axioms]
  show "updateActive s'" using d(1) run(2) by simp
  have j: "journal_ok K f' \<and> readBootMetadata f' = readBootMetadata f"
    by (rule journal_cong) (use run(1) K(1) keep in \<open>auto simp: recoverable_def application_consts\<close>)
  have "installed (unat (bytesWritten s')) f'" if "installed (unat (bytesWritten s)) f"
    by (rule installed_cong [OF that]) (use j d(1) keep in auto)
  with j d(1) run b show "recoverable K (B + 128) e s' f'"
    by (auto simp: recoverable_def inProgress_def)
qed

lemma handleEnd_recoverable:
  assumes h: "handleEnd drv s f = (r, s', f')" and crc: "systemReset r \<or> noCrcAccident f f' (metadata s')"
    and run: "recoverable K B e s f" "updateActive s" and K: "K < 2 ^ 31 - 1"
    and full: "bytesWritten s = packageImageSize (packageHeader s)"
      "crcMatches f ((metadata s)\<lparr>imageSize := packageImageSize (packageHeader s),
         imageCrc32 := packageImageCrc32 (packageHeader s)\<rparr>)"
  shows "recoverable (Suc K) B True s' f'" "updateActive s'" "systemReset r \<Longrightarrow> installed (2 ^ 32) f'"
proof -
  let ?h = "packageHeader s"
  let ?m = "(metadata s)\<lparr>state := BOOT_STATE_VALID_APPLICATION, imageSize := packageImageSize ?h,
      imageCrc32 := packageImageCrc32 ?h, firmwareVersion := packageFirmwareVersion ?h, appRole := requestedRole s,
      unconfirmedBootCount := 0, bootAttemptId := 0, confirmedBootAttemptId := 0\<rparr>"
  let ?n = "unat (bytesWritten s)"
  obtain st m f1 where a: "appendMetadataRecord drv ?m f = (st, m, f1)" by (metis prod_cases3)
  with h have r: "s' = s\<lparr>metadata := m\<rparr>" "f' = f1" "systemReset r = (st = 0)"
    by (auto simp: handleEnd_def Let_def completeReply_def split: if_splits)
  have c: "st \<noteq> 0 \<longrightarrow> noCrcAccident f f1 m" using crc r by auto
  from run have j: "journal_ok K f" "inProgress f \<or> installed ?n f" "?n \<le> B" by (auto simp: recoverable_def)
  have m0: "state ?m = BOOT_STATE_VALID_APPLICATION" "crcMatches f ?m" "unat (imageSize ?m) \<le> ?n"
    using full by (simp_all add: crcMatches_def)
  note i = append_installed [OF a c j(1) K m0 j(2)] and p = payload_fields [OF append_payload_kept [OF a]]
  show "recoverable (Suc K) B True s' f'" "updateActive s'"
    using r i(1) append_failed(1) [OF a c j(1) K] j(3) p full(1) run(2) by (simp_all add: recoverable_def)
  have "?n \<le> 2 ^ 32" by (rule unat_u32_le)
  then show "installed (2 ^ 32) f'" if "systemReset r"
    using i(2) that r installed_cong [of ?n f1 f1 "2 ^ 32"] by simp
qed

lemma handleSetRole_recoverable:
  assumes h: "handleSetRole drv data s f = (r, s', f')" and crc: "systemReset r \<or> noCrcAccident f f' (metadata s')"
    and run: "recoverable K B e s f" and K: "K < 2 ^ 31 - 1" and v: "isApplicationImageValid f (metadata s)"
  shows "recoverable (Suc K) B e s' f'" "updateActive s' = updateActive s"
    "systemReset r \<and> updateActive s \<Longrightarrow> e \<and> installed (2 ^ 32) f'"
proof -
  let ?m = "(metadata s)\<lparr>state := BOOT_STATE_VALID_APPLICATION, appRole := loadUint32Le data\<rparr>"
  let ?n = "unat (bytesWritten s)"
  obtain st m f1 where a: "appendMetadataRecord drv ?m f = (st, m, f1)" by (metis prod_cases3)
  with h have r: "s' = s\<lparr>metadata := m\<rparr>" "f' = f1" "systemReset r = (st = 0)"
    by (auto simp: handleSetRole_def Let_def completeReply_def split: if_splits)
  have c: "st \<noteq> 0 \<longrightarrow> noCrcAccident f f1 m" using crc r by auto
  from run have j: "journal_ok K f" by (simp add: recoverable_def)
  have m0: "state ?m = BOOT_STATE_VALID_APPLICATION" "crcMatches f ?m" "imageSize (metadata s) \<noteq> 0"
    using v by (simp_all add: crcMatches_def isApplicationImageValid_def Let_def)
  note p = payload_fields [OF append_payload_kept [OF a]]
  have i: "inProgress f1 \<or> installed ?n f1" "st = 0 \<Longrightarrow> installed ?n f1" "e" "?n \<le> B"
      "unat (imageSize (metadata s)) \<le> ?n" if "updateActive s"
  proof -
    from run that m0(3) show e: "e" "?n \<le> B" "unat (imageSize (metadata s)) \<le> ?n"
      by (auto simp: recoverable_def)
    from run that have old: "inProgress f \<or> installed ?n f" by (auto simp: recoverable_def)
    from e(3) have size: "unat (imageSize ?m) \<le> ?n" by simp
    note i = append_installed [OF a c j K m0(1,2) size old]
    show "inProgress f1 \<or> installed ?n f1" "st = 0 \<Longrightarrow> installed ?n f1" using i by blast+
  qed
  show "updateActive s' = updateActive s" using r by simp
  show "recoverable (Suc K) B e s' f'"
    using r i append_failed(1) [OF a c j K] p by (auto simp: recoverable_def)
  have "?n \<le> 2 ^ 32" by (rule unat_u32_le)
  then show "e \<and> installed (2 ^ 32) f'" if "systemReset r \<and> updateActive s"
    using i that r installed_cong [of ?n f1 f1 "2 ^ 32"] by simp
qed

text \<open>One frame, whatever it is.\<close>

lemma handleFrame_recoverable:
  assumes h: "handleFrame drv fr s f = (r, s', f')" and crc: "systemReset r \<or> noCrcAccident f f' (metadata s')"
    and run: "recoverable K B e s f" and K: "K < 2 ^ 31 - 1" "B + 0x8080 < 2 ^ 32"
  shows "recoverable (Suc K) (B + 128) (e \<or> messageType fr = PROTOCOL_END) s' f'"
    "updateActive s \<or> replyType r = PROTOCOL_READY \<Longrightarrow> updateActive s'"
    "systemReset r \<Longrightarrow> updateActive s \<Longrightarrow> (e \<or> messageType fr = PROTOCOL_END) \<and> installed (2 ^ 32) f'"
proof -
  let ?e = "e \<or> messageType fr = PROTOCOL_END"
  have complete: "\<not> systemReset r \<Longrightarrow> replyType r \<noteq> PROTOCOL_COMPLETE"
    using handleFrame_complete [OF h] by blast
  from h have "recoverable (Suc K) (B + 128) ?e s' f' \<and> (updateActive s \<or> replyType r = PROTOCOL_READY \<longrightarrow> updateActive s') \<and>
    (systemReset r \<and> updateActive s \<longrightarrow> ?e \<and> installed (2 ^ 32) f')"
  proof (cases rule: handleFrame_cases)
    case 1
    with run recoverable_mono [OF run, of "Suc K" "B + 128" ?e] show ?thesis
      by (auto simp: errorReply_def handleHello_def respond_def protocol_types)
  next
    case 2
    have nr: "\<not> systemReset r" using handleBegin_no_reset [OF 2(3)] by blast
    with crc have c: "noCrcAccident f f' (metadata s')" by blast
    from handleBegin_recoverable [OF 2(3) c run K(1)] nr
      recoverable_mono [of "Suc K" B e s' f' "Suc K" "B + 128" ?e] show ?thesis by auto
  next
    case 3
    have nr: "\<not> systemReset r" using handleData_no_reset [OF 3(3)] by blast
    have "K < 2 ^ 31" using K(1) by simp
    from handleData_recoverable [OF 3(3) run 3(2) this K(2)] nr
      recoverable_mono [of K "B + 128" e s' f' "Suc K" "B + 128" ?e] show ?thesis by auto
  next
    case 4
    from handleEnd_recoverable [OF 4(5) crc run 4(2) K(1) 4(3,4)] 4(1)
      recoverable_mono [of "Suc K" B True s' f' "Suc K" "B + 128" ?e] show ?thesis by auto
  next
    case 5
    have "replyType r \<noteq> PROTOCOL_READY"
      using 5(3) by (auto simp: handleSetRole_def Let_def errorReply_def completeReply_def respond_def
          protocol_types split: prod.splits if_splits)
    with handleSetRole_recoverable [OF 5(3) crc run K(1) 5(2)]
      recoverable_mono [of "Suc K" B e s' f' "Suc K" "B + 128" ?e] show ?thesis by auto
  qed
  then show "recoverable (Suc K) (B + 128) ?e s' f'"
    "updateActive s \<or> replyType r = PROTOCOL_READY \<Longrightarrow> updateActive s'"
    "systemReset r \<Longrightarrow> updateActive s \<Longrightarrow> ?e \<and> installed (2 ^ 32) f'" by blast+
qed

lemma handleFrames_recoverable:
  assumes "handleFrames drv s f frs = (outs, res)" "noCrcAccidents drv s f frs" "recoverable K B e s f"
    and "K + length frs < 2 ^ 31" "B + 128 * length frs + 0x8080 < 2 ^ 32"
    and "updateActive s \<or> PROTOCOL_READY \<in> messageType ` set outs"
  shows "inProgress (flashOf res) \<or> (e \<or> endSeen frs) \<and> installed (2 ^ 32) (flashOf res)"
  using assms
proof (induction frs arbitrary: s f outs K B e)
  case Nil
  have "unat (bytesWritten s) \<le> 2 ^ 32" by (rule unat_u32_le)
  with Nil installed_cong [of "unat (bytesWritten s)" f f "2 ^ 32"] show ?case
    by (auto simp: recoverable_def flashOf_def)
next
  case (Cons fr frs)
  obtain r s1 f1 where h: "handleFrame drv fr s f = (r, s1, f1)" by (metis prod_cases3)
  with Cons.prems(2) have c: "systemReset r \<or> noCrcAccident f f1 (metadata s1)" by auto
  have K: "K < 2 ^ 31 - 1" "B + 0x8080 < 2 ^ 32" using Cons.prems(4,5) by simp_all
  note one = handleFrame_recoverable [OF h c Cons.prems(3) K]
  let ?e = "e \<or> messageType fr = PROTOCOL_END"
  have e: "(e \<or> endSeen (fr # frs)) = (?e \<or> endSeen frs)" by (auto simp: endSeen_def)
  show ?case
  proof (cases "systemReset r")
    case True
    with h Cons.prems(1) have o: "res = Inr f1" "map messageType outs = [replyType r]" by (auto simp: Let_def)
    have "replyType r \<noteq> PROTOCOL_READY" if "systemReset r"
      using that handleFrame_reset [OF h that]
      by (auto simp: handleEnd_def handleSetRole_def Let_def errorReply_def completeReply_def respond_def
          protocol_types split: prod.splits if_splits)
    then have "updateActive s" using o True Cons.prems(6) by (cases outs) auto
    with one(3) True o(1) e show ?thesis by (simp add: flashOf_def)
  next
    case False
    with h Cons.prems(1) obtain outs' where o: "handleFrames drv s1 f1 frs = (outs', res)"
      "outs = \<lparr>messageType = replyType r, frameSequence = frameSequence fr, framePayload = replyPayload r\<rparr> # outs'"
      by (auto simp: Let_def split: prod.splits)
    have a: "updateActive s1 \<or> PROTOCOL_READY \<in> messageType ` set outs'"
      using Cons.prems(6) one(2) o(2) by auto
    have n: "noCrcAccidents drv s1 f1 frs" using Cons.prems(2) h False by simp
    have B: "Suc K + length frs < 2 ^ 31" "B + 128 + 128 * length frs + 0x8080 < 2 ^ 32" using Cons.prems(4,5) by simp_all
    from Cons.IH [OF o(1) n one(1) B a] e show ?thesis by simp
  qed
qed

end

section \<open>A download that is interrupted\<close>

lemma noCrcAccident_cong:
  assumes "\<And>x. x \<in> {METADATA_PAGE_PRIMARY..<APPLICATION_FLASH_START} \<Longrightarrow> cells f2 x = cells f1 x"
    and "noCrcAccident f f1 m"
  shows "noCrcAccident f f2 m"
proof -
  have b: "readBytes f2 (slot p i) 44 = readBytes f1 (slot p i) 44 \<and> readBytes f2 (slot p i) 48 = readBytes f1 (slot p i) 48 \<and>
      matchesOwnCrc f2 (slot p i) = matchesOwnCrc f1 (slot p i)"
    if "p \<in> journalPages" "i < 85" for p i
  proof -
    have c: "cells f2 (slot p i + k) = cells f1 (slot p i + k)" if "k < 48" for k
      by (rule assms(1)) (use slot_in_page [OF \<open>i < 85\<close> that, of p] \<open>p \<in> journalPages\<close> in
          \<open>auto simp: journalPages_def metadata_consts application_consts\<close>)
    then have "readBytes f2 (slot p i) 44 = readBytes f1 (slot p i) 44" "readBytes f2 (slot p i) 48 = readBytes f1 (slot p i) 48"
      "readBytes f2 (slot p i + 44) 4 = readBytes f1 (slot p i + 44) 4"
      using c [of "44 + _"] by (auto intro!: readBytes_cong simp: add.assoc)
    then show ?thesis by (simp add: matchesOwnCrc_def readUint32_def)
  qed
  show ?thesis
  proof (cases "findWritableRecord f [METADATA_PAGE_PRIMARY, METADATA_PAGE_SECONDARY]")
    case None
    with assms(2) b [OF rotatedPage_in] show ?thesis unfolding noCrcAccident_def None Let_def by fastforce
  next
    case (Some a)
    then obtain p i where "p \<in> journalPages" "i < 85" "a = slot p i" by (rule findWritableRecord_SomeD) blast
    with assms(2) b [of p i] show ?thesis unfolding noCrcAccident_def Some by simp
  qed
qed

lemma erasePages_countdown:
  "length pages \<le> controller f \<Longrightarrow>
   \<exists>f'. erasePages countdown_driver pages f = (0, f') \<and> controller f' = controller f - length pages"
proof (induction pages arbitrary: f)
  case (Cons a pages)
  let ?f1 = "f\<lparr>cells := eraseCells a FLASH_PAGE_SIZE (cells f), controller := controller f - 1\<rparr>"
  have "FlashSectorErase countdown_driver a f = (0, ?f1)"
    using Cons.prems by (simp add: countdown_driver_def)
  with Cons.IH [of ?f1] Cons.prems show ?case by auto
qed simp

text \<open>The two writes of the update record and the 23 erases succeed, and the first block is torn.\<close>

lemma demoBegin_countdown:
  obtains s f where "handleFrame countdown_driver demoBegin idleSession (blankFlash 25) =
      (respond PROTOCOL_READY (storeUint32Le 0), s, f)" "controller f = 0"
    "noCrcAccident (blankFlash 25) f (metadata s)"
    "packageHeader s = demoHeader" "bytesWritten s = 0" "updateActive s" "cells f 0x8000 = 0xFF" "cells f 0x8003 = 0xFF"
proof -
  let ?m = "stampRecord (blankFlash 25) setDefaultMetadata"
  let ?a = METADATA_PAGE_PRIMARY
  obtain st m f1 where a: "appendMetadataRecord countdown_driver setDefaultMetadata (blankFlash 25) = (st, m, f1)"
    by (metis prod_cases3)
  have w: "writeRecord countdown_driver ?m ?a (blankFlash 25) = (st, m, f1)"
    using a by (simp add: appendMetadataRecord_def Let_def)
  then have f1: "st = 0" "m = ?m" "controller f1 = 23"
    by (auto simp: writeRecord_def countdown_driver_def blankFlash_def)
  have acc: "noCrcAccident (blankFlash 25) f1 m"
    by (rule countdown.noCrcAccident_done [OF a [unfolded f1(1)]])
  obtain f2 where er: "eraseApplicationFlash countdown_driver f1 = (0, f2)" "controller f2 = 0"
    using erasePages_countdown [of applicationPages f1] f1(3)
    by (auto simp: eraseApplicationFlash_def applicationPages_def application_consts FLASH_PAGE_SIZE_def)
  let ?s = "idleSession\<lparr>packageHeader := demoHeader, requestedRole := APP_ROLE_TX, metadata := m,
      bytesWritten := 0, updateActive := True\<rparr>"
  have h: "handleFrame countdown_driver demoBegin idleSession (blankFlash 25) =
      (respond PROTOCOL_READY (storeUint32Le 0), ?s, f2)"
    using a f1(1) er(1) demoHeader_valid role_valid
    by (simp add: handleFrame_def handleBegin_def demoBegin_def protocol_types Let_def)
  have "noCrcAccident (blankFlash 25) f2 m"
    by (rule noCrcAccident_cong [OF _ acc])
      (use countdown.eraseApplication_frame [OF er(1)] in \<open>auto simp: application_consts\<close>)
  then show thesis
    using that [OF h] er(2) countdown.eraseApplication_done [OF er(1)] by (simp add: application_consts)
qed

definition demoData :: protocol_frame where
  "demoData = \<lparr>messageType = PROTOCOL_DATA, frameSequence = 1, framePayload = storeUint32Le 0 @ take 4 demoImage\<rparr>"

lemma demoData_torn:
  assumes "controller f = 0" "packageHeader s = demoHeader" "bytesWritten s = 0" "updateActive s"
    and "cells f 0x8000 = 0xFF" "cells f 0x8003 = 0xFF"
  shows "handleFrame countdown_driver demoData s f = (respond PROTOCOL_ACK (storeUint32Le 0), s,
      f\<lparr>cells := programCells [0, 0x10] 0x8000 (cells f)\<rparr>)"
proof -
  have "take 4 demoImage = [0, 0x10, 0, 0x20]"
    by (simp add: demoImage_def storeUint32Le_def)
  with assms show ?thesis
    by (simp add: handleFrame_def demoData_def protocol_types handleData_def Let_def countdown_driver_def
        APPLICATION_FLASH_START_def demoHeader_fields)
qed

section \<open>Properties\<close>

text \<open>C14. An update that is interrupted at any point is recoverable. Take any driver within its contract
  (every flash call may fail or tear, which is also what a loss of power during the call leaves)
  and any input, refused \<open>BEGIN\<close> frames included, and lose the power when the input ends: once
  \<open>READY\<close> has been sent, the next boot stays in the updater with the update state on record. The
  only exception is a session in which an \<open>END\<close> has been received: then the boot may instead find
  the complete record which the code appends before it sends \<open>COMPLETE\<close> (also when that append
  failed or was cut off, or the power failed before the reply), and this record is that of an
  application whose CRC matches the flash. The premises: an append that fails leaves no bytes that
  carry their own CRC by accident (as in C1), and there are at most \<open>2 ^ 24\<close> frames, far beyond
  the life of the flash, so that the position cannot wrap.\<close>

theorem interrupted_update_is_recoverable:
  assumes "nor_flash drv" "journal_ok K f" "\<not> updateActive s"
    and "noCrcAccidents drv s f (receivedFrames input)"
    and "K + length (receivedFrames input) < 2 ^ 31" "length (receivedFrames input) \<le> 2 ^ 24"
    and "runFirmwareUpdate drv s f input = (outs, res)"
    and "\<exists>out\<in>set outs. messageType out = PROTOCOL_READY"
  shows "(\<exists>m. mainThread drv' True (flashOf res) = (RunFirmwareUpdate m, flashOf res) \<and>
       state m = BOOT_STATE_UPDATE_IN_PROGRESS) \<or>
    (\<exists>fr\<in>set (receivedFrames input). messageType fr = PROTOCOL_END) \<and>
    (\<exists>m. readBootMetadata (flashOf res) = Some m \<and> state m = BOOT_STATE_VALID_APPLICATION \<and>
       crcMatches (flashOf res) m)"
proof -
  have run: "recoverable K 0 False s f" using assms(2,3) by (simp add: recoverable_def)
  from assms(8) have "PROTOCOL_READY \<in> messageType ` set outs" by (metis imageI)
  with nor_flash.handleFrames_recoverable [OF assms(1) assms(7) [unfolded run_handleFrames] assms(4) run assms(5)]
    assms(6) have "inProgress (flashOf res) \<or> endSeen (receivedFrames input) \<and> installed (2 ^ 32) (flashOf res)" by simp
  then show ?thesis
  proof
    assume "inProgress (flashOf res)"
    then show ?thesis
      by (auto simp: inProgress_def mainThread_def bootMetadata_def mustUpdate_def boot_state_defs)
  next
    assume e: "endSeen (receivedFrames input) \<and> installed (2 ^ 32) (flashOf res)"
    then have "\<exists>fr\<in>set (receivedFrames input). messageType fr = PROTOCOL_END"
      unfolding endSeen_def by (metis image_iff)
    with e show ?thesis unfolding installed_def by blast
  qed
qed

text \<open>The power fails while the first block of the image is written: half of it is in flash.\<close>

theorem interrupted_update_is_recoverable_witness:
  "\<exists>s f m. runFirmwareUpdate countdown_driver idleSession (blankFlash 25) (wireBytes demoBegin @ wireBytes demoData) =
     ([\<lparr>messageType = PROTOCOL_READY, frameSequence = 0, framePayload = storeUint32Le 0\<rparr>,
       \<lparr>messageType = PROTOCOL_ACK, frameSequence = 1, framePayload = storeUint32Le 0\<rparr>], Inl (s, f)) \<and>
     cells f 0x8000 = 0 \<and> cells f 0x8003 = 0xFF \<and>
     mainThread ideal_driver True f = (RunFirmwareUpdate m, f) \<and> state m = BOOT_STATE_UPDATE_IN_PROGRESS"
proof -
  let ?in = "wireBytes demoBegin @ wireBytes demoData"
  obtain s f where b: "handleFrame countdown_driver demoBegin idleSession (blankFlash 25) =
      (respond PROTOCOL_READY (storeUint32Le 0), s, f)" "controller f = 0"
    "noCrcAccident (blankFlash 25) f (metadata s)" "packageHeader s = demoHeader" "bytesWritten s = 0"
    "updateActive s" "cells f 0x8000 = 0xFF" "cells f 0x8003 = 0xFF" by (rule demoBegin_countdown)
  let ?f = "f\<lparr>cells := programCells [0, 0x10] 0x8000 (cells f)\<rparr>"
  note d = demoData_torn [OF b(2,4-8)]
  have frs: "receivedFrames ?in = [demoBegin, demoData]"
    using receivedFrames_wire [of "[demoBegin, demoData]"] by (simp add: demoBegin_def demoData_def)
  have r: "runFirmwareUpdate countdown_driver idleSession (blankFlash 25) ?in =
     ([\<lparr>messageType = PROTOCOL_READY, frameSequence = 0, framePayload = storeUint32Le 0\<rparr>,
       \<lparr>messageType = PROTOCOL_ACK, frameSequence = 1, framePayload = storeUint32Le 0\<rparr>], Inl (s, ?f))"
    using b(1) d by (simp add: run_handleFrames frs Let_def respond_def) (simp add: demoBegin_def demoData_def)
  have "noCrcAccident f ?f (metadata s)"
    by (rule noCrcAccident_same) (simp add: programCells_def application_consts)
  then have n: "noCrcAccidents countdown_driver idleSession (blankFlash 25) (receivedFrames ?in)"
    using b(1,3) d by (simp add: frs)
  have "\<not> updateActive idleSession" by (simp add: idleSession_def)
  moreover have "messageType demoBegin \<noteq> PROTOCOL_END" "messageType demoData \<noteq> PROTOCOL_END"
    by (simp_all add: demoBegin_def demoData_def protocol_types)
  ultimately have "\<exists>m. mainThread ideal_driver True ?f = (RunFirmwareUpdate m, ?f) \<and> state m = BOOT_STATE_UPDATE_IN_PROGRESS"
    using interrupted_update_is_recoverable [OF countdown.nor_flash_axioms blank_ok [of 0] _ n _ _ r, of ideal_driver]
    unfolding frs by (simp add: flashOf_def)
  with r b(7,8) show ?thesis by (auto simp: programCells_def)
qed

text \<open>C15. A session cannot damage the bootloader: whatever bytes it receives, refused \<open>BEGIN\<close> frames included,
  and with a driver that may fail at any point, no cell of the bootloader's code changes (for at
  most \<open>2 ^ 24\<close> frames, so that the position cannot wrap). The page of the chip configuration
  behind the application area does not change either, but only if no \<open>BEGIN\<close> is refused: after a
  refused one the size in its header, which was never validated, bounds the \<open>DATA\<close> frames
  (\<open>refused_begin_reaches_configuration\<close> shows a block programmed at \<open>0x1F000\<close>).\<close>

theorem session_confined:
  assumes "nor_flash drv" "sessionOk s" "length (receivedFrames input) \<le> 2 ^ 24"
    and "runFirmwareUpdate drv s f input = (outs, res)"
  shows "(x < METADATA_PAGE_PRIMARY \<longrightarrow> cells (flashOf res) x = cells f x) \<and>
    (list_all acceptable (receivedFrames input) \<and> x \<ge> APPLICATION_FLASH_END \<longrightarrow>
       cells (flashOf res) x = cells f x)"
proof -
  note run = assms(4) [unfolded run_handleFrames]
  have b: "updateActive s \<longrightarrow> unat (bytesWritten s) \<le> 0x17000"
    using assms(2) by (simp add: sessionOk_def word_le_nat_alt)
  from handleFrames_code [OF assms(1) run _ b] assms(3)
  have "x < METADATA_PAGE_PRIMARY \<longrightarrow> cells (flashOf res) x = cells f x" by simp
  moreover from handleFrames_configuration [OF assms(1) run assms(2)]
  have "list_all acceptable (receivedFrames input) \<and> x \<ge> APPLICATION_FLASH_END \<longrightarrow>
       cells (flashOf res) x = cells f x" by (simp add: protectedCells_def)
  ultimately show ?thesis ..
qed

theorem session_confined_witness:
  "\<exists>s f. runFirmwareUpdate ideal_driver idleSession (blankFlash 0) (wireBytes demoBegin) =
     ([\<lparr>messageType = PROTOCOL_READY, frameSequence = 0, framePayload = storeUint32Le 0\<rparr>], Inl (s, f)) \<and>
     cells f 0x1FFA8 = 0xFF \<and> cells f 0 = 0xFF"
proof -
  obtain s f where r: "runFirmwareUpdate ideal_driver idleSession (blankFlash 0) (wireBytes demoBegin) =
    ([\<lparr>messageType = PROTOCOL_READY, frameSequence = 0, framePayload = storeUint32Le 0\<rparr>], Inl (s, f))"
    by (rule demoBegin_run)
  have fs: "receivedFrames (wireBytes demoBegin) = [demoBegin]"
    using receivedFrames_wire [of "[demoBegin]"] by (simp add: demoBegin_def)
  have "cells f x = cells (blankFlash 0) x" if "x = 0 \<or> x = 0x1FFA8" for x
    using session_confined [OF ideal.nor_flash_axioms _ _ r, of x] fs demoBegin_acceptable that
    by (auto simp: idleSession_def sessionOk_def flashOf_def METADATA_PAGE_PRIMARY_def application_consts)
  with r show ?thesis by (auto simp: blankFlash_def)
qed

end
