(* ===== verification/C_Strings.thy ===== *)
theory C_Strings
  imports Prelude
begin

text \<open>
  The string functions of the C library that the command line uses (\<open>strspn.c\<close>, \<open>strcspn.c\<close>,
  \<open>strtok.c\<close>, \<open>snprintf.c\<close> of the compiler's run-time library): strings are NUL-terminated
  segments of a character array, a pointer into an array is an index, and reading outside the
  array is \<open>None\<close>. Formatted output is modelled as the sequence of strings that the format
  engine hands to \<open>snprintf\<close>'s output functions.
\<close>

section \<open>NUL-terminated strings\<close>

definition NUL :: char where "NUL = CHR 0x00"

definition cString :: "char list \<Rightarrow> nat \<Rightarrow> string" where
  "cString buf p = takeWhile (\<lambda>c. c \<noteq> NUL) (drop p buf)"

primrec strspn :: "char list \<Rightarrow> string \<Rightarrow> nat" where
  "strspn [] chs = 0"
| "strspn (ch # s) chs = (if ch = NUL \<or> ch \<notin> set chs then 0 else Suc (strspn s chs))"

primrec strcspn :: "char list \<Rightarrow> string \<Rightarrow> nat" where
  "strcspn [] chs = 0"
| "strcspn (ch # s) chs = (if ch = NUL \<or> ch \<in> set chs then 0 else Suc (strcspn s chs))"

text \<open>The token's start, the array, and \<open>last_end\<close>.\<close>

definition strtok :: "char list \<Rightarrow> nat \<Rightarrow> string \<Rightarrow> (nat option \<times> char list \<times> nat) option" where
  "strtok buf last_end str2 =
     (let last_end = last_end + strspn (drop last_end buf) str2 in
      case fetch buf last_end of None \<Rightarrow> None
      | Some c \<Rightarrow>
         if c = NUL then Some (None, buf, last_end)
         else
           (let start = last_end; last_end = start + strcspn (drop start buf) str2 in
            case fetch buf last_end of None \<Rightarrow> None
            | Some c \<Rightarrow>
               if c \<noteq> NUL then Some (Some start, buf[last_end := NUL], Suc last_end)
               else Some (Some start, buf, last_end)))"

section \<open>Tokens of a string\<close>

function tokens :: "string \<Rightarrow> string \<Rightarrow> string list" where
  "tokens d s =
     (case dropWhile (\<lambda>c. c \<in> set d) s of
        [] \<Rightarrow> []
      | c # cs \<Rightarrow> takeWhile (\<lambda>c. c \<notin> set d) (c # cs) # tokens d (dropWhile (\<lambda>c. c \<notin> set d) (c # cs)))"
  by pat_completeness auto
termination
proof (relation "measure (\<lambda>(d, s). length s)")
  fix d s c cs
  assume e: "dropWhile (\<lambda>c. c \<in> set d) s = c # cs"
  then have "c \<notin> set d" using hd_dropWhile [of "\<lambda>c. c \<in> set d" s] by simp
  then have "length (dropWhile (\<lambda>c. c \<notin> set d) (c # cs)) \<le> length cs"
    by (simp add: length_dropWhile_le)
  also have "length cs < length s" using e length_dropWhile_le [of "\<lambda>c. c \<in> set d" s] by simp
  finally show "((d, dropWhile (\<lambda>c. c \<notin> set d) (c # cs)), d, s) \<in> measure (\<lambda>(d, s). length s)" by simp
qed simp

declare tokens.simps [simp del]

lemma strspn_takeWhile: "strspn s d = length (takeWhile (\<lambda>c. c \<noteq> NUL \<and> c \<in> set d) s)"
  by (induction s) auto

lemma strcspn_takeWhile: "strcspn s d = length (takeWhile (\<lambda>c. c \<noteq> NUL \<and> c \<notin> set d) s)"
  by (induction s) auto

lemma tokens_none: "dropWhile (\<lambda>c. c \<in> set d) s = [] \<Longrightarrow> tokens d s = []"
  by (subst tokens.simps) (simp only: list.case)

lemma tokens_some:
  assumes "dropWhile (\<lambda>c. c \<in> set d) s = c # cs"
  shows "c \<notin> set d"
    "tokens d s = (c # takeWhile (\<lambda>c. c \<notin> set d) cs) # tokens d (dropWhile (\<lambda>c. c \<notin> set d) cs)"
proof -
  show c: "c \<notin> set d" using assms hd_dropWhile [of "\<lambda>c. c \<in> set d" s] by simp
  then show "tokens d s = (c # takeWhile (\<lambda>c. c \<notin> set d) cs) # tokens d (dropWhile (\<lambda>c. c \<notin> set d) cs)"
    using assms by (subst tokens.simps) simp
qed

lemma tokens_nonempty: "t \<in> set (tokens d s) \<Longrightarrow> t \<noteq> [] \<and> (\<forall>c\<in>set t. c \<notin> set d)"
proof (induction d s rule: tokens.induct)
  case (1 d s)
  show ?case
  proof (cases "dropWhile (\<lambda>c. c \<in> set d) s")
    case Nil
    then show ?thesis using "1.prems" tokens_none [OF Nil] by simp
  next
    case (Cons c cs)
    note tk = tokens_some [OF Cons]
    have skip: "dropWhile (\<lambda>c. c \<notin> set d) (c # cs) = dropWhile (\<lambda>c. c \<notin> set d) cs"
      using tk(1) by simp
    note ih = "1.IH" [OF Cons, unfolded skip]
    from "1.prems" consider "t = c # takeWhile (\<lambda>c. c \<notin> set d) cs"
      | "t \<in> set (tokens d (dropWhile (\<lambda>c. c \<notin> set d) cs))" unfolding tk(2) by auto
    then show ?thesis
    proof cases
      case 1
      then show ?thesis using tk(1) set_takeWhileD [of _ "\<lambda>c. c \<notin> set d" cs] by auto
    next
      case 2
      then show ?thesis by (rule ih)
    qed
  qed
qed

lemma concat_tokens: "concat (tokens d s) = filter (\<lambda>c. c \<notin> set d) s"
proof (induction d s rule: tokens.induct)
  case (1 d s)
  have s: "filter (\<lambda>c. c \<notin> set d) xs = filter (\<lambda>c. c \<notin> set d) (dropWhile (\<lambda>c. c \<in> set d) xs)" for xs
    by (induction xs) auto
  have split: "takeWhile (\<lambda>c. c \<notin> set d) xs @ filter (\<lambda>c. c \<notin> set d) (dropWhile (\<lambda>c. c \<notin> set d) xs) =
        filter (\<lambda>c. c \<notin> set d) xs" for xs
    by (induction xs) auto
  show ?case
  proof (cases "dropWhile (\<lambda>c. c \<in> set d) s")
    case Nil
    then show ?thesis using s [of s] tokens_none [OF Nil] by simp
  next
    case (Cons c cs)
    have "concat (tokens d (dropWhile (\<lambda>c. c \<notin> set d) cs)) =
        filter (\<lambda>c. c \<notin> set d) (dropWhile (\<lambda>c. c \<notin> set d) cs)"
    proof -
      have "dropWhile (\<lambda>c. c \<notin> set d) (c # cs) = dropWhile (\<lambda>c. c \<notin> set d) cs"
        using tokens_some(1) [OF Cons] by simp
      then show ?thesis using "1.IH" [OF Cons] by (simp only:)
    qed
    with s [of s] split [of cs] tokens_some(1) [OF Cons] show ?thesis
      unfolding tokens_some(2) [OF Cons] Cons by simp
  qed
qed

section \<open>The tokenizer computes the tokens\<close>

text \<open>The array from \<open>p\<close> on is the string \<open>s\<close> and its terminator.\<close>

definition stringAt :: "char list \<Rightarrow> nat \<Rightarrow> string \<Rightarrow> bool" where
  "stringAt buf p s \<longleftrightarrow> NUL \<notin> set s \<and> (\<exists>rest. drop p buf = s @ NUL # rest)"

lemma takeWhile_string:
  assumes "NUL \<notin> set s"
  shows "takeWhile (\<lambda>c. c \<noteq> NUL \<and> P c) (s @ NUL # rest) = takeWhile P s"
  using assms by (induction s) auto

lemma takeWhile_NUL: "takeWhile (\<lambda>c. c \<noteq> NUL) (xs @ NUL # ys) = takeWhile (\<lambda>c. c \<noteq> NUL) xs"
  by (induction xs) auto

lemma cString_stringAt: "stringAt buf p s \<Longrightarrow> cString buf p = s"
  using takeWhile_string [of s "\<lambda>_. True"] by (auto simp: stringAt_def cString_def)

lemma stringAt_suffix: "stringAt buf p (s @ t) \<Longrightarrow> stringAt buf (p + length s) t"
  by (auto simp: stringAt_def add.commute [of p] simp flip: drop_drop)

lemma drop_nth:
  assumes "drop p buf = s @ c # rest"
  shows "p + length s < length buf \<and> buf ! (p + length s) = c"
proof -
  have b: "buf = take p buf @ s @ c # rest" using assms by (metis append_take_drop_id)
  have "p < length buf" using assms by (metis append_is_Nil_conv drop_all linorder_not_le list.distinct(1))
  then have l: "length (take p buf) = p" by simp
  then have "p + length s < length buf" by (subst b) simp
  moreover have "buf ! (p + length s) = c" by (metis append_assoc b l length_append nth_append_length)
  ultimately show ?thesis by blast
qed

lemma stringAt_cut:
  assumes "stringAt buf p (a @ c # b)"
  shows "stringAt (buf[p + length a := NUL]) p a" "stringAt (buf[p + length a := NUL]) (Suc (p + length a)) b"
proof -
  from assms obtain rest where d: "drop p buf = a @ c # b @ NUL # rest" and n: "NUL \<notin> set a" "NUL \<notin> set b"
    by (auto simp: stringAt_def)
  have u: "drop p (buf[p + length a := NUL]) = a @ NUL # b @ NUL # rest"
    using d by (simp add: drop_update_swap)
  then show "stringAt (buf[p + length a := NUL]) p a" using n by (simp add: stringAt_def)
  have "drop (Suc (length a)) (drop p (buf[p + length a := NUL])) = b @ NUL # rest"
    unfolding u by simp
  then show "stringAt (buf[p + length a := NUL]) (Suc (p + length a)) b"
    using n by (simp add: stringAt_def add.commute)
qed

lemma stringAt_before:
  assumes "stringAt buf q s" "q + length s < i"
  shows "stringAt (buf[i := c]) q s"
proof -
  from assms obtain rest where d: "drop q buf = s @ NUL # rest" "NUL \<notin> set s" by (auto simp: stringAt_def)
  obtain j where "i - q = length s + Suc j" using assms(2) by (metis add_Suc_right less_imp_Suc_add
        add_diff_cancel_left' add.assoc)
  then have "drop q (buf[i := c]) = s @ NUL # rest[j := c]"
    using d(1) assms(2) by (simp add: drop_update_swap list_update_append)
  with d(2) show ?thesis by (simp add: stringAt_def)
qed

lemma strtok_none:
  assumes "stringAt buf p s" "dropWhile (\<lambda>c. c \<in> set d) s = []"
  shows "\<exists>q. strtok buf p d = Some (None, buf, q) \<and> stringAt buf q []"
proof -
  from assms obtain rest where r: "drop p buf = s @ NUL # rest" "NUL \<notin> set s" by (auto simp: stringAt_def)
  have all: "takeWhile (\<lambda>c. c \<in> set d) s = s" using assms(2) by (simp add: takeWhile_eq_all_conv)
  have "strspn (drop p buf) d = length s"
    by (simp add: strspn_takeWhile r(1) takeWhile_string [OF r(2), of "\<lambda>c. c \<in> set d"] all)
  moreover have "stringAt buf (p + length s) []" using stringAt_suffix [of buf p s "[]"] assms(1) by simp
  ultimately show ?thesis using drop_nth [OF r(1)] by (simp add: strtok_def Let_def)
qed

text \<open>A token: the array is cut after it, the rest of the string follows, and strings that end before
  it are untouched.\<close>

lemma strtok_some:
  assumes "stringAt buf p s" "dropWhile (\<lambda>c. c \<in> set d) s = c # cs"
  shows "\<exists>q buf' p'. strtok buf p d = Some (Some q, buf', p') \<and> p \<le> q \<and> q < p' \<and>
    stringAt buf q (c # cs) \<and>
    stringAt buf' q (c # takeWhile (\<lambda>c. c \<notin> set d) cs) \<and>
    stringAt buf' p' (tl (dropWhile (\<lambda>c. c \<notin> set d) cs)) \<and>
    length buf' = length buf \<and> q + length (c # takeWhile (\<lambda>c. c \<notin> set d) cs) \<le> p' \<and>
    (\<forall>q0 s0. stringAt buf q0 s0 \<longrightarrow> q0 + length s0 < q \<longrightarrow> stringAt buf' q0 s0)"
proof -
  let ?a = "takeWhile (\<lambda>c. c \<in> set d) s"
  let ?t = "takeWhile (\<lambda>c. c \<notin> set d) cs"
  let ?q = "p + length ?a"
  let ?e = "?q + length (c # ?t)"
  note c = tokens_some(1) [OF assms(2)]
  have s: "s = ?a @ c # cs" using assms(2) by (metis takeWhile_dropWhile_id)
  have n: "NUL \<notin> set s" using assms(1) by (simp add: stringAt_def)
  have atq: "stringAt buf ?q (c # cs)" by (rule stringAt_suffix) (use assms(1) s in simp)
  obtain r1 where r1: "drop p buf = s @ NUL # r1" using assms(1) by (auto simp: stringAt_def)
  obtain r2 where r2: "drop ?q buf = c # cs @ NUL # r2" using atq by (auto simp: stringAt_def)
  have sp: "strspn (drop p buf) d = length ?a"
    by (simp add: strspn_takeWhile r1 takeWhile_string [OF n, of "\<lambda>c. c \<in> set d"])
  have n2: "NUL \<notin> set (c # cs)" using atq by (simp add: stringAt_def)
  have cs: "strcspn (drop ?q buf) d = length (c # ?t)"
    using takeWhile_string [OF n2, of "\<lambda>c. c \<notin> set d" r2] c by (simp add: strcspn_takeWhile r2)
  have q: "?q < length buf" "buf ! ?q = c" using drop_nth [of ?q buf "[]" c] r2 by auto
  have cN: "c \<noteq> NUL" using n2 by auto
  have tk: "strtok buf p d = (case fetch buf ?e of None \<Rightarrow> None
      | Some x \<Rightarrow> if x \<noteq> NUL then Some (Some ?q, buf[?e := NUL], Suc ?e) else Some (Some ?q, buf, ?e))"
    unfolding strtok_def Let_def sp cs using q cN by simp
  show ?thesis
  proof (cases "dropWhile (\<lambda>c. c \<notin> set d) cs")
    case Nil
    then have all: "?t = cs" by (metis append_Nil2 takeWhile_dropWhile_id)
    have "?e < length buf" "buf ! ?e = NUL" unfolding all using drop_nth [of ?q buf "c # cs" NUL] r2 by auto
    then have "strtok buf p d = Some (Some ?q, buf, ?e)" by (simp add: tk)
    moreover have "stringAt buf ?e []"
      unfolding all using stringAt_suffix [of buf ?q "c # cs" "[]"] atq by simp
    ultimately show ?thesis unfolding all Nil using atq by (intro exI) auto
  next
    case (Cons x u)
    have split: "c # cs = (c # ?t) @ x # u" using Cons by (metis append_Cons takeWhile_dropWhile_id)
    have xN: "x \<noteq> NUL" using n2 split by (metis in_set_conv_decomp)
    have "?e < length buf" "buf ! ?e = x"
      using drop_nth [of ?q buf "c # ?t" x "u @ NUL # r2"] r2 split by auto
    then have st: "strtok buf p d = Some (Some ?q, buf[?e := NUL], Suc ?e)" using xN by (simp add: tk)
    have cut: "stringAt (buf[?e := NUL]) ?q (c # ?t)" "stringAt (buf[?e := NUL]) (Suc ?e) u"
      using stringAt_cut [of buf ?q "c # ?t" x u] atq split by simp_all
    have keep: "stringAt (buf[?e := NUL]) q0 s0" if "stringAt buf q0 s0" "q0 + length s0 < ?q" for q0 s0
      by (rule stringAt_before [OF that(1)]) (use that(2) in simp)
    show ?thesis using st cut keep Cons atq by (intro exI) auto
  qed
qed

section \<open>Bounded formatted output\<close>

text \<open>The \<open>holder\<close> of \<open>snprintf.c\<close>: the array, the write position, the room left for characters,
  and the number of characters produced so far.\<close>

record holder =
  target :: "char list"
  out_end :: nat
  room :: nat
  written :: nat

definition outs :: "string \<Rightarrow> holder \<Rightarrow> holder option" where
  "outs s h =
     (if written h < room h then
        (let space = room h - written h;
             use = (if length s > space then space else length s) in
         if out_end h + use \<le> length (target h)
         then Some (h\<lparr>target := take (out_end h) (target h) @ take use s @ drop (out_end h + use) (target h),
                      out_end := out_end h + use, written := written h + length s\<rparr>)
         else None)
      else Some (h\<lparr>written := written h + length s\<rparr>))"

primrec outsAll :: "string list \<Rightarrow> holder \<Rightarrow> holder option" where
  "outsAll [] h = Some h"
| "outsAll (s # ss) h = (case outs s h of None \<Rightarrow> None | Some h' \<Rightarrow> outsAll ss h')"

text \<open>\<open>snprintf\<close> on the array segment that starts at \<open>p\<close>: the array afterwards and the result.\<close>

definition snprintf :: "char list \<Rightarrow> nat \<Rightarrow> nat \<Rightarrow> string list \<Rightarrow> (char list \<times> nat) option" where
  "snprintf buf p n pieces =
     (case outsAll pieces \<lparr>target = buf, out_end = p, room = (if n = 0 then 0 else n - 1), written = 0\<rparr> of
        None \<Rightarrow> None
      | Some h \<Rightarrow>
         (if n \<noteq> 0 then
            (case store (target h) (out_end h) NUL of None \<Rightarrow> None
             | Some b \<Rightarrow> Some (b, written h))
          else Some (target h, written h)))"

lemma outsAll_effect:
  assumes "out_end h = p + min (room h) (written h)" "p + room h \<le> length (target h)"
  shows "\<exists>h'. outsAll ss h = Some h' \<and> room h' = room h \<and> written h' = written h + length (concat ss) \<and>
    out_end h' = p + min (room h') (written h') \<and> length (target h') = length (target h) \<and>
    take (out_end h') (target h') = take (out_end h) (target h) @ take (room h - written h) (concat ss)"
  using assms
proof (induction ss arbitrary: h)
  case (Cons s ss)
  show ?case
  proof (cases "written h < room h")
    case False
    let ?h = "h\<lparr>written := written h + length s\<rparr>"
    from False have o: "outs s h = Some ?h" by (simp add: outs_def)
    from Cons.IH [of ?h] Cons.prems False show ?thesis by (simp add: o min_def add.assoc)
  next
    case True
    let ?use = "min (room h - written h) (length s)"
    let ?h = "h\<lparr>target := take (out_end h) (target h) @ take ?use s @ drop (out_end h + ?use) (target h),
                out_end := out_end h + ?use, written := written h + length s\<rparr>"
    have oe: "out_end h = p + written h" using Cons.prems(1) True by simp
    have o: "outs s h = Some ?h"
      using True Cons.prems(2) oe by (auto simp: outs_def Let_def min_def)
    have l: "length (target ?h) = length (target h)" using True Cons.prems(2) oe by simp
    have oe2: "out_end ?h = p + min (room ?h) (written ?h)" using oe True by (auto simp: min_def)
    have tk: "take (out_end ?h) (target ?h) = take (out_end h) (target h) @ take ?use s"
      using True Cons.prems(2) oe by simp
    have cat: "take ?use s @ take (room ?h - written ?h) (concat ss) = take (room h - written h) (concat (s # ss))"
      by (simp add: min_def)
    have "p + room ?h \<le> length (target ?h)" unfolding l using Cons.prems(2) by simp
    from Cons.IH [OF oe2 this] obtain h' where h': "outsAll ss ?h = Some h'" "room h' = room ?h"
      "written h' = written ?h + length (concat ss)" "out_end h' = p + min (room h') (written h')"
      "length (target h') = length (target ?h)"
      "take (out_end h') (target h') = take (out_end ?h) (target ?h) @ take (room ?h - written ?h) (concat ss)"
      by blast
    show ?thesis
    proof (intro exI conjI)
      show "outsAll (s # ss) h = Some h'" using o h'(1) by simp
      show "take (out_end h') (target h') = take (out_end h) (target h) @ take (room h - written h) (concat (s # ss))"
        unfolding h'(6) tk append_assoc cat ..
      show "length (target h') = length (target h)" using h'(5) unfolding l .
      show "out_end h' = p + min (room h') (written h')" by (rule h'(4))
      show "room h' = room h" using h'(2) by simp
      show "written h' = written h + length (concat (s # ss))" using h'(3) by simp
    qed
  qed
qed simp

text \<open>The classic contract: the result is the full length, the array segment holds as much of the text
  as fits and its terminator, and nothing else is touched.\<close>

lemma snprintf_spec:
  assumes "p + n \<le> length buf" "0 < n"
  shows "\<exists>buf'. snprintf buf p n pieces = Some (buf', length (concat pieces)) \<and> length buf' = length buf \<and>
    take p buf' = take p buf \<and> cString buf' p = takeWhile (\<lambda>c. c \<noteq> NUL) (take (n - 1) (concat pieces)) \<and>
    take (min (n - 1) (length (concat pieces))) (drop p buf') = take (n - 1) (concat pieces)"
proof -
  let ?h = "\<lparr>target = buf, out_end = p, room = n - 1, written = 0\<rparr>"
  let ?t = "take (n - 1) (concat pieces)"
  obtain h' where h': "outsAll pieces ?h = Some h'" "room h' = n - 1" "written h' = length (concat pieces)"
    "out_end h' = p + length ?t" "length (target h') = length buf"
    "take (p + length ?t) (target h') = take p buf @ ?t"
  proof -
    have "out_end ?h = p + min (room ?h) (written ?h)" "p + room ?h \<le> length (target ?h)"
      using assms by simp_all
    from outsAll_effect [OF this, of pieces] show thesis
      using that by (auto simp: min.commute)
  qed
  let ?b = "(target h')[p + length ?t := NUL]"
  have lt: "p + length ?t < length (target h')" using h'(5) assms by simp
  then have b: "?b = take p buf @ ?t @ NUL # drop (Suc (p + length ?t)) (target h')"
    using h'(6) by (simp add: upd_conv_take_nth_drop)
  have lp: "length (take p buf) = p" using assms by simp
  have d: "drop p ?b = ?t @ NUL # drop (Suc (p + length ?t)) (target h')"
    by (metis b lp append_eq_conv_conj)
  have "cString ?b p = takeWhile (\<lambda>c. c \<noteq> NUL) ?t"
    unfolding cString_def d by (rule takeWhile_NUL)
  moreover have "snprintf buf p n pieces = Some (?b, length (concat pieces))"
    using assms(2) lt h' by (simp add: snprintf_def)
  moreover have "take p ?b = take p buf" by (metis b lp append_eq_conv_conj)
  moreover have "take (min (n - 1) (length (concat pieces))) (drop p ?b) = ?t"
    unfolding d by (simp add: min_def)
  moreover have "length ?b = length buf" using h'(5) by simp
  ultimately show ?thesis by blast
qed

lemma cString_fits:
  assumes "length buf = n" "length (concat pieces) < n" "NUL \<notin> set (concat pieces)"
  shows "\<exists>buf'. snprintf buf 0 n pieces = Some (buf', length (concat pieces)) \<and> length buf' = n \<and>
    cString buf' 0 = concat pieces"
proof -
  from assms(2) have "0 < n" "take (n - 1) (concat pieces) = concat pieces" by simp_all
  moreover have "takeWhile (\<lambda>c. c \<noteq> NUL) (concat pieces) = concat pieces"
    unfolding takeWhile_eq_all_conv using assms(3) by blast
  ultimately show ?thesis using snprintf_spec [of 0 n buf pieces] assms(1) by (metis add_0 order_refl)
qed

lemma snprintf_stringAt:
  assumes "length buf = n" "0 < n" "NUL \<notin> set (concat pieces)"
  shows "\<exists>buf'. snprintf buf 0 n pieces = Some (buf', length (concat pieces)) \<and> length buf' = n \<and>
    stringAt buf' 0 (take (n - 1) (concat pieces))"
proof -
  let ?t = "take (n - 1) (concat pieces)"
  have "0 + n \<le> length buf" using assms(1) by simp
  from snprintf_spec [OF this assms(2), of pieces] obtain buf' where
    b: "snprintf buf 0 n pieces = Some (buf', length (concat pieces))" "length buf' = n"
      "cString buf' 0 = takeWhile (\<lambda>c. c \<noteq> NUL) ?t" using assms(1) by auto
  have t: "NUL \<notin> set ?t" "length ?t < n" using assms(2,3) by (auto dest: in_set_takeD)
  then have tw: "takeWhile (\<lambda>c. c \<noteq> NUL) buf' = ?t"
    using b(3) takeWhile_eq_all_conv [of "\<lambda>c. c \<noteq> NUL" ?t] by (auto simp: cString_def)
  then have l: "length (takeWhile (\<lambda>c. c \<noteq> NUL) buf') < length buf'" using b(2) t(2) by simp
  have "buf' = ?t @ dropWhile (\<lambda>c. c \<noteq> NUL) buf'" by (metis tw takeWhile_dropWhile_id)
  moreover have "dropWhile (\<lambda>c. c \<noteq> NUL) buf' = NUL # drop (Suc (length ?t)) buf'"
    using nth_length_takeWhile [OF l] l by (simp add: dropWhile_eq_drop tw Cons_nth_drop_Suc [symmetric])
  ultimately have "stringAt buf' 0 ?t" using t(1) by (metis drop0 stringAt_def)
  with b show ?thesis by blast
qed

section \<open>Numbers\<close>

text \<open>The digits the format engine produces for \<open>%u\<close> and \<open>%lu\<close>, \<open>%d\<close>, and zero-padded hexadecimal.\<close>

definition digitChar :: "nat \<Rightarrow> char" where
  "digitChar d = char_of (if d < 10 then 48 + d else 87 + d)"

fun natDigits :: "nat \<Rightarrow> string" where
  "natDigits n = (if n < 10 then [digitChar n] else natDigits (n div 10) @ [digitChar (n mod 10)])"

declare natDigits.simps [simp del]

definition intDigits :: "int \<Rightarrow> string" where
  "intDigits i = (if i < 0 then CHR 0x2D # natDigits (nat (- i)) else natDigits (nat i))"

primrec hexDigits :: "nat \<Rightarrow> nat \<Rightarrow> string" where
  "hexDigits 0 n = []"
| "hexDigits (Suc k) n = hexDigits k (n div 16) @ [digitChar (n mod 16)]"

lemma length_hexDigits [simp]: "length (hexDigits k n) = k"
  by (induction k arbitrary: n) simp_all

lemma length_natDigits: "n < 10 ^ Suc k \<Longrightarrow> length (natDigits n) \<le> Suc k"
proof (induction k arbitrary: n)
  case 0
  then show ?case by (simp add: natDigits.simps)
next
  case (Suc k)
  show ?case
  proof (cases "n < 10")
    case False
    have "n div 10 < 10 ^ Suc k" using Suc.prems by (simp add: less_mult_imp_div_less mult.commute)
    from Suc.IH [OF this] False show ?thesis by (subst natDigits.simps) simp
  qed (simp add: natDigits.simps)
qed

lemma digitChar_not_NUL: "d < 16 \<Longrightarrow> digitChar d \<noteq> NUL"
  by (auto simp: digitChar_def NUL_def dest!: arg_cong [where f = "of_char :: char \<Rightarrow> nat"])

lemma natDigits_not_NUL: "NUL \<notin> set (natDigits n)"
proof (induction n rule: natDigits.induct)
  case (1 n)
  have "n mod 10 < 16" by (rule order.strict_trans [of _ 10]) simp_all
  with 1 show ?case
    using digitChar_not_NUL [of n] digitChar_not_NUL [of "n mod 10"]
    by (subst natDigits.simps) (auto dest: sym)
qed

lemma intDigits_not_NUL: "NUL \<notin> set (intDigits i)"
  using natDigits_not_NUL by (auto simp: intDigits_def NUL_def)

end
