(* ===== verification/Cli_Core.thy ===== *)
theory Cli_Core
  imports C_Strings
begin

text \<open>
  The command interpreter of \<open>cli_core.c\<close>. Everything written through \<open>cli_port_write\<close> is collected
  in a string; a command handler is a function of its arguments and the state of the application.
\<close>

definition CLI_MAX_ARGUMENTS :: nat where "CLI_MAX_ARGUMENTS = 8"
definition CLI_MAX_LINE_LENGTH :: nat where "CLI_MAX_LINE_LENGTH = 128"

record 's CliCommand =
  name :: string
  usage :: string
  handler :: "string list \<Rightarrow> 's \<Rightarrow> string \<times> 's"

definition crlf :: string where "crlf = [CHR 0x0D, CHR 0x0A]"

definition separators :: string where "separators = [CHR 0x20, CHR 0x09, CHR 0x0D, CHR 0x0A]"

section \<open>Output\<close>

definition cli_print_command :: "'s CliCommand \<Rightarrow> string" where
  "cli_print_command command = ''OK '' @ name command @ '' '' @ usage command @ crlf"

definition cli_write_line :: "string \<Rightarrow> string \<Rightarrow> string" where
  "cli_write_line prefix message = prefix @ (if message \<noteq> [] then '' '' @ message else []) @ crlf"

definition cli_ok :: "string \<Rightarrow> string" where
  "cli_ok message = cli_write_line ''OK'' message"

definition cli_error :: "string \<Rightarrow> string \<Rightarrow> string" where
  "cli_error code message = ''ERR '' @ code @ (if message \<noteq> [] then '' '' @ message else []) @ crlf"

section \<open>Dispatch\<close>

definition cli_help :: "'s CliCommand list \<Rightarrow> string list \<Rightarrow> string" where
  "cli_help commands argv =
     (if length argv > 2 then cli_error ''ARG'' ''usage: help [command]''
      else if length argv = 2 then
        (if argv ! 1 = ''help'' then cli_ok ''help [command]''
         else case find (\<lambda>c. argv ! 1 = name c) commands of
           Some c \<Rightarrow> cli_print_command c
         | None \<Rightarrow> cli_error ''CMD'' ''unknown_command'')
      else cli_ok ''commands:'' @ cli_ok ''help [command]'' @ concat (map cli_print_command commands))"

definition cli_dispatch :: "'s CliCommand list \<Rightarrow> string list \<Rightarrow> 's \<Rightarrow> string \<times> 's" where
  "cli_dispatch commands argv st =
     (if argv ! 0 = ''help'' then (cli_help commands argv, st)
      else case find (\<lambda>c. argv ! 0 = name c) commands of
        Some c \<Rightarrow> handler c argv st
      | None \<Rightarrow> (cli_error ''CMD'' ''unknown_command; use help'', st))"

text \<open>The loop that collects the arguments: the array, \<open>last_end\<close> of \<open>strtok\<close>, and the starts of the
  arguments so far. The inner \<open>None\<close> is the ninth argument.\<close>

lemma strtok_advances:
  assumes "strtok buf p d = Some (Some q, buf', p')"
  shows "p < p' \<and> length buf' = length buf \<and> p < length buf"
proof -
  let ?q = "p + strspn (drop p buf) d"
  from assms have q: "?q < length buf" "buf ! ?q \<noteq> NUL"
    by (auto simp: strtok_def Let_def fetch_def split: if_splits)
  then have dq: "drop ?q buf = buf ! ?q # drop (Suc ?q) buf" by (simp add: Cons_nth_drop_Suc)
  have "length (takeWhile (\<lambda>c. c \<noteq> NUL \<and> c \<in> set d) (drop p buf)) < length (drop p buf)"
    using q(1) by (simp add: strspn_takeWhile)
  from nth_length_takeWhile [OF this] q have "buf ! ?q \<notin> set d" by (simp add: strspn_takeWhile)
  then have "0 < strcspn (drop ?q buf) d" using q(2) by (subst dq) simp
  with assms q show ?thesis
    by (auto simp: strtok_def Let_def fetch_def split: if_splits)
qed

function collectArguments :: "char list \<Rightarrow> nat \<Rightarrow> nat list \<Rightarrow> (char list \<times> nat list option) option" where
  "collectArguments buf last_end argv =
     (case strtok buf last_end separators of
        None \<Rightarrow> None
      | Some (None, buf', p') \<Rightarrow> Some (buf', Some argv)
      | Some (Some token, buf', p') \<Rightarrow>
          if length argv = CLI_MAX_ARGUMENTS then Some (buf', None)
          else collectArguments buf' p' (argv @ [token]))"
  by pat_completeness auto
termination
  by (relation "measure (\<lambda>(buf, p, argv). length buf - p)") (auto dest!: strtok_advances)

declare collectArguments.simps [simp del]

definition cli_process_line :: "'s CliCommand list \<Rightarrow> char list \<Rightarrow> 's \<Rightarrow> (string \<times> 's) option" where
  "cli_process_line commands line st =
     (case collectArguments line 0 [] of
        None \<Rightarrow> None
      | Some (buf, None) \<Rightarrow> Some (cli_error ''ARG'' ''too_many_arguments'', st)
      | Some (buf, Some argv) \<Rightarrow>
          if argv = [] then Some ([], st)
          else Some (cli_dispatch commands (map (cString buf) argv) st))"

section \<open>The interpreter on strings\<close>

definition cliLine :: "'s CliCommand list \<Rightarrow> string \<Rightarrow> 's \<Rightarrow> string \<times> 's" where
  "cliLine commands s st =
     (let argv = tokens separators s in
      if length argv > CLI_MAX_ARGUMENTS then (cli_error ''ARG'' ''too_many_arguments'', st)
      else if argv = [] then ([], st)
      else cli_dispatch commands argv st)"

lemma tokens_skip: "x \<in> set d \<Longrightarrow> tokens d (x # u) = tokens d u"
  by (simp add: tokens.simps [of d "x # u"] tokens.simps [of d u])

lemma tokens_rest: "tokens d (dropWhile (\<lambda>c. c \<notin> set d) cs) = tokens d (tl (dropWhile (\<lambda>c. c \<notin> set d) cs))"
proof (cases "dropWhile (\<lambda>c. c \<notin> set d) cs")
  case (Cons x u)
  then have "x \<in> set d" using hd_dropWhile [of "\<lambda>c. c \<notin> set d" cs] by simp
  then show ?thesis unfolding Cons by (simp add: tokens_skip)
next
  case Nil
  show ?thesis unfolding Nil by simp
qed

lemma stringAt_end: "stringAt buf q t \<Longrightarrow> q + length t < length buf \<and> buf ! (q + length t) = NUL"
  by (auto simp: stringAt_def dest: drop_nth)

lemma stringAt_start: "stringAt buf q (c # t) \<Longrightarrow> c \<noteq> NUL \<and> buf ! q = c"
  using drop_nth [of q buf "[]" c] by (auto simp: stringAt_def)

lemma collectArguments_tokens:
  assumes "stringAt buf p s" "list_all2 (\<lambda>q t. stringAt buf q t \<and> q + length t \<le> p) argv ts"
    and "length argv \<le> 8"
  shows "\<exists>buf'. (if length ts + length (tokens separators s) \<le> 8
      then \<exists>argv'. collectArguments buf p argv = Some (buf', Some argv') \<and>
        map (cString buf') argv' = ts @ tokens separators s
      else collectArguments buf p argv = Some (buf', None))"
  using assms
proof (induction "length s" arbitrary: buf p s argv ts rule: less_induct)
  case less
  have len: "length argv = length ts" using less.prems(2) by (rule list_all2_lengthD)
  show ?case
  proof (cases "dropWhile (\<lambda>c. c \<in> set separators) s")
    case Nil
    from strtok_none [OF less.prems(1) Nil] obtain q where "strtok buf p separators = Some (None, buf, q)" by blast
    then have "collectArguments buf p argv = Some (buf, Some argv)" by (simp add: collectArguments.simps)
    moreover have "map (cString buf) argv = ts"
      using less.prems(2) by (induction rule: list_all2_induct) (simp_all add: cString_stringAt)
    ultimately show ?thesis using tokens_none [OF Nil] len less.prems(3) by auto
  next
    case (Cons c cs)
    let ?t = "c # takeWhile (\<lambda>c. c \<notin> set separators) cs"
    let ?u = "tl (dropWhile (\<lambda>c. c \<notin> set separators) cs)"
    have tk: "tokens separators s = ?t # tokens separators ?u"
      using tokens_some(2) [OF Cons] tokens_rest [of separators cs] by simp
    from strtok_some [OF less.prems(1) Cons] obtain q buf' p' where
      st: "strtok buf p separators = Some (Some q, buf', p')" "p \<le> q" "q + length ?t \<le> p'"
      and atq: "stringAt buf q (c # cs)" and new: "stringAt buf' q ?t" "stringAt buf' p' ?u" and lb: "length buf' = length buf"
      and keep: "\<And>q0 s0. stringAt buf q0 s0 \<Longrightarrow> q0 + length s0 < q \<Longrightarrow> stringAt buf' q0 s0" by blast
    show ?thesis
    proof (cases "length argv = 8")
      case True
      then have "collectArguments buf p argv = Some (buf', None)"
        using st(1) by (simp add: collectArguments.simps CLI_MAX_ARGUMENTS_def)
      with True len tk show ?thesis by auto
    next
      case False
      have step: "collectArguments buf p argv = collectArguments buf' p' (argv @ [q])"
        using st(1) False by (subst collectArguments.simps) (simp add: CLI_MAX_ARGUMENTS_def)
      have "length (dropWhile (\<lambda>c. c \<in> set separators) s) \<le> length s" by (rule length_dropWhile_le)
      then have small: "length ?u < length s"
        unfolding Cons using length_dropWhile_le [of "\<lambda>c. c \<notin> set separators" cs] by simp
      have old: "stringAt buf' q0 t \<and> q0 + length t \<le> p'" if "stringAt buf q0 t" "q0 + length t \<le> p" for q0 t
      proof -
        have "q0 + length t \<noteq> q"
          using stringAt_end [OF that(1)] stringAt_start [OF atq] by metis
        with that(2) st(2,3) keep [OF that(1)] show ?thesis by simp
      qed
      have "list_all2 (\<lambda>q t. stringAt buf' q t \<and> q + length t \<le> p') (argv @ [q]) (ts @ [?t])"
        using less.prems(2) old new(1) st(3) by (auto intro!: list_all2_appendI elim: list_all2_mono)
      from less.hyps [OF small new(2) this] False less.prems(3) show ?thesis
        unfolding step tk by (auto split: if_splits)
    qed
  qed
qed

lemma cli_process_line_refines:
  assumes "stringAt line 0 s"
  shows "cli_process_line commands line st = Some (cliLine commands s st)"
proof -
  let ?ts = "tokens separators s"
  from collectArguments_tokens [OF assms, of "[]" "[]"] obtain buf' where
    c: "if length ?ts \<le> 8 then \<exists>argv'. collectArguments line 0 [] = Some (buf', Some argv') \<and>
        map (cString buf') argv' = ?ts else collectArguments line 0 [] = Some (buf', None)"
    by (auto split: if_splits)
  show ?thesis
  proof (cases "length ?ts \<le> 8")
    case True
    with c obtain argv where "collectArguments line 0 [] = Some (buf', Some argv)" "map (cString buf') argv = ?ts"
      by auto
    with True show ?thesis
      by (auto simp: cli_process_line_def cliLine_def Let_def CLI_MAX_ARGUMENTS_def)
  next
    case False
    with c show ?thesis by (simp add: cli_process_line_def cliLine_def Let_def CLI_MAX_ARGUMENTS_def)
  qed
qed

lemma separators_set: "set separators = {CHR 0x20, CHR 0x09, CHR 0x0D, CHR 0x0A}"
  by (simp add: separators_def)

section \<open>Properties\<close>

text \<open>C20. The command interpreter works on the words of the line: whatever NUL-terminated line is in the
  array, the in-place tokenizer stays inside it and the interpreter behaves as the dispatch of
  the list of words between blanks, tabs and line ends. The words are non-empty, contain no
  separator and are together exactly the other characters of the line; more than eight are
  refused without running a command.\<close>

theorem cli_line_is_dispatch_of_words:
  assumes "NUL \<notin> set s" "line = s @ NUL # rest"
  shows "cli_process_line commands line st = Some (cliLine commands s st) \<and>
    concat (tokens separators s) = filter (\<lambda>c. c \<notin> set separators) s \<and>
    (\<forall>t\<in>set (tokens separators s). t \<noteq> [] \<and> set t \<inter> set separators = {}) \<and>
    (length (tokens separators s) > 8 \<longrightarrow>
       cli_process_line commands line st = Some (cli_error ''ARG'' ''too_many_arguments'', st))"
proof -
  have "stringAt line 0 s" using assms by (simp add: stringAt_def)
  note r = cli_process_line_refines [OF this, of commands st]
  with concat_tokens [of separators s] tokens_nonempty [of _ separators s] show ?thesis
    by (auto simp: cliLine_def Let_def CLI_MAX_ARGUMENTS_def)
qed

theorem cli_line_is_dispatch_of_words_witness:
  "cli_process_line [] (''a b c d e f g h i'' @ NUL # []) () =
   Some (cli_error ''ARG'' ''too_many_arguments'', ())"
proof -
  have len: "length (tokens separators ''a b c d e f g h i'') > 8"
    by (simp add: tokens.simps separators_def)
  have "NUL \<notin> set ''a b c d e f g h i''" by (simp add: NUL_def)
  from cli_line_is_dispatch_of_words [OF this refl, where commands = "[]" and st = "()" and rest = "[]"] len
  show ?thesis by blast
qed

end
