(* ===== verification/Boot_Client.thy ===== *)
theory Boot_Client
  imports Boot_Decision
begin

text \<open>
  The application's side of the boot contract: the function table the bootloader exports at
  \<open>0x5000\<close> and the calls through it (\<open>boot_api.c\<close>), the role (\<open>firmware_mode.c\<close>), and the readiness
  bookkeeping that confirms a boot (\<open>firmware_startup.c\<close>). The state a call changes is the handoff
  block in RAM and the flash behind the bootloader's functions.
\<close>

section \<open>The bootloader interface\<close>

definition BL_API_MAGIC :: u32 where "BL_API_MAGIC = 0x424C4150"
definition BL_API_VERSION :: u16 where "BL_API_VERSION = 2"
definition BL_HANDOFF_MAGIC :: u32 where "BL_HANDOFF_MAGIC = 0x484E4446"
definition BL_APP_ROLE_RX :: u32 where "BL_APP_ROLE_RX = 1"
definition BL_APP_ROLE_TX :: u32 where "BL_APP_ROLE_TX = 2"

lemmas bl_consts = BL_API_MAGIC_def BL_API_VERSION_def BL_HANDOFF_MAGIC_def BL_APP_ROLE_RX_def
  BL_APP_ROLE_TX_def

record BlApi =
  apiMagic :: u32
  abiVersion :: u16
  confirmBoot :: "u32 \<Rightarrow> flash \<Rightarrow> int \<times> flash"
  requestUpdate :: "flash \<Rightarrow> int \<times> flash"

text \<open>The table the bootloader places in its image.\<close>

definition bootloaderApi :: "flash_driver \<Rightarrow> BlApi" where
  "bootloaderApi drv = \<lparr>apiMagic = 0x424C4150, abiVersion = 2,
     confirmBoot = confirmApplicationBoot drv, requestUpdate = requestFirmwareUpdate drv\<rparr>"

definition api :: "BlApi \<Rightarrow> BlApi option" where
  "api table =
     (if apiMagic table = BL_API_MAGIC \<and> abiVersion table = BL_API_VERSION then Some table else None)"

definition bl_confirm_boot :: "BlApi \<Rightarrow> BootHandoff \<Rightarrow> flash \<Rightarrow> int \<times> BootHandoff \<times> flash" where
  "bl_confirm_boot mem handoff f =
     (case api mem of
        None \<Rightarrow> (-1, handoff, f)
      | Some table \<Rightarrow>
         if handoffMagic handoff = BL_HANDOFF_MAGIC then
           (case confirmBoot table (handoffBootAttemptId handoff) f of (st, f') \<Rightarrow>
              if st = 0 then (0, handoff\<lparr>handoffMagic := 0\<rparr>, f') else (-1, handoff, f'))
         else (-1, handoff, f))"

definition bl_request_update :: "BlApi \<Rightarrow> flash \<Rightarrow> int \<times> flash" where
  "bl_request_update mem f =
     (case api mem of None \<Rightarrow> (-1, f) | Some table \<Rightarrow> requestUpdate table f)"

definition bl_get_startup_role :: "BootHandoff \<Rightarrow> u32" where
  "bl_get_startup_role handoff =
     (if handoffMagic handoff \<noteq> BL_HANDOFF_MAGIC then BL_APP_ROLE_RX
      else if handoffAppRole handoff = BL_APP_ROLE_TX then BL_APP_ROLE_TX else BL_APP_ROLE_RX)"

section \<open>The role\<close>

datatype FirmwareRole = FIRMWARE_ROLE_UNSET | FIRMWARE_ROLE_RX | FIRMWARE_ROLE_TX

definition firmware_role_from_metadata :: "BootHandoff \<Rightarrow> FirmwareRole" where
  "firmware_role_from_metadata handoff =
     (if bl_get_startup_role handoff = BL_APP_ROLE_TX then FIRMWARE_ROLE_TX else FIRMWARE_ROLE_RX)"

definition firmware_role_name :: "FirmwareRole \<Rightarrow> string" where
  "firmware_role_name role = (if role = FIRMWARE_ROLE_TX then ''tx'' else ''rx'')"

section \<open>Readiness\<close>

record readiness =
  rfReady :: bool
  cliReady :: bool
  bootConfirmationAttempted :: bool

text \<open>The part of \<open>updateReadiness\<close> that runs with interrupts disabled; the result says whether the
  caller goes on to confirm the boot.\<close>

definition noteReady :: "bool \<Rightarrow> readiness \<Rightarrow> bool \<times> readiness" where
  "noteReady isRfReady r =
     (let r = (if isRfReady then r\<lparr>rfReady := True\<rparr> else r\<lparr>cliReady := True\<rparr>) in
      if rfReady r \<and> cliReady r \<and> \<not> bootConfirmationAttempted r
      then (True, r\<lparr>bootConfirmationAttempted := True\<rparr>) else (False, r))"

record app_state =
  ready :: readiness
  handoffBlock :: BootHandoff
  appFlash :: flash

definition updateReadiness :: "BlApi \<Rightarrow> bool \<Rightarrow> app_state \<Rightarrow> app_state" where
  "updateReadiness mem isRfReady s =
     (case noteReady isRfReady (ready s) of (confirm, r) \<Rightarrow>
        let s = s\<lparr>ready := r\<rparr> in
        if confirm then
          (case bl_confirm_boot mem (handoffBlock s) (appFlash s) of (_, h, f) \<Rightarrow>
             s\<lparr>handoffBlock := h, appFlash := f\<rparr>)
        else s)"

definition firmwareStartupMarkRfReady :: "BlApi \<Rightarrow> app_state \<Rightarrow> app_state" where
  "firmwareStartupMarkRfReady mem s = updateReadiness mem True s"

definition firmwareStartupMarkCliReady :: "BlApi \<Rightarrow> app_state \<Rightarrow> app_state" where
  "firmwareStartupMarkCliReady mem s = updateReadiness mem False s"

definition initialReadiness :: readiness where
  "initialReadiness = \<lparr>rfReady = False, cliReady = False, bootConfirmationAttempted = False\<rparr>"

section \<open>Interleavings\<close>

text \<open>The radio task and the CLI task run \<open>updateReadiness\<close> concurrently. A step is one critical
  section, or the confirmation call of a task that left its critical section with \<open>confirmBoot\<close>
  set. The system state also counts the tasks about to call and the calls made.\<close>

record startup_system =
  app :: app_state
  aboutToConfirm :: nat
  confirmCalls :: nat

inductive startup_step :: "BlApi \<Rightarrow> startup_system \<Rightarrow> startup_system \<Rightarrow> bool" for mem where
  critical: "noteReady isRf (ready (app s)) = (c, r) \<Longrightarrow>
     startup_step mem s (s\<lparr>app := (app s)\<lparr>ready := r\<rparr>, aboutToConfirm := aboutToConfirm s + of_bool c\<rparr>)"
| confirm: "aboutToConfirm s > 0 \<Longrightarrow> bl_confirm_boot mem (handoffBlock (app s)) (appFlash (app s)) = (st, h, f) \<Longrightarrow>
     startup_step mem s (s\<lparr>app := (app s)\<lparr>handoffBlock := h, appFlash := f\<rparr>,
       aboutToConfirm := aboutToConfirm s - 1, confirmCalls := confirmCalls s + 1\<rparr>)"

inductive_cases startup_stepE: "startup_step mem s s'"

definition startup_inv :: "startup_system \<Rightarrow> bool" where
  "startup_inv s \<longleftrightarrow> (let r = ready (app s) in
     bootConfirmationAttempted r = (rfReady r \<and> cliReady r) \<and>
     aboutToConfirm s + confirmCalls s = of_bool (bootConfirmationAttempted r))"

lemma startup_inv_step: "startup_step mem s s' \<Longrightarrow> startup_inv s \<Longrightarrow> startup_inv s'"
  by (erule startup_stepE) (auto simp: startup_inv_def noteReady_def Let_def split: if_splits)

lemma startup_inv_reachable:
  "(startup_step mem)\<^sup>*\<^sup>* s s' \<Longrightarrow> startup_inv s \<Longrightarrow> startup_inv s'"
  by (induction rule: rtranclp_induct) (auto dest: startup_inv_step)

section \<open>The contract between the two images\<close>

lemma api_bootloader [simp]: "api (bootloaderApi drv) = Some (bootloaderApi drv)"
  by (simp add: api_def bootloaderApi_def bl_consts)

lemma confirm_failed_keeps:
  "api mem = None \<or> handoffMagic h \<noteq> BL_HANDOFF_MAGIC \<Longrightarrow> bl_confirm_boot mem h f = (-1, h, f)"
  by (auto simp: bl_confirm_boot_def split: option.split)

text \<open>The application as the bootloader starts it.\<close>

definition startedApp :: "BootHandoff \<Rightarrow> flash \<Rightarrow> app_state" where
  "startedApp h f = \<lparr>ready = initialReadiness, handoffBlock = h, appFlash = f\<rparr>"

lemma both_ready_confirms:
  assumes "mem = bootloaderApi drv" "handoffMagic h = BL_HANDOFF_MAGIC"
    and "confirmApplicationBoot drv (handoffBootAttemptId h) f = (0, f')"
  shows "updateReadiness mem (\<not> b) (updateReadiness mem b (startedApp h f)) =
    \<lparr>ready = \<lparr>rfReady = True, cliReady = True, bootConfirmationAttempted = True\<rparr>,
     handoffBlock = h\<lparr>handoffMagic := 0\<rparr>, appFlash = f'\<rparr>"
  using assms
  by (cases b) (simp_all add: updateReadiness_def noteReady_def startedApp_def initialReadiness_def
      bl_confirm_boot_def bootloaderApi_def api_def bl_consts Let_def)

section \<open>Properties\<close>

text \<open>C18. In every interleaving of the radio and the CLI task the boot is confirmed at most once, never
  before both have reported ready, and once both have, the confirmation has been made or is on
  its way.\<close>

theorem confirmed_once_when_both_ready:
  assumes "(startup_step mem)\<^sup>*\<^sup>* \<lparr>app = startedApp h f, aboutToConfirm = 0, confirmCalls = 0\<rparr> s"
  shows "confirmCalls s \<le> 1 \<and>
    (confirmCalls s = 1 \<longrightarrow> rfReady (ready (app s)) \<and> cliReady (ready (app s))) \<and>
    (rfReady (ready (app s)) \<and> cliReady (ready (app s)) \<longrightarrow> aboutToConfirm s + confirmCalls s = 1)"
proof -
  have "startup_inv s"
    using startup_inv_reachable [OF assms]
    by (simp add: startup_inv_def startedApp_def initialReadiness_def)
  then show ?thesis by (auto simp: startup_inv_def Let_def split: if_splits)
qed

theorem confirmed_once_when_both_ready_witness:
  "\<exists>s. (startup_step (bootloaderApi ideal_driver))\<^sup>*\<^sup>*
     \<lparr>app = startedApp \<lparr>handoffMagic = 0, handoffBootAttemptId = 0, handoffAppRole = 0\<rparr> demoFlash,
      aboutToConfirm = 0, confirmCalls = 0\<rparr> s \<and> rfReady (ready (app s)) \<and> confirmCalls s \<le> 1"
proof -
  let ?s = "\<lparr>app = startedApp \<lparr>handoffMagic = 0, handoffBootAttemptId = 0, handoffAppRole = 0\<rparr> demoFlash,
      aboutToConfirm = 0, confirmCalls = 0\<rparr> :: startup_system"
  let ?t = "?s\<lparr>app := (app ?s)\<lparr>ready := initialReadiness\<lparr>rfReady := True\<rparr>\<rparr>,
      aboutToConfirm := aboutToConfirm ?s + of_bool False\<rparr>"
  have "noteReady True (ready (app ?s)) = (False, initialReadiness\<lparr>rfReady := True\<rparr>)"
    by (simp add: noteReady_def startedApp_def initialReadiness_def)
  from critical [OF this] have st: "(startup_step (bootloaderApi ideal_driver))\<^sup>*\<^sup>* ?s ?t" by blast
  from confirmed_once_when_both_ready [OF st] st show ?thesis by (intro exI [of _ ?t]) simp
qed

text \<open>C19. The boot contract across the two images: when the bootloader hands over and both tasks
  report ready (in either order), the application's confirmation reaches the metadata, if the
  flash works. The count is back where it was before the boot, the attempt is marked confirmed,
  the handoff block is consumed, and the role is the recorded one.\<close>

theorem boot_and_confirm:
  assumes "reliable_flash drv" "journal_ok K f" "K < 2 ^ 31 - 2" "readBootMetadata f = Some m"
    and "confirmedBootAttemptId m \<noteq> bootAttemptId m + 1"
    and "mainThread drv True f = (StartApplication h, f1)"
    and "s = updateReadiness (bootloaderApi drv) (\<not> b) (updateReadiness (bootloaderApi drv) b (startedApp h f1))"
  shows "\<exists>m'. readBootMetadata (appFlash s) = Some m' \<and>
      unconfirmedBootCount m' = unconfirmedBootCount m \<and>
      confirmedBootAttemptId m' = bootAttemptId m' \<and> handoffMagic (handoffBlock s) = 0 \<and>
      firmware_role_from_metadata h = (if appRole m = APP_ROLE_TX then FIRMWARE_ROLE_TX else FIRMWARE_ROLE_RX)"
proof -
  from assms(6) have nu: "\<not> mustUpdate f m"
    using assms(4) by (metis mainThread_startD option.inject)
  from reliable_flash.confirmed_boot [OF assms(1,4) nu assms(2,3,5)] assms(6) obtain f2 m2 where
    c: "confirmApplicationBoot drv (handoffBootAttemptId h) f1 = (0, f2)" and
    m2: "readBootMetadata f2 = Some m2" "unconfirmedBootCount m2 = unconfirmedBootCount m"
      "confirmedBootAttemptId m2 = bootAttemptId m2"
    by (metis Pair_inject boot_outcome.inject(2))
  have K: "K < 2 ^ 31 - 1" using assms(3) by simp
  from nor_flash.mainThread_start [OF reliable_flash.axioms(1) [OF assms(1)] assms(6,2) K] assms(4)
  have h: "h = \<lparr>handoffMagic = BOOT_HANDOFF_MAGIC, handoffBootAttemptId = bootAttemptId m + 1,
       handoffAppRole = appRole m\<rparr>" by (metis option.inject)
  then have "handoffMagic h = BL_HANDOFF_MAGIC" by (simp add: BOOT_HANDOFF_MAGIC_def bl_consts)
  from both_ready_confirms [OF refl this c] assms(7) m2 h show ?thesis
    by (simp add: firmware_role_from_metadata_def bl_get_startup_role_def bl_consts BOOT_HANDOFF_MAGIC_def
        app_role_defs)
qed

theorem boot_and_confirm_witness:
  "\<exists>h f1 m'. mainThread ideal_driver True demoDevice = (StartApplication h, f1) \<and>
     readBootMetadata (appFlash (updateReadiness (bootloaderApi ideal_driver) (\<not> True)
       (updateReadiness (bootloaderApi ideal_driver) True (startedApp h f1)))) = Some m' \<and>
     confirmedBootAttemptId m' = bootAttemptId m' \<and> firmware_role_from_metadata h = FIRMWARE_ROLE_TX"
proof (rule demoDevice_ready)
  fix m
  assume m: "readBootMetadata demoDevice = Some m" "payload m = payload demoMetadata"
    "journal_ok 1 demoDevice" "\<not> mustUpdate demoDevice m"
  obtain h f1 where b: "mainThread ideal_driver True demoDevice = (StartApplication h, f1)"
    using ideal.mainThread_starts [OF m(1,4)] by blast
  have ids: "confirmedBootAttemptId m \<noteq> bootAttemptId m + 1" "appRole m = APP_ROLE_TX"
    using payload_fields [OF m(2)] by (simp_all add: demoMetadata_def setDefaultMetadata_def)
  from boot_and_confirm [OF ideal.reliable_flash_axioms m(3) _ m(1) ids(1) b refl, of True] b ids(2)
  show ?thesis by auto
qed

end
