(* ===== verification/Cli_Task.thy ===== *)
theory Cli_Task
  imports Cli_Core Boot_Client
begin

text \<open>
  The CLI task of \<open>cli_task_cc1310.c\<close>: the line reader, the \<open>version\<close> and \<open>stack\<close> commands, and the
  start-up messages. The reader works on its 128-character array; the list of tasks that
  SYS/BIOS reports to \<open>stack\<close> is a parameter.
\<close>

section \<open>The line reader\<close>

record line_reader =
  line :: "char list"
  lineLength :: nat
  lineTooLong :: bool

definition isLineEnd :: "char \<Rightarrow> bool" where
  "isLineEnd c \<longleftrightarrow> c = CHR 0x0D \<or> c = CHR 0x0A"

definition cliInput :: "'s CliCommand list \<Rightarrow> char \<Rightarrow> line_reader \<Rightarrow> 's \<Rightarrow> (string \<times> line_reader \<times> 's) option" where
  "cliInput commands input r st =
     (if isLineEnd input then
        (let r' = r\<lparr>lineLength := 0, lineTooLong := False\<rparr> in
         if lineTooLong r then Some (cli_error ''LINE'' ''too_long'', r', st)
         else if lineLength r \<noteq> 0 then
           (case store (line r) (lineLength r) NUL of None \<Rightarrow> None
            | Some l \<Rightarrow>
               (case cli_process_line commands l st of None \<Rightarrow> None
                | Some (out, st') \<Rightarrow> Some (out, r'\<lparr>line := l\<rparr>, st')))
         else Some ([], r', st))
      else if lineLength r < CLI_MAX_LINE_LENGTH - 1 then
        (case store (line r) (lineLength r) input of None \<Rightarrow> None
         | Some l \<Rightarrow> Some ([], r\<lparr>line := l, lineLength := lineLength r + 1\<rparr>, st))
      else Some ([], r\<lparr>lineTooLong := True\<rparr>, st))"

primrec cliLoop :: "'s CliCommand list \<Rightarrow> line_reader \<Rightarrow> string \<Rightarrow> 's \<Rightarrow> (string \<times> 's) option" where
  "cliLoop commands r [] st = Some ([], st)"
| "cliLoop commands r (c # cs) st =
     (case cliInput commands c r st of None \<Rightarrow> None
      | Some (out, r', st') \<Rightarrow>
         (case cliLoop commands r' cs st' of None \<Rightarrow> None
          | Some (others, st'') \<Rightarrow> Some (out @ others, st'')))"

section \<open>The reader on lines\<close>

definition lineResult :: "'s CliCommand list \<Rightarrow> string \<Rightarrow> 's \<Rightarrow> string \<times> 's" where
  "lineResult commands l st =
     (if length l > 127 then (cli_error ''LINE'' ''too_long'', st)
      else if l = [] then ([], st)
      else cliLine commands (takeWhile (\<lambda>c. c \<noteq> NUL) l) st)"

primrec cliLines :: "'s CliCommand list \<Rightarrow> string \<Rightarrow> string \<Rightarrow> 's \<Rightarrow> string \<times> 's" where
  "cliLines commands acc [] st = ([], st)"
| "cliLines commands acc (c # cs) st =
     (if isLineEnd c then
        (case lineResult commands acc st of (out, st') \<Rightarrow>
           case cliLines commands [] cs st' of (others, st'') \<Rightarrow> (out @ others, st''))
      else cliLines commands (acc @ [c]) cs st)"

definition readerHolds :: "line_reader \<Rightarrow> string \<Rightarrow> bool" where
  "readerHolds r acc \<longleftrightarrow> length (line r) = 128 \<and>
     (if length acc \<le> 127 then lineLength r = length acc \<and> take (length acc) (line r) = acc \<and> \<not> lineTooLong r
      else lineLength r = 127 \<and> lineTooLong r)"

lemma stringAt_truncated:
  assumes "take n b = l" "n < length b" "n = length l"
  shows "stringAt (b[n := NUL]) 0 (takeWhile (\<lambda>c. c \<noteq> NUL) l)"
proof -
  have b: "b[n := NUL] = l @ NUL # drop (Suc n) b"
    using assms by (simp add: upd_conv_take_nth_drop)
  have "\<exists>rest. l @ NUL # drop (Suc n) b = takeWhile (\<lambda>c. c \<noteq> NUL) l @ NUL # rest"
  proof (cases "dropWhile (\<lambda>c. c \<noteq> NUL) l")
    case Nil
    then have e: "takeWhile (\<lambda>c. c \<noteq> NUL) l = l" by (metis append_Nil2 takeWhile_dropWhile_id)
    show ?thesis unfolding e by blast
  next
    case (Cons x xs)
    then have "x = NUL" using hd_dropWhile [of "\<lambda>c. c \<noteq> NUL" l] by simp
    then have "l = takeWhile (\<lambda>c. c \<noteq> NUL) l @ NUL # xs" using Cons by (metis takeWhile_dropWhile_id)
    then show ?thesis by (metis append.assoc append_Cons)
  qed
  then show ?thesis unfolding b stringAt_def by (auto dest: set_takeWhileD)
qed

lemma cliInput_end:
  assumes "readerHolds r acc" "isLineEnd c"
  shows "\<exists>r'. cliInput commands c r st = Some (fst (lineResult commands acc st), r', snd (lineResult commands acc st)) \<and>
    readerHolds r' []"
proof (cases "length acc \<le> 127")
  case False
  then show ?thesis
    using assms by (auto simp: readerHolds_def cliInput_def lineResult_def Let_def)
next
  case True
  show ?thesis
  proof (cases "acc = []")
    case True
    then show ?thesis using assms by (auto simp: readerHolds_def cliInput_def lineResult_def Let_def)
  next
    case False
    let ?l = "(line r)[length acc := NUL]"
    from assms(1) True have r: "length (line r) = 128" "lineLength r = length acc"
      "take (length acc) (line r) = acc" "\<not> lineTooLong r" by (simp_all add: readerHolds_def)
    have "stringAt ?l 0 (takeWhile (\<lambda>c. c \<noteq> NUL) acc)"
      using stringAt_truncated [OF r(3)] r(1) True by simp
    note p = cli_process_line_refines [OF this, of commands st]
    have "cliInput commands c r st =
        Some (fst (lineResult commands acc st), r\<lparr>lineLength := 0, lineTooLong := False, line := ?l\<rparr>,
          snd (lineResult commands acc st))"
      using assms(2) True False r p by (auto simp: cliInput_def lineResult_def Let_def split: prod.split)
    then show ?thesis using r(1) by (auto simp: readerHolds_def)
  qed
qed

lemma cliInput_char:
  assumes "readerHolds r acc" "\<not> isLineEnd c"
  shows "\<exists>r'. cliInput commands c r st = Some ([], r', st) \<and> readerHolds r' (acc @ [c])"
proof (cases "length acc < 127")
  case True
  then show ?thesis
    using assms take_update_at [of "length acc" "line r" c]
    by (auto simp: readerHolds_def cliInput_def CLI_MAX_LINE_LENGTH_def)
next
  case False
  then show ?thesis
    using assms by (auto simp: readerHolds_def cliInput_def CLI_MAX_LINE_LENGTH_def split: if_splits)
qed

lemma cliLoop_refines:
  "readerHolds r acc \<Longrightarrow> cliLoop commands r cs st = Some (cliLines commands acc cs st)"
proof (induction cs arbitrary: r acc st)
  case (Cons c cs)
  show ?case
  proof (cases "isLineEnd c")
    case True
    from cliInput_end [OF Cons.prems True, of commands st] obtain r' where
      "cliInput commands c r st = Some (fst (lineResult commands acc st), r', snd (lineResult commands acc st))"
      "readerHolds r' []" by blast
    with Cons.IH [OF this(2)] True show ?thesis by (simp split: prod.splits)
  next
    case False
    from cliInput_char [OF Cons.prems False, of commands st] obtain r' where
      "cliInput commands c r st = Some ([], r', st)" "readerHolds r' (acc @ [c])" by blast
    with Cons.IH [OF this(2)] False show ?thesis by simp
  qed
qed simp

lemma cliLines_line:
  "\<not> list_ex isLineEnd l \<Longrightarrow> isLineEnd e \<Longrightarrow> cliLines commands acc (l @ e # cs) st =
   (case lineResult commands (acc @ l) st of (out, st') \<Rightarrow>
      case cliLines commands [] cs st' of (others, st'') \<Rightarrow> (out @ others, st''))"
  by (induction l arbitrary: acc) auto

section \<open>Commands of the task\<close>

definition FIRMWARE_VERSION :: string where "FIRMWARE_VERSION = ''0.2.1''"

definition version_command :: "string list \<Rightarrow> string" where
  "version_command argv =
     (if length argv \<noteq> 1 then cli_error ''ARG'' ''usage: version''
      else cli_ok (''version='' @ FIRMWARE_VERSION))"

datatype Task_Mode = Task_Mode_RUNNING | Task_Mode_READY | Task_Mode_BLOCKED
  | Task_Mode_TERMINATED | Task_Mode_INACTIVE | Task_Mode_other

fun stack_mode_name :: "Task_Mode \<Rightarrow> string" where
  "stack_mode_name Task_Mode_RUNNING = ''running''"
| "stack_mode_name Task_Mode_READY = ''ready''"
| "stack_mode_name Task_Mode_BLOCKED = ''blocked''"
| "stack_mode_name Task_Mode_TERMINATED = ''terminated''"
| "stack_mode_name Task_Mode_INACTIVE = ''inactive''"
| "stack_mode_name Task_Mode_other = ''unknown''"

datatype task_function = fn_cliThread | fn_firmware_rx_thread | fn_firmware_tx_thread
  | fn_i2c_slave_thread | fn_rf_packet_print_thread | fn_Idle_loop | fn_other

record task_info =
  taskName :: "string option"
  taskFunction :: task_function
  taskPriority :: int
  stackUsed :: u32
  stackSize :: u32
  taskMode :: Task_Mode

definition stack_task_name :: "task_info \<Rightarrow> string" where
  "stack_task_name t =
     (case taskName t of
        Some n \<Rightarrow> if n \<noteq> [] \<and> n \<noteq> ''{unknown-instance-name}'' then n else
          (case taskFunction t of fn_cliThread \<Rightarrow> ''cli'' | fn_firmware_rx_thread \<Rightarrow> ''radio_rx''
           | fn_firmware_tx_thread \<Rightarrow> ''radio_tx'' | fn_i2c_slave_thread \<Rightarrow> ''i2c_slave''
           | fn_rf_packet_print_thread \<Rightarrow> ''packet_print'' | fn_Idle_loop \<Rightarrow> ''idle'' | fn_other \<Rightarrow> ''unnamed'')
      | None \<Rightarrow>
          (case taskFunction t of fn_cliThread \<Rightarrow> ''cli'' | fn_firmware_rx_thread \<Rightarrow> ''radio_rx''
           | fn_firmware_tx_thread \<Rightarrow> ''radio_tx'' | fn_i2c_slave_thread \<Rightarrow> ''i2c_slave''
           | fn_rf_packet_print_thread \<Rightarrow> ''packet_print'' | fn_Idle_loop \<Rightarrow> ''idle'' | fn_other \<Rightarrow> ''unnamed''))"

definition stackPieces :: "task_info \<Rightarrow> string list" where
  "stackPieces t = [''stack: '', stack_task_name t, '' '', intDigits (taskPriority t), '' '',
     natDigits (unat (stackUsed t)), ''/'', natDigits (unat (stackSize t)), '' '',
     natDigits (unat (stackSize t - stackUsed t)), '' '', stack_mode_name (taskMode t)]"

primrec stackLines :: "char list \<Rightarrow> task_info list \<Rightarrow> string option" where
  "stackLines message [] = Some []"
| "stackLines message (t # ts) =
     (case snprintf message 0 96 (stackPieces t) of None \<Rightarrow> None
      | Some (message', _) \<Rightarrow> map_option (\<lambda>rest. cli_ok (cString message' 0) @ rest) (stackLines message' ts))"

definition stack_command :: "char list \<Rightarrow> task_info list \<Rightarrow> string list \<Rightarrow> string option" where
  "stack_command message tasks argv =
     (if length argv \<noteq> 1 then Some (cli_error ''ARG'' ''usage: stack'')
      else map_option (\<lambda>ls. cli_ok ''stack: name priority used/size free mode'' @ ls) (stackLines message tasks))"

text \<open>The two messages sent when the task starts; the array is \<open>readyMessage[80]\<close>.\<close>

definition readyMessages :: "char list \<Rightarrow> FirmwareRole \<Rightarrow> u32 \<Rightarrow> string option" where
  "readyMessages buf role readyCount =
     (case snprintf buf 0 80 [''version='', FIRMWARE_VERSION, '' role='', firmware_role_name role] of
        None \<Rightarrow> None
      | Some (b1, _) \<Rightarrow>
         (case snprintf b1 0 80 [''cli=ready count='', natDigits (unat readyCount), '' commands=help,'',
                 firmware_role_name role, '',bootloader,version,ipc,stack''] of
            None \<Rightarrow> None
          | Some (b2, _) \<Rightarrow> Some (cli_ok (cString b1 0) @ cli_ok (cString b2 0))))"

text \<open>The command table: the slots of \<open>runtimeCommands\<close> after the assignments in \<open>cliThread\<close>.\<close>

definition runtimeCommands ::
  "'s CliCommand \<Rightarrow> 's CliCommand \<Rightarrow> 's CliCommand \<Rightarrow> (string list \<Rightarrow> 's \<Rightarrow> string \<times> 's) \<Rightarrow>
   (string list \<Rightarrow> 's \<Rightarrow> string \<times> 's) \<Rightarrow> FirmwareRole \<Rightarrow> 's CliCommand list" where
  "runtimeCommands cli_tx_command cli_rx_command cli_bootloader_command i2c_slave_cli_command
     stack_handler role =
     [if role = FIRMWARE_ROLE_TX then cli_tx_command else cli_rx_command,
      cli_bootloader_command,
      \<lparr>name = ''version'', usage = ''show firmware version'', handler = (\<lambda>argv st. (version_command argv, st))\<rparr>,
      \<lparr>name = ''ipc'', usage = ''ipc dump on|off'', handler = i2c_slave_cli_command\<rparr>,
      \<lparr>name = ''stack'', usage = ''show SYS/BIOS task stack high-water marks'', handler = stack_handler\<rparr>]"

text \<open>Creating a detached task: the results of the three attribute calls and of \<open>pthread_create\<close>.\<close>

definition startTask :: "int \<Rightarrow> int \<Rightarrow> int \<Rightarrow> int \<Rightarrow> int" where
  "startTask setdetachstate setschedparam setstacksize create =
     (let status = setdetachstate OR setschedparam OR setstacksize in
      if status \<noteq> 0 then -1 else create)"

lemma stackLines_safe:
  assumes "length message = 96"
  shows "\<exists>out. stackLines message ts = Some out"
  using assms
proof (induction ts arbitrary: message)
  case (Cons t ts)
  from snprintf_spec [of 0 96 message "stackPieces t"] Cons.prems obtain m' where
    m': "snprintf message 0 96 (stackPieces t) = Some (m', length (concat (stackPieces t)))" "length m' = 96"
    by auto
  from Cons.IH [OF m'(2)] m'(1) show ?case by auto
qed simp

lemma role_name_not_NUL: "NUL \<notin> set (firmware_role_name role)"
  by (simp add: firmware_role_name_def NUL_def)

section \<open>Properties\<close>

text \<open>C21. The line reader never leaves its array and treats the input line by line: for every input, what
  the task writes and does is the concatenation of the results of its lines (ended by CR or LF);
  a line of more than 127 characters has one error message and no other effect, and an empty
  line none at all.\<close>

theorem reader_processes_lines:
  assumes "length buf = CLI_MAX_LINE_LENGTH"
  shows "cliLoop commands \<lparr>line = buf, lineLength = 0, lineTooLong = False\<rparr> input st =
    Some (cliLines commands [] input st)"
  using assms by (intro cliLoop_refines) (simp add: readerHolds_def CLI_MAX_LINE_LENGTH_def)

theorem reader_processes_lines_witness:
  "cliLoop [] \<lparr>line = replicate 128 NUL, lineLength = 0, lineTooLong = False\<rparr>
     (replicate 500 CHR 0x41 @ [CHR 0x0D]) () = Some (cli_error ''LINE'' ''too_long'', ())"
proof -
  have a: "\<not> list_ex isLineEnd (replicate 500 CHR 0x41)" "isLineEnd CHR 0x0D"
    by (simp_all add: isLineEnd_def list_ex_iff)
  have "cliLines [] [] (replicate 500 CHR 0x41 @ [CHR 0x0D]) () = (cli_error ''LINE'' ''too_long'', ())"
    using cliLines_line [OF a, of "[]" "[]" "[]" "()"] by (simp add: lineResult_def)
  with reader_processes_lines [of "replicate 128 NUL" "[]" "replicate 500 CHR 0x41 @ [CHR 0x0D]" "()"]
  show ?thesis by (simp add: CLI_MAX_LINE_LENGTH_def)
qed

text \<open>The messages of the task fit their buffers: the start-up messages are sent in full for either
  role, whatever the array held, and \<open>stack\<close> writes inside its 96-character array for any list of
  tasks.\<close>

lemma task_messages_fit:
  assumes "length buf = 80" "length message = 96"
  shows "readyMessages buf role 0 =
      Some (cli_ok (''version=0.2.1 role='' @ firmware_role_name role) @
        cli_ok (''cli=ready count=0 commands=help,'' @ firmware_role_name role @ '',bootloader,version,ipc,stack'')) \<and>
    (\<exists>out. stack_command message tasks argv = Some out)"
proof
  let ?p1 = "[''version='', FIRMWARE_VERSION, '' role='', firmware_role_name role]"
  let ?p2 = "[''cli=ready count='', natDigits (unat (0 :: u32)), '' commands=help,'',
                 firmware_role_name role, '',bootloader,version,ipc,stack'']"
  have d: "natDigits 0 = ''0''" by code_simp
  have l: "length (firmware_role_name role) = 2" by (simp add: firmware_role_name_def)
  obtain b1 where b1: "snprintf buf 0 80 ?p1 = Some (b1, length (concat ?p1))" "length b1 = 80"
      "cString b1 0 = concat ?p1"
    using cString_fits [of buf 80 ?p1] assms(1) l role_name_not_NUL [of role]
    by (auto simp: FIRMWARE_VERSION_def NUL_def)
  obtain b2 where b2: "snprintf b1 0 80 ?p2 = Some (b2, length (concat ?p2))" "cString b2 0 = concat ?p2"
    using cString_fits [of b1 80 ?p2] b1(2) l role_name_not_NUL [of role] by (auto simp: NUL_def d)
  from b1 b2 show "readyMessages buf role 0 =
      Some (cli_ok (''version=0.2.1 role='' @ firmware_role_name role) @
        cli_ok (''cli=ready count=0 commands=help,'' @ firmware_role_name role @ '',bootloader,version,ipc,stack''))"
    by (simp add: readyMessages_def FIRMWARE_VERSION_def d)
  show "\<exists>out. stack_command message tasks argv = Some out"
    using stackLines_safe [OF assms(2), of tasks] by (auto simp: stack_command_def)
qed

end
