(* ===== verification/Rf_Queue.thy ===== *)
theory Rf_Queue
  imports Prelude
begin

text \<open>
  The receive queue of the radio (\<open>RFQueue.c\<close>): a ring of data entries laid out in a byte buffer. The
  entry headers are a store from addresses to records; \<open>pNextEntry\<close> and the read pointer are
  addresses. The status and type codes come from the device SDK and are parameters.
\<close>

section \<open>Data and operations\<close>

record rfc_dataEntry =
  pNextEntry :: nat
  status :: u8
  entryType :: u8
  lenSz :: u8
  entryLength :: u16

record dataQueue_t =
  pCurrEntry :: nat
  pLastEntry :: "nat option"

record rf_codes =
  DATA_ENTRY_PENDING :: u8
  DATA_ENTRY_TYPE_GEN :: u8

type_synonym entries = "nat \<Rightarrow> rfc_dataEntry"

definition RF_QUEUE_DATA_ENTRY_HEADER_SIZE :: nat where "RF_QUEUE_DATA_ENTRY_HEADER_SIZE = 8"

definition RF_QUEUE_QUEUE_ALIGN_PADDING :: "nat \<Rightarrow> nat" where
  "RF_QUEUE_QUEUE_ALIGN_PADDING len = 4 - (len + RF_QUEUE_DATA_ENTRY_HEADER_SIZE) mod 4"

definition RF_QUEUE_DATA_ENTRY_BUFFER_SIZE :: "nat \<Rightarrow> nat \<Rightarrow> nat \<Rightarrow> nat" where
  "RF_QUEUE_DATA_ENTRY_BUFFER_SIZE numEntries dataSize appendedBytes =
     numEntries * (RF_QUEUE_DATA_ENTRY_HEADER_SIZE + dataSize + appendedBytes +
       RF_QUEUE_QUEUE_ALIGN_PADDING (dataSize + appendedBytes))"

definition RFQueue_getDataEntry :: "nat \<Rightarrow> nat" where
  "RFQueue_getDataEntry readEntry = readEntry"

definition RFQueue_nextEntry :: "rf_codes \<Rightarrow> entries \<Rightarrow> nat \<Rightarrow> u8 \<times> entries \<times> nat" where
  "RFQueue_nextEntry codes mem readEntry =
     (let mem = mem(readEntry := (mem readEntry)\<lparr>status := DATA_ENTRY_PENDING codes\<rparr>);
          readEntry = pNextEntry (mem readEntry)
      in (status (mem readEntry), mem, readEntry))"

text \<open>One round of the loop that lays out the entries.\<close>

definition defineEntry :: "rf_codes \<Rightarrow> nat \<Rightarrow> u16 \<Rightarrow> nat \<Rightarrow> entries \<Rightarrow> entries" where
  "defineEntry codes buf len pad mem = mem(buf :=
     \<lparr>pNextEntry = buf + 8 + unat len + pad, status = DATA_ENTRY_PENDING codes,
      entryType = DATA_ENTRY_TYPE_GEN codes, lenSz = 0, entryLength = len\<rparr>)"

definition RFQueue_defineQueue ::
  "rf_codes \<Rightarrow> entries \<Rightarrow> dataQueue_t \<Rightarrow> nat \<Rightarrow> nat \<Rightarrow> u16 \<Rightarrow> u8 \<Rightarrow> u16 \<Rightarrow> u8 \<times> entries \<times> dataQueue_t \<times> nat" where
  "RFQueue_defineQueue codes mem queue readEntry buf buf_len numEntries len =
     (let size = RF_QUEUE_DATA_ENTRY_HEADER_SIZE + unat len; n = unat numEntries in
      if unat buf_len < n * (unat len + RF_QUEUE_DATA_ENTRY_HEADER_SIZE + RF_QUEUE_QUEUE_ALIGN_PADDING (unat len))
      then (1, mem, queue, readEntry)
      else
        (let pad = 4 - (unat len + RF_QUEUE_DATA_ENTRY_HEADER_SIZE) mod 4;
             first_entry = buf;
             at = (\<lambda>i. first_entry + i * (size + pad));
             mem = foldl (\<lambda>mem i. defineEntry codes (at i) len pad mem) mem [0..<n];
             buf = (if n = 0 then buf else at (n - 1));
             mem = mem(buf := (mem buf)\<lparr>pNextEntry := first_entry\<rparr>)
         in (0, mem, queue\<lparr>pCurrEntry := first_entry, pLastEntry := None\<rparr>, first_entry)))"

section \<open>The ring\<close>

text \<open>\<open>n\<close> entries of \<open>stride\<close> bytes from \<open>buf\<close> on, each linked to its successor, all with the same length
  and status.\<close>

definition entryAt :: "nat \<Rightarrow> nat \<Rightarrow> nat \<Rightarrow> nat" where
  "entryAt buf stride i = buf + i * stride"

definition ring :: "entries \<Rightarrow> nat \<Rightarrow> nat \<Rightarrow> nat \<Rightarrow> u16 \<Rightarrow> bool" where
  "ring mem buf stride n len \<longleftrightarrow> 0 < n \<and> 8 + unat len < stride \<and>
     (\<forall>i<n. pNextEntry (mem (entryAt buf stride i)) = entryAt buf stride (Suc i mod n) \<and>
            entryLength (mem (entryAt buf stride i)) = len)"

lemma entryAt_inj: "0 < stride \<Longrightarrow> (entryAt buf stride i = entryAt buf stride j) = (i = j)"
  by (simp add: entryAt_def)

lemma defineEntries:
  assumes "stride = 8 + unat len + pad" "0 < stride"
  shows "foldl (\<lambda>mem i. defineEntry codes (buf + i * stride) len pad mem) mem [0..<n] x =
    (if \<exists>i<n. x = entryAt buf stride i
     then \<lparr>pNextEntry = x + stride, status = DATA_ENTRY_PENDING codes,
           entryType = DATA_ENTRY_TYPE_GEN codes, lenSz = 0, entryLength = len\<rparr>
     else mem x)"
proof (induction n)
  case (Suc n)
  then show ?case
    using assms(1) by (auto simp: defineEntry_def entryAt_def less_Suc_eq)
qed simp

lemma defineQueue_ring:
  assumes "RFQueue_defineQueue codes mem queue r buf buf_len numEntries len = (0, mem', queue', r')"
    and "numEntries \<noteq> 0" "stride = 8 + unat len + RF_QUEUE_QUEUE_ALIGN_PADDING (unat len)"
  shows "ring mem' buf stride (unat numEntries) len"
    "\<And>i. i < unat numEntries \<Longrightarrow> status (mem' (entryAt buf stride i)) = DATA_ENTRY_PENDING codes"
    "r' = buf" "pCurrEntry queue' = buf" "unat numEntries * stride \<le> unat buf_len"
proof -
  let ?n = "unat numEntries"
  let ?pad = "4 - (unat len + 8) mod 4"
  have n: "0 < ?n" using assms(2) by (simp add: unat_gt_0)
  have pad: "0 < ?pad" "RF_QUEUE_QUEUE_ALIGN_PADDING (unat len) = ?pad"
    by (simp_all add: RF_QUEUE_QUEUE_ALIGN_PADDING_def RF_QUEUE_DATA_ENTRY_HEADER_SIZE_def)
  have s: "stride = 8 + unat len + ?pad" "0 < stride" using assms(3) pad by simp_all
  let ?m = "foldl (\<lambda>mem i. defineEntry codes (buf + i * stride) len ?pad mem) mem [0..<?n]"
  let ?last = "entryAt buf stride (?n - 1)"
  from assms(1) n have res: "mem' = ?m(?last := (?m ?last)\<lparr>pNextEntry := buf\<rparr>)" "r' = buf"
    "pCurrEntry queue' = buf" "?n * stride \<le> unat buf_len"
    by (auto simp: RFQueue_defineQueue_def Let_def RF_QUEUE_DATA_ENTRY_HEADER_SIZE_def entryAt_def s(1) pad(2)
        add.commute add.left_commute split: if_splits)
  then show "r' = buf" "pCurrEntry queue' = buf" "?n * stride \<le> unat buf_len" by simp_all
  have ent: "?m (entryAt buf stride i) = \<lparr>pNextEntry = entryAt buf stride i + stride,
      status = DATA_ENTRY_PENDING codes, entryType = DATA_ENTRY_TYPE_GEN codes, lenSz = 0, entryLength = len\<rparr>"
    if "i < ?n" for i
    using that by (subst defineEntries [OF s]) auto
  have inj: "(entryAt buf stride i = ?last) = (i = ?n - 1)" for i using entryAt_inj [OF s(2)] by blast
  show "status (mem' (entryAt buf stride i)) = DATA_ENTRY_PENDING codes" if "i < ?n" for i
    using ent [OF that] ent [of "?n - 1"] n by (simp add: res(1))
  have "pNextEntry (mem' (entryAt buf stride i)) = entryAt buf stride (Suc i mod ?n) \<and>
      entryLength (mem' (entryAt buf stride i)) = len" if "i < ?n" for i
  proof (cases "i = ?n - 1")
    case True
    then have "Suc i mod ?n = 0" using n by simp
    with True ent [OF that] show ?thesis by (simp add: res(1) entryAt_def)
  next
    case False
    then have "Suc i mod ?n = Suc i" using that by simp
    with False ent [OF that] inj show ?thesis by (simp add: res(1)) (simp add: entryAt_def)
  qed
  with n s pad show "ring mem' buf stride ?n len" by (simp add: ring_def)
qed

lemma nextEntry_ring:
  assumes "ring mem buf stride n len" "i < n"
    and "RFQueue_nextEntry codes mem (entryAt buf stride i) = (st, mem', r')"
  shows "ring mem' buf stride n len" "r' = entryAt buf stride (Suc i mod n)"
    "mem' = mem(entryAt buf stride i := (mem (entryAt buf stride i))\<lparr>status := DATA_ENTRY_PENDING codes\<rparr>)"
proof -
  from assms(3) show m: "mem' = mem(entryAt buf stride i :=
      (mem (entryAt buf stride i))\<lparr>status := DATA_ENTRY_PENDING codes\<rparr>)"
    by (simp add: RFQueue_nextEntry_def Let_def)
  then have "pNextEntry (mem' x) = pNextEntry (mem x)" "entryLength (mem' x) = entryLength (mem x)" for x
    by simp_all
  then show "ring mem' buf stride n len" using assms(1) by (simp add: ring_def)
  show "r' = entryAt buf stride (Suc i mod n)"
    using assms by (simp add: RFQueue_nextEntry_def Let_def ring_def)
qed

text \<open>\<open>k\<close> entries are returned one after the other.\<close>

primrec returnEntries :: "rf_codes \<Rightarrow> nat \<Rightarrow> entries \<Rightarrow> nat \<Rightarrow> entries \<times> nat" where
  "returnEntries codes 0 mem r = (mem, r)"
| "returnEntries codes (Suc k) mem r =
     (case RFQueue_nextEntry codes mem r of (_, mem', r') \<Rightarrow> returnEntries codes k mem' r')"

lemma returnEntries_ring:
  assumes "ring mem buf stride n len" "i < n"
  shows "ring (fst (returnEntries codes k mem (entryAt buf stride i))) buf stride n len \<and>
    snd (returnEntries codes k mem (entryAt buf stride i)) = entryAt buf stride ((i + k) mod n)"
  using assms
proof (induction k arbitrary: mem i)
  case (Suc k)
  obtain st mem' r' where e: "RFQueue_nextEntry codes mem (entryAt buf stride i) = (st, mem', r')"
    by (metis prod_cases3)
  note nx = nextEntry_ring [OF Suc.prems e]
  have "Suc i mod n < n" using Suc.prems(2) by simp
  from Suc.IH [OF nx(1) this] nx(2) e show ?case by (simp add: mod_add_left_eq)
qed simp

section \<open>Properties\<close>


definition blankEntries :: entries where
  "blankEntries = (\<lambda>_. \<lparr>pNextEntry = 0, status = 1, entryType = 1, lenSz = 1, entryLength = 0\<rparr>)"


end
