(* ===== verification/Packet_Queue.thy ===== *)
theory Packet_Queue
  imports Cli_Core "HOL-Library.Sublist"
begin

text \<open>
  The software packet queue of the receiver (\<open>rf_packet_queue.c\<close>) and the \<open>rx\<close> command
  (\<open>cli_radio.c\<close>). The SYS/BIOS mailbox is a parameter: its operations are a record, and the locale
  \<open>mailbox\<close> states that it is a bounded first-in first-out queue. Counters keep their width; RSSI
  values are signed integers in the range of \<open>int8_t\<close>.
\<close>

section \<open>Data\<close>

definition RF_PACKET_QUEUE_PAYLOAD_MAX :: nat where "RF_PACKET_QUEUE_PAYLOAD_MAX = 30"
definition RF_PACKET_QUEUE_DEPTH :: nat where "RF_PACKET_QUEUE_DEPTH = 32"

record RfPacketMessage =
  sequence :: u32
  timestampTicks :: u32
  messageData :: "u8 list"

record RfPacketStats =
  radioReceived :: u32
  radioQueued :: u32
  appQueueDropped :: u32
  rxBufferFull :: u32
  crcErrors :: u32
  collisions :: u32
  rssiSamples :: u32
  rssiLast :: int
  rssiMin :: int
  rssiMax :: int

record 'b mailbox_ops =
  Mailbox_construct :: "nat \<Rightarrow> 'b"
  Mailbox_post :: "RfPacketMessage \<Rightarrow> 'b \<Rightarrow> bool \<times> 'b"
  Mailbox_pend :: "'b \<Rightarrow> RfPacketMessage option \<times> 'b"

record 'b packet_queue =
  packetMailbox :: "'b option"
  nextSequence :: u32
  packetDumpEnabled :: bool
  packetStats :: RfPacketStats

definition initialStats :: RfPacketStats where
  "initialStats = \<lparr>radioReceived = 0, radioQueued = 0, appQueueDropped = 0, rxBufferFull = 0,
     crcErrors = 0, collisions = 0, rssiSamples = 0, rssiLast = -128, rssiMin = 127, rssiMax = -128\<rparr>"

definition initialQueue :: "'b packet_queue" where
  "initialQueue = \<lparr>packetMailbox = None, nextSequence = 0, packetDumpEnabled = False, packetStats = initialStats\<rparr>"

section \<open>Operations\<close>

text \<open>A message holds the first \<open>length\<close> bytes at the payload pointer; \<open>data\<close> is the memory from there on.\<close>

definition post_packet :: "'b mailbox_ops \<Rightarrow> u8 list \<Rightarrow> u8 \<Rightarrow> u32 \<Rightarrow> 'b packet_queue \<Rightarrow> 'b packet_queue" where
  "post_packet ops data len ticks q =
     (case packetMailbox q of
        None \<Rightarrow> q
      | Some mb \<Rightarrow>
         (let n = (if unat len > RF_PACKET_QUEUE_PAYLOAD_MAX then RF_PACKET_QUEUE_PAYLOAD_MAX else unat len);
              message = \<lparr>sequence = nextSequence q, timestampTicks = ticks, messageData = take n data\<rparr>;
              stats = (packetStats q)\<lparr>radioReceived := radioReceived (packetStats q) + 1\<rparr>;
              q = q\<lparr>nextSequence := nextSequence q + 1\<rparr> in
          case Mailbox_post ops message mb of (posted, mb') \<Rightarrow>
            q\<lparr>packetMailbox := Some mb', packetStats :=
              (if posted then stats\<lparr>radioQueued := radioQueued stats + 1\<rparr>
               else stats\<lparr>appQueueDropped := appQueueDropped stats + 1\<rparr>)\<rparr>))"

definition rf_packet_queue_init :: "'b mailbox_ops \<Rightarrow> 'b packet_queue \<Rightarrow> 'b packet_queue" where
  "rf_packet_queue_init ops q = q\<lparr>packetMailbox := Some (Mailbox_construct ops RF_PACKET_QUEUE_DEPTH)\<rparr>"

definition rf_packet_queue_post_radio :: "'b mailbox_ops \<Rightarrow> u8 list \<Rightarrow> u8 \<Rightarrow> u32 \<Rightarrow> 'b packet_queue \<Rightarrow> 'b packet_queue" where
  "rf_packet_queue_post_radio ops data len ticks q = post_packet ops data len ticks q"

definition rf_packet_queue_note_rx_buf_full :: "'b packet_queue \<Rightarrow> 'b packet_queue" where
  "rf_packet_queue_note_rx_buf_full q =
     q\<lparr>packetStats := (packetStats q)\<lparr>rxBufferFull := rxBufferFull (packetStats q) + 1\<rparr>\<rparr>"

definition rf_packet_queue_note_rssi :: "int \<Rightarrow> int \<Rightarrow> 'b packet_queue \<Rightarrow> 'b packet_queue" where
  "rf_packet_queue_note_rssi RF_GET_RSSI_ERROR_VAL rssi q =
     (if rssi = RF_GET_RSSI_ERROR_VAL then q
      else
        (let s = (packetStats q)\<lparr>rssiLast := rssi\<rparr>;
             s = (if rssi < rssiMin s then s\<lparr>rssiMin := rssi\<rparr> else s);
             s = (if rssi > rssiMax s then s\<lparr>rssiMax := rssi\<rparr> else s)
         in q\<lparr>packetStats := s\<lparr>rssiSamples := rssiSamples s + 1\<rparr>\<rparr>))"

definition rf_packet_queue_note_crc_error :: "int \<Rightarrow> int \<Rightarrow> 'b packet_queue \<Rightarrow> 'b packet_queue" where
  "rf_packet_queue_note_crc_error RF_GET_RSSI_ERROR_VAL rssi q =
     rf_packet_queue_note_rssi RF_GET_RSSI_ERROR_VAL rssi
       (q\<lparr>packetStats := (packetStats q)\<lparr>crcErrors := crcErrors (packetStats q) + 1\<rparr>\<rparr>)"

definition rf_packet_queue_note_collision :: "'b packet_queue \<Rightarrow> 'b packet_queue" where
  "rf_packet_queue_note_collision q =
     q\<lparr>packetStats := (packetStats q)\<lparr>collisions := collisions (packetStats q) + 1\<rparr>\<rparr>"

definition rf_packet_queue_get_stats :: "'b packet_queue \<Rightarrow> RfPacketStats" where
  "rf_packet_queue_get_stats q = packetStats q"

definition rf_packet_dump_set :: "bool \<Rightarrow> 'b packet_queue \<Rightarrow> 'b packet_queue" where
  "rf_packet_dump_set enabled q = q\<lparr>packetDumpEnabled := enabled\<rparr>"

definition rf_packet_dump_get :: "'b packet_queue \<Rightarrow> bool" where
  "rf_packet_dump_get q = packetDumpEnabled q"

section \<open>The consumer\<close>

text \<open>\<open>print_packet\<close>: the header by \<open>snprintf\<close>, then two hexadecimal digits per byte while there is room,
  then the line end if there is room. The result is what goes to the UART.\<close>

definition hexUpper :: "nat \<Rightarrow> char" where
  "hexUpper d = char_of (if d < 10 then 48 + d else 55 + d)"

definition hexByte :: "u8 \<Rightarrow> string" where
  "hexByte b = [hexUpper (unat b div 16), hexUpper (unat b mod 16)]"

fun printBytes :: "char list \<Rightarrow> nat \<Rightarrow> u8 list \<Rightarrow> (char list \<times> nat) option" where
  "printBytes line offset [] = Some (line, offset)"
| "printBytes line offset (b # bs) =
     (if offset + 2 < length line then
        (case snprintf line offset (length line - offset) [hexByte b] of None \<Rightarrow> None
         | Some (line', n) \<Rightarrow> printBytes line' (offset + n) bs)
      else Some (line, offset))"

definition packetHeader :: "RfPacketMessage \<Rightarrow> string list" where
  "packetHeader m = [''RX seq='', natDigits (unat (sequence m)), '' tick='', natDigits (unat (timestampTicks m)),
     '' len='', natDigits (length (messageData m)), '' data='']"

definition print_packet :: "char list \<Rightarrow> RfPacketMessage \<Rightarrow> string option" where
  "print_packet line m =
     (case snprintf line 0 (length line) (packetHeader m) of None \<Rightarrow> None
      | Some (l1, offset) \<Rightarrow>
         (case printBytes l1 offset (messageData m) of None \<Rightarrow> None
          | Some (l2, offset) \<Rightarrow>
             (if offset + 2 < length line then
                (case store l2 offset (CHR 0x0D) of None \<Rightarrow> None
                 | Some l3 \<Rightarrow>
                    (case store l3 (offset + 1) (CHR 0x0A) of None \<Rightarrow> None
                     | Some l4 \<Rightarrow> Some (take (offset + 2) l4)))
              else Some (take offset l2))))"

definition statsPieces :: "RfPacketStats \<Rightarrow> string list" where
  "statsPieces s = [''RFSTAT rx='', natDigits (unat (radioReceived s)), '' enq='', natDigits (unat (radioQueued s)),
     '' appdrop='', natDigits (unat (appQueueDropped s)), '' rxfu='', natDigits (unat (rxBufferFull s)),
     '' crc='', natDigits (unat (crcErrors s)), '' coll='', natDigits (unat (collisions s)),
     '' rssi='', intDigits (rssiLast s), ''['', intDigits (rssiMin s), '','', intDigits (rssiMax s),
     ''] n='', natDigits (unat (rssiSamples s)), crlf]"

definition print_stats :: "char list \<Rightarrow> 'b packet_queue \<Rightarrow> string option" where
  "print_stats line q =
     (case snprintf line 0 160 (statsPieces (rf_packet_queue_get_stats q)) of None \<Rightarrow> None
      | Some (l, n) \<Rightarrow>
         (if n > 0 then Some (take (if n \<ge> 160 then 160 - 1 else n) l) else Some []))"

text \<open>One round of \<open>rf_packet_print_thread\<close> with statistics printing disabled, as it is built.\<close>

definition printRound :: "'b mailbox_ops \<Rightarrow> char list \<Rightarrow> 'b packet_queue \<Rightarrow> (string \<times> RfPacketMessage option \<times> 'b packet_queue) option" where
  "printRound ops line q =
     (case packetMailbox q of
        None \<Rightarrow> None
      | Some mb \<Rightarrow>
         (case Mailbox_pend ops mb of
            (None, mb') \<Rightarrow> Some ([], None, q\<lparr>packetMailbox := Some mb'\<rparr>)
          | (Some m, mb') \<Rightarrow>
             (if rf_packet_dump_get q then
                map_option (\<lambda>out. (out, Some m, q\<lparr>packetMailbox := Some mb'\<rparr>)) (print_packet line m)
              else Some ([], Some m, q\<lparr>packetMailbox := Some mb'\<rparr>))))"

section \<open>The rx command\<close>

definition radio_usage :: string where
  "radio_usage = cli_error ''ARG'' ''usage: rx status | rx dump on|off''"

definition statusPieces :: "RfPacketStats \<Rightarrow> bool \<Rightarrow> string list" where
  "statusPieces s dump = [''rx='', natDigits (unat (radioReceived s)), '' enq='', natDigits (unat (radioQueued s)),
     '' drop='', natDigits (unat (appQueueDropped s)), '' full='', natDigits (unat (rxBufferFull s)),
     '' crc='', natDigits (unat (crcErrors s)), '' coll='', natDigits (unat (collisions s)),
     '' rssi='', intDigits (rssiLast s), ''['', intDigits (rssiMin s), '','', intDigits (rssiMax s),
     ''] samples='', natDigits (unat (rssiSamples s)), '' dump='', if dump then ''on'' else ''off'']"

definition radio_status :: "char list \<Rightarrow> 'b packet_queue \<Rightarrow> string option" where
  "radio_status response q =
     (case snprintf response 0 156 (statusPieces (rf_packet_queue_get_stats q) (rf_packet_dump_get q)) of
        None \<Rightarrow> None
      | Some (r, _) \<Rightarrow> Some (cli_ok (cString r 0)))"

definition radio_command :: "char list \<Rightarrow> string list \<Rightarrow> 'b packet_queue \<Rightarrow> (string \<times> 'b packet_queue) option" where
  "radio_command response argv q =
     (if length argv = 2 \<and> argv ! 1 = ''status'' then map_option (\<lambda>out. (out, q)) (radio_status response q)
      else if length argv = 3 \<and> argv ! 1 = ''dump'' then
        (if argv ! 2 = ''on'' then Some (cli_ok ''rx_dump=on'', rf_packet_dump_set True q)
         else if argv ! 2 = ''off'' then Some (cli_ok ''rx_dump=off'', rf_packet_dump_set False q)
         else Some (radio_usage, q))
      else Some (radio_usage, q))"

section \<open>The mailbox contract\<close>

locale mailbox =
  fixes ops :: "'b mailbox_ops" and contents :: "'b \<Rightarrow> RfPacketMessage list" and depth :: "'b \<Rightarrow> nat"
  assumes construct: "contents (Mailbox_construct ops n) = []" "depth (Mailbox_construct ops n) = n"
    and post: "Mailbox_post ops m b = (posted, b') \<Longrightarrow>
      posted = (length (contents b) < depth b) \<and> depth b' = depth b \<and>
      contents b' = (if posted then contents b @ [m] else contents b)"
    and pend: "Mailbox_pend ops b = (r, b') \<Longrightarrow> depth b' = depth b \<and>
      (case contents b of [] \<Rightarrow> r = None \<and> contents b' = [] | m # ms \<Rightarrow> r = Some m \<and> contents b' = ms)"

definition list_mailbox :: "(nat \<times> RfPacketMessage list) mailbox_ops" where
  "list_mailbox = \<lparr>Mailbox_construct = (\<lambda>n. (n, [])),
     Mailbox_post = (\<lambda>m (n, ms). if length ms < n then (True, (n, ms @ [m])) else (False, (n, ms))),
     Mailbox_pend = (\<lambda>(n, ms). case ms of [] \<Rightarrow> (None, (n, [])) | m # r \<Rightarrow> (Some m, (n, r)))\<rparr>"

interpretation list_mailbox: mailbox list_mailbox snd fst
  by unfold_locales (auto simp: list_mailbox_def split: prod.splits if_splits list.splits)

text \<open>Radio packets and rounds of the consumer, in the order in which they happen.\<close>

datatype queue_event = Packet "u8 list" u8 u32 | Consume

primrec runQueue :: "'b mailbox_ops \<Rightarrow> queue_event list \<Rightarrow> 'b packet_queue \<Rightarrow> RfPacketMessage list \<times> 'b packet_queue" where
  "runQueue ops [] q = ([], q)"
| "runQueue ops (e # es) q =
     (case e of
        Packet d l t \<Rightarrow> runQueue ops es (rf_packet_queue_post_radio ops d l t q)
      | Consume \<Rightarrow>
         (case printRound ops (replicate 160 NUL) q of
            None \<Rightarrow> runQueue ops es q
          | Some (out, r, q') \<Rightarrow>
             (case runQueue ops es q' of (ds, q'') \<Rightarrow> ((case r of None \<Rightarrow> ds | Some m \<Rightarrow> m # ds), q''))))"

text \<open>The messages the radio produces, numbered in order.\<close>

fun messagesOf :: "u32 \<Rightarrow> queue_event list \<Rightarrow> RfPacketMessage list" where
  "messagesOf n [] = []"
| "messagesOf n (Packet d l t # es) =
     \<lparr>sequence = n, timestampTicks = t,
      messageData = take (min (unat l) RF_PACKET_QUEUE_PAYLOAD_MAX) d\<rparr> # messagesOf (n + 1) es"
| "messagesOf n (Consume # es) = messagesOf n es"

section \<open>Printing\<close>

lemma snprintf_at:
  assumes "take p line = pre" "p + length (concat pieces) < length line" "length pre = p"
  shows "\<exists>line'. snprintf line p (length line - p) pieces = Some (line', length (concat pieces)) \<and>
    length line' = length line \<and> take (p + length (concat pieces)) line' = pre @ concat pieces"
proof -
  let ?n = "length line - p"
  have "0 < ?n" "p + ?n \<le> length line" using assms(2) by simp_all
  from snprintf_spec [OF this(2,1), of pieces] obtain line' where
    l: "snprintf line p ?n pieces = Some (line', length (concat pieces))" "length line' = length line"
      "take p line' = take p line" "take (min (?n - 1) (length (concat pieces))) (drop p line') = take (?n - 1) (concat pieces)"
    by blast
  have fit: "min (?n - 1) (length (concat pieces)) = length (concat pieces)" "take (?n - 1) (concat pieces) = concat pieces"
    using assms(2) by simp_all
  have "take (p + length (concat pieces)) line' = take p line' @ take (length (concat pieces)) (drop p line')"
    by (simp add: take_add)
  with l fit assms(1) show ?thesis by metis
qed

lemma length_hexByte [simp]: "length (hexByte b) = 2"
  by (simp add: hexByte_def)

lemma printBytes_all:
  assumes "take p line = pre" "length pre = p" "p + 2 * length bs < length line"
  shows "\<exists>line'. printBytes line p bs = Some (line', p + 2 * length bs) \<and> length line' = length line \<and>
    take (p + 2 * length bs) line' = pre @ concat (map hexByte bs)"
  using assms
proof (induction bs arbitrary: line p pre)
  case (Cons b bs)
  have "p + length (concat [hexByte b]) < length line" using Cons.prems(3) by simp
  from snprintf_at [OF Cons.prems(1) this Cons.prems(2)] obtain l1 where
    l1: "snprintf line p (length line - p) [hexByte b] = Some (l1, 2)" "length l1 = length line"
      "take (p + 2) l1 = pre @ hexByte b" by auto
  have "length (pre @ hexByte b) = p + 2" "p + 2 + 2 * length bs < length l1"
    using Cons.prems l1(2) by simp_all
  from Cons.IH [OF l1(3) this] obtain l2 where
    "printBytes l1 (p + 2) bs = Some (l2, p + 2 + 2 * length bs)" "length l2 = length line"
    "take (p + 2 + 2 * length bs) l2 = (pre @ hexByte b) @ concat (map hexByte bs)" using l1(2) by metis
  with l1(1) Cons.prems(3) show ?case by (simp add: add.assoc)
qed simp

lemma length_natDigits_u32: "length (natDigits (unat (w :: u32))) \<le> 10"
  using length_natDigits [of "unat w" 9] unat_u32_less [of w] by simp

lemma length_intDigits_i8: "-128 \<le> i \<Longrightarrow> i \<le> 127 \<Longrightarrow> length (intDigits i) \<le> 4"
proof -
  assume a: "-128 \<le> i" "i \<le> 127"
  show ?thesis
  proof (cases "i < 0")
    case True
    with a length_natDigits [of "nat (- i)" 2] show ?thesis by (simp add: intDigits_def)
  next
    case False
    have "nat i < 10 ^ Suc 2" using a by simp
    with False length_natDigits [of "nat i" 2] show ?thesis by (simp add: intDigits_def)
  qed
qed

lemma print_packet_all:
  assumes "length line = 160" "length (messageData m) \<le> 30"
  shows "print_packet line m = Some (concat (packetHeader m) @ concat (map hexByte (messageData m)) @ crlf)"
proof -
  let ?h = "concat (packetHeader m)"
  have "length (natDigits (length (messageData m))) \<le> 2"
    using length_natDigits [of "length (messageData m)" 1] assms(2) by simp
  then have h: "length ?h \<le> 46"
    using length_natDigits_u32 [of "sequence m"] length_natDigits_u32 [of "timestampTicks m"]
    by (simp add: packetHeader_def)
  have "take 0 line = []" "0 + length ?h < length line" using h assms(1) by simp_all
  from snprintf_at [OF this] obtain l1 where
    l1: "snprintf line 0 160 (packetHeader m) = Some (l1, length ?h)" "length l1 = 160" "take (length ?h) l1 = ?h"
    using assms(1) by auto
  let ?n = "length ?h + 2 * length (messageData m)"
  have "length ?h + 2 * length (messageData m) < length l1" using h assms(2) l1(2) by simp
  from printBytes_all [OF l1(3) refl this] obtain l2 where
    l2: "printBytes l1 (length ?h) (messageData m) = Some (l2, ?n)" "length l2 = 160"
      "take ?n l2 = ?h @ concat (map hexByte (messageData m))" using l1(2) by auto
  have n: "?n + 2 < 160" using h assms(2) by simp
  have "take (?n + 2) (l2[?n := CHR 0x0D, ?n + 1 := CHR 0x0A]) = take ?n l2 @ crlf"
    using n l2(2) by (simp add: crlf_def take_Suc_conv_app_nth list_update_swap)
  with l1 l2 n assms(1) show ?thesis by (simp add: print_packet_def)
qed

section \<open>Accounting\<close>

definition rssiOk :: "RfPacketStats \<Rightarrow> bool" where
  "rssiOk s \<longleftrightarrow> {rssiLast s, rssiMin s, rssiMax s} \<subseteq> {-128..127}"

text \<open>The state of the queue that has received \<open>n\<close> packets of which it has accepted \<open>k\<close>.\<close>

definition accounted :: "'b packet_queue \<Rightarrow> nat \<Rightarrow> nat \<Rightarrow> bool" where
  "accounted q n k \<longleftrightarrow> radioReceived (packetStats q) = of_nat n \<and> radioQueued (packetStats q) = of_nat k \<and>
     radioReceived (packetStats q) = radioQueued (packetStats q) + appQueueDropped (packetStats q)"

lemma subseq_insert: "subseq xs (as @ bs) \<Longrightarrow> subseq xs (as @ b # bs)"
  by (meson list_emb_Cons subseq_order.trans subseq_order.refl list_emb_append_mono)

lemma messagesOf_data: "m \<in> set (messagesOf n es) \<Longrightarrow> length (messageData m) \<le> 30"
  by (induction n es rule: messagesOf.induct) (auto simp: RF_PACKET_QUEUE_PAYLOAD_MAX_def)

text \<open>What the statistics say about the samples so far.\<close>

definition rssiSummary :: "int \<Rightarrow> int list \<Rightarrow> RfPacketStats \<Rightarrow> bool" where
  "rssiSummary err ss s \<longleftrightarrow> (let g = filter (\<lambda>r. r \<noteq> err) ss in
     rssiMin s = Min (insert 127 (set g)) \<and> rssiMax s = Max (insert (-128) (set g)) \<and>
     rssiLast s = (if g = [] then -128 else last g) \<and> rssiSamples s = of_nat (length g))"

lemma note_rssi_fields:
  "r \<noteq> err \<Longrightarrow> rssiMin (packetStats (rf_packet_queue_note_rssi err r q)) = min r (rssiMin (packetStats q)) \<and>
    rssiMax (packetStats (rf_packet_queue_note_rssi err r q)) = max r (rssiMax (packetStats q)) \<and>
    rssiLast (packetStats (rf_packet_queue_note_rssi err r q)) = r \<and>
    rssiSamples (packetStats (rf_packet_queue_note_rssi err r q)) = rssiSamples (packetStats q) + 1"
  by (simp add: rf_packet_queue_note_rssi_def Let_def min_def max_def)

lemma note_rssi_summary:
  assumes "rssiSummary err ss (packetStats q)"
  shows "rssiSummary err (ss @ [r]) (packetStats (rf_packet_queue_note_rssi err r q))"
proof (cases "r = err")
  case True
  with assms show ?thesis by (simp add: rssiSummary_def rf_packet_queue_note_rssi_def)
next
  case False
  let ?g = "filter (\<lambda>r. r \<noteq> err) ss"
  have "Min (insert 127 (set (?g @ [r]))) = min r (Min (insert 127 (set ?g)))"
    "Max (insert (-128) (set (?g @ [r]))) = max r (Max (insert (-128) (set ?g)))"
    using Min_insert [of "insert 127 (set ?g)" r] Max_insert [of "insert (-128) (set ?g)" r]
    by (simp_all add: insert_commute)
  with assms False note_rssi_fields [OF False, of q] show ?thesis
    unfolding rssiSummary_def by (simp add: Let_def)
qed

context mailbox
begin

lemma printRound_mailbox:
  assumes "packetMailbox q = Some b" "\<forall>m\<in>set (contents b). length (messageData m) \<le> 30"
  shows "\<exists>out r b'. printRound ops (replicate 160 NUL) q = Some (out, r, q\<lparr>packetMailbox := Some b'\<rparr>) \<and>
    depth b' = depth b \<and>
    (case contents b of [] \<Rightarrow> r = None \<and> contents b' = [] | m # ms \<Rightarrow> r = Some m \<and> contents b' = ms)"
proof -
  obtain r b' where p: "Mailbox_pend ops b = (r, b')" by fastforce
  note c = pend [OF p]
  show ?thesis
  proof (cases r)
    case None
    with p c assms show ?thesis by (auto simp: printRound_def)
  next
    case (Some m)
    then have "length (messageData m) \<le> 30" using c assms(2) by (auto split: list.splits)
    then have "\<exists>out. print_packet (replicate 160 NUL) m = Some out" using print_packet_all by auto
    with p c Some assms show ?thesis by (auto simp: printRound_def)
  qed
qed

lemma runQueue_account:
  assumes "runQueue ops es q = (ds, q')" "packetMailbox q = Some b" "depth b = 32" "length (contents b) \<le> 32"
    and "accounted q n (k + length (contents b))" "\<forall>m\<in>set (contents b). length (messageData m) \<le> 30"
  shows "\<exists>b'. packetMailbox q' = Some b' \<and> length (contents b') \<le> 32 \<and>
    subseq (ds @ contents b') (contents b @ messagesOf (nextSequence q) es) \<and>
    accounted q' (n + length (messagesOf (nextSequence q) es)) (k + length (ds @ contents b'))"
  using assms
proof (induction es arbitrary: q b n k ds)
  case Nil
  then show ?case by auto
next
  case (Cons e es)
  show ?case
  proof (cases e)
    case (Packet d l t)
    let ?m = "\<lparr>sequence = nextSequence q, timestampTicks = t,
      messageData = take (min (unat l) RF_PACKET_QUEUE_PAYLOAD_MAX) d\<rparr>"
    obtain posted b1 where p: "Mailbox_post ops ?m b = (posted, b1)" by fastforce
    note pc = post [OF p]
    let ?q1 = "rf_packet_queue_post_radio ops d l t q"
    have n: "(if unat l > RF_PACKET_QUEUE_PAYLOAD_MAX then RF_PACKET_QUEUE_PAYLOAD_MAX else unat l) =
        min (unat l) RF_PACKET_QUEUE_PAYLOAD_MAX" by (simp add: min_def)
    have q1: "packetMailbox ?q1 = Some b1" "nextSequence ?q1 = nextSequence q + 1"
      "accounted ?q1 (Suc n) (k + length (contents b1))"
      using Cons.prems(2,5) p pc
      by (auto simp: rf_packet_queue_post_radio_def post_packet_def n Let_def accounted_def
          add.assoc)
    have small: "\<forall>m\<in>set (contents b1). length (messageData m) \<le> 30" "length (contents b1) \<le> 32" "depth b1 = 32"
      using pc Cons.prems(3,4,6) by (auto simp: RF_PACKET_QUEUE_PAYLOAD_MAX_def)
    from Cons.prems(1) Packet have run: "runQueue ops es ?q1 = (ds, q')" by simp
    from Cons.IH [OF run q1(1) small(3,2) q1(3) small(1)] obtain b' where
      b': "packetMailbox q' = Some b'" "length (contents b') \<le> 32"
        "subseq (ds @ contents b') (contents b1 @ messagesOf (nextSequence q + 1) es)"
        "accounted q' (Suc n + length (messagesOf (nextSequence q + 1) es)) (k + length (ds @ contents b'))"
      unfolding q1(2) by blast
    have "subseq (ds @ contents b') (contents b @ messagesOf (nextSequence q) (e # es))"
      using b'(3) pc Packet subseq_insert [of "ds @ contents b'" "contents b" "messagesOf (nextSequence q + 1) es" ?m]
      by (cases posted) auto
    with b' Packet show ?thesis by auto
  next
    case Consume
    from printRound_mailbox [OF Cons.prems(2,6)] obtain out r b1 where
      p: "printRound ops (replicate 160 NUL) q = Some (out, r, q\<lparr>packetMailbox := Some b1\<rparr>)" "depth b1 = depth b"
        "case contents b of [] \<Rightarrow> r = None \<and> contents b1 = [] | m # ms \<Rightarrow> r = Some m \<and> contents b1 = ms" by blast
    let ?q1 = "q\<lparr>packetMailbox := Some b1\<rparr>"
    from Cons.prems(1) Consume p(1) obtain ds1 where run: "runQueue ops es ?q1 = (ds1, q')"
      and ds: "ds = (case r of None \<Rightarrow> ds1 | Some m \<Rightarrow> m # ds1)" by (auto split: prod.splits)
    define k1 where "k1 = k + (length (contents b) - length (contents b1))"
    have c: "contents b = (case r of None \<Rightarrow> [] | Some m \<Rightarrow> [m]) @ contents b1"
      using p(3) by (auto split: list.splits)
    have "k1 + length (contents b1) = k + length (contents b)" using c by (simp add: k1_def)
    then have acc: "accounted ?q1 n (k1 + length (contents b1))"
      using Cons.prems(5) by (auto simp: accounted_def simp del: of_nat_add)
    from Cons.IH [OF run _ _ _ acc] p(2) Cons.prems(3,4,6) c obtain b' where
      b': "packetMailbox q' = Some b'" "length (contents b') \<le> 32"
        "subseq (ds1 @ contents b') (contents b1 @ messagesOf (nextSequence q) es)"
        "accounted q' (n + length (messagesOf (nextSequence q) es)) (k1 + length (ds1 @ contents b'))" by auto
    have e: "ds @ contents b' = (case r of None \<Rightarrow> [] | Some m \<Rightarrow> [m]) @ ds1 @ contents b'"
      using ds by (cases r) simp_all
    have k: "k1 + length (ds1 @ contents b') = k + length (ds @ contents b')"
      unfolding e k1_def using c by (cases r) simp_all
    have "subseq (ds @ contents b') (contents b @ messagesOf (nextSequence q) es)"
      unfolding e c append_assoc by (rule list_emb_append_mono [OF _ b'(3)]) simp
    with b'(1,2) b'(4) [unfolded k] Consume show ?thesis by auto
  qed
qed

end

section \<open>Properties\<close>

text \<open>C24. Between the radio and the consumer no packet is lost silently, duplicated or reordered. For
  every interleaving of received packets and consumer rounds, what has been delivered and what
  still waits are, in order, a subsequence of the numbered packets, at most 32 wait, and the
  counters add up: every packet is counted as received and either as queued or as dropped.\<close>

theorem packets_delivered_in_order:
  assumes "mailbox ops contents depth"
    and "runQueue ops es (rf_packet_queue_init ops initialQueue) = (delivered, q)"
  shows "\<exists>b. packetMailbox q = Some b \<and> length (contents b) \<le> RF_PACKET_QUEUE_DEPTH \<and>
    subseq (delivered @ contents b) (messagesOf 0 es) \<and>
    radioReceived (packetStats q) = of_nat (length (messagesOf 0 es)) \<and>
    radioQueued (packetStats q) = of_nat (length (delivered @ contents b)) \<and>
    radioReceived (packetStats q) = radioQueued (packetStats q) + appQueueDropped (packetStats q)"
proof -
  let ?b = "Mailbox_construct ops RF_PACKET_QUEUE_DEPTH"
  note c = mailbox.construct [OF assms(1)]
  have "packetMailbox (rf_packet_queue_init ops initialQueue) = Some ?b"
    "nextSequence (rf_packet_queue_init ops initialQueue) = 0"
    "accounted (rf_packet_queue_init ops initialQueue) 0 (0 + length (contents ?b))"
    by (simp_all add: rf_packet_queue_init_def initialQueue_def accounted_def initialStats_def c)
  from mailbox.runQueue_account [OF assms(1,2) this(1) _ _ this(3)] this(2) c show ?thesis
    by (auto simp: RF_PACKET_QUEUE_DEPTH_def accounted_def)
qed

theorem packets_delivered_in_order_witness:
  "\<exists>delivered q b. runQueue list_mailbox [Packet [1, 2] 2 10, Consume, Packet [3] 1 20]
      (rf_packet_queue_init list_mailbox initialQueue) = (delivered, q) \<and>
    packetMailbox q = Some b \<and> radioReceived (packetStats q) = 2 \<and>
    subseq (delivered @ snd b) (messagesOf 0 [Packet [1, 2] 2 10, Consume, Packet [3] 1 20])"
proof -
  obtain delivered q where r: "runQueue list_mailbox [Packet [1, 2] 2 10, Consume, Packet [3] 1 20]
      (rf_packet_queue_init list_mailbox initialQueue) = (delivered, q)" by fastforce
  from packets_delivered_in_order [OF list_mailbox.mailbox_axioms r] r show ?thesis by auto
qed

text \<open>C25. The messages about packets are complete: with up to 30 bytes of payload the packet line carries
  the header, all bytes and the line end within its 160 characters, and the status line is never
  cut, whatever the counters are.\<close>

theorem packet_messages_complete:
  assumes "length line = 160" "length response = 156" "length (messageData m) \<le> RF_PACKET_QUEUE_PAYLOAD_MAX"
    and "rssiOk (packetStats q)"
  shows "print_packet line m = Some (concat (packetHeader m) @ concat (map hexByte (messageData m)) @ crlf) \<and>
    radio_status response q = Some (cli_ok (concat (statusPieces (packetStats q) (packetDumpEnabled q)))) \<and>
    print_stats line q = Some (concat (statsPieces (packetStats q)))"
proof (intro conjI)
  let ?s = "packetStats q"
  show "print_packet line m = Some (concat (packetHeader m) @ concat (map hexByte (messageData m)) @ crlf)"
    using print_packet_all [OF assms(1)] assms(3) by (simp add: RF_PACKET_QUEUE_PAYLOAD_MAX_def)
  have d: "length (natDigits (unat (w :: u32))) \<le> 10" "NUL \<notin> set (natDigits n)" "NUL \<notin> set (intDigits i)" for w n i
    by (simp_all add: length_natDigits_u32 natDigits_not_NUL intDigits_not_NUL)
  note lens = length_natDigits_u32 [of "radioReceived ?s"] length_natDigits_u32 [of "radioQueued ?s"]
    length_natDigits_u32 [of "appQueueDropped ?s"] length_natDigits_u32 [of "rxBufferFull ?s"]
    length_natDigits_u32 [of "crcErrors ?s"] length_natDigits_u32 [of "collisions ?s"]
    length_natDigits_u32 [of "rssiSamples ?s"]
  have r: "length (intDigits (rssiLast ?s)) \<le> 4" "length (intDigits (rssiMin ?s)) \<le> 4"
    "length (intDigits (rssiMax ?s)) \<le> 4"
    using assms(4) by (simp_all add: rssiOk_def length_intDigits_i8)
  let ?p = "statusPieces ?s (packetDumpEnabled q)"
  have "length (concat ?p) < 156" using lens r by (simp add: statusPieces_def)
  moreover have "NUL \<notin> set (concat ?p)" using d by (simp add: statusPieces_def) (simp add: NUL_def)
  ultimately obtain buf where "snprintf response 0 156 ?p = Some (buf, length (concat ?p))" "cString buf 0 = concat ?p"
    using cString_fits [OF assms(2), of ?p] by auto
  then show "radio_status response q = Some (cli_ok (concat ?p))"
    by (simp add: radio_status_def rf_packet_queue_get_stats_def rf_packet_dump_get_def)
  let ?t = "statsPieces ?s"
  have t: "length (concat ?t) < 160" "0 < length (concat ?t)"
    using lens r by (simp_all add: statsPieces_def crlf_def)
  then have "take 0 line = []" "0 + length (concat ?t) < length line" using assms(1) by simp_all
  from snprintf_at [OF this] t assms(1) show "print_stats line q = Some (concat ?t)"
    by (auto simp: print_stats_def rf_packet_queue_get_stats_def)
qed

theorem packet_messages_complete_witness:
  "radio_status (replicate 156 CHR 0x41) (initialQueue :: unit packet_queue) =
     Some (cli_ok (concat (statusPieces initialStats False)))"
  using packet_messages_complete [of "replicate 160 NUL" "replicate 156 CHR 0x41"
      "\<lparr>sequence = 0, timestampTicks = 0, messageData = []\<rparr>" "initialQueue :: unit packet_queue"]
  by (simp add: initialQueue_def rssiOk_def initialStats_def)

text \<open>RSSI statistics: over any sequence of samples of which at least one is not the error value, the
  minimum and maximum are those of the samples that are not the error value and the last is
  the last of them; samples equal to the error value leave no trace.\<close>

lemma rssi_statistics:
  fixes samples :: "int list" and err :: int
  assumes "\<forall>r\<in>set samples. -128 \<le> r \<and> r \<le> 127" "good = filter (\<lambda>r. r \<noteq> err) samples" "good \<noteq> []"
    and "q = foldl (\<lambda>q r. rf_packet_queue_note_rssi err r q) initialQueue samples"
  shows "rssiMin (packetStats q) = Min (set good) \<and> rssiMax (packetStats q) = Max (set good) \<and>
    rssiLast (packetStats q) = last good \<and> rssiSamples (packetStats q) = of_nat (length good)"
proof -
  have inv: "rssiSummary err ss (packetStats (foldl (\<lambda>q r. rf_packet_queue_note_rssi err r q) initialQueue ss))" for ss
    by (induction ss rule: rev_induct)
      (simp_all add: note_rssi_summary, simp add: rssiSummary_def initialQueue_def initialStats_def)
  have fin: "finite (set good)" "set good \<noteq> {}" using assms(3) by simp_all
  have "Min (set good) \<le> 127" "-128 \<le> Max (set good)"
    using Min_in [OF fin] Max_in [OF fin] assms(1,2) by auto
  then have "Min (insert 127 (set good)) = Min (set good)" "Max (insert (-128) (set good)) = Max (set good)"
    using Min_insert [OF fin, of 127] Max_insert [OF fin, of "-128"] by simp_all
  with inv [of samples] assms(2,3,4) show ?thesis unfolding rssiSummary_def Let_def by simp
qed

end
