(* ===== verification/Radio_Rx.thy ===== *)
theory Radio_Rx
  imports Rf_Queue Packet_Queue
begin

text \<open>
  The RF callback of the receiver (\<open>firmware.c\<close>), which moves one data entry of the ring into the
  packet queue. The event masks and status codes of the RF driver are parameters. The radio that
  fills the entries is an environment step, and the receiver refines a bounded queue of packets.
\<close>

section \<open>Data\<close>

definition MAX_LENGTH :: nat where "MAX_LENGTH = 30"
definition NUM_DATA_ENTRIES :: nat where "NUM_DATA_ENTRIES = 8"
definition NUM_APPENDED_BYTES :: nat where "NUM_APPENDED_BYTES = 3"

record rf_events =
  RF_EventRxEntryDone :: u64
  RF_EventRxBufFull :: u64
  RF_EventRxNOk :: u64
  RF_EventRxCollisionDetected :: u64

text \<open>The data entries are the headers of \<open>Rf_Queue\<close> and the bytes from offset 8 of an entry on.\<close>

record 'b rx_state =
  entryStore :: entries
  readPtr :: nat
  dataBytes :: "nat \<Rightarrow> u8"
  rxPacket :: "u8 list"
  rxQueue :: "'b packet_queue"
  dio1 :: "bool list"

definition bytesAt :: "(nat \<Rightarrow> u8) \<Rightarrow> nat \<Rightarrow> nat \<Rightarrow> u8 list" where
  "bytesAt mem p n = map (\<lambda>i. mem (p + i)) [0..<n]"

section \<open>The callback\<close>

definition callback ::
  "rf_codes \<Rightarrow> rf_events \<Rightarrow> int \<Rightarrow> 'b mailbox_ops \<Rightarrow> u32 \<Rightarrow> u64 \<Rightarrow> 'b rx_state \<Rightarrow> 'b rx_state option" where
  "callback codes ev RF_GET_RSSI_ERROR_VAL ops ticks e s =
     (let s = (if e AND RF_EventRxBufFull ev \<noteq> 0
               then s\<lparr>rxQueue := rf_packet_queue_note_rx_buf_full (rxQueue s)\<rparr> else s);
          s = (if e AND RF_EventRxCollisionDetected ev \<noteq> 0
               then s\<lparr>rxQueue := rf_packet_queue_note_collision (rxQueue s)\<rparr> else s) in
      if e AND RF_EventRxEntryDone ev \<noteq> 0 then
        (let currentDataEntry = RFQueue_getDataEntry (readPtr s);
             packetLength = dataBytes s (currentDataEntry + 8);
             packetDataPointer = currentDataEntry + 8 + 1;
             packetStatus = dataBytes s (packetDataPointer + unat packetLength + 1);
             s = s\<lparr>rxQueue := rf_packet_queue_note_rssi RF_GET_RSSI_ERROR_VAL
                     (sint (dataBytes s (packetDataPointer + unat packetLength))) (rxQueue s)\<rparr> in
         if length (rxPacket s) < unat packetLength + 1 then None
         else
           (let s = s\<lparr>rxPacket := bytesAt (dataBytes s) packetDataPointer (unat packetLength + 1) @
                        drop (unat packetLength + 1) (rxPacket s)\<rparr>;
                s = (if packetStatus AND 0xC0 = 0
                     then s\<lparr>rxQueue := rf_packet_queue_post_radio ops
                              (bytesAt (dataBytes s) packetDataPointer (unat packetLength)) packetLength ticks (rxQueue s),
                            dio1 := dio1 s @ [True, False]\<rparr>
                     else s\<lparr>rxQueue := rf_packet_queue_note_crc_error RF_GET_RSSI_ERROR_VAL RF_GET_RSSI_ERROR_VAL
                              (rxQueue s)\<rparr>) in
            case RFQueue_nextEntry codes (entryStore s) (readPtr s) of (_, mem, r) \<Rightarrow>
              Some (s\<lparr>entryStore := mem, readPtr := r\<rparr>)))
      else Some s)"

section \<open>Packets in the ring\<close>

text \<open>What the radio stores for a packet with header, RSSI and status byte.\<close>

record air_packet =
  airData :: "u8 list"
  airRssi :: u8
  airStatus :: u8

definition packetBytes :: "air_packet \<Rightarrow> u8 list" where
  "packetBytes p = of_nat (length (airData p)) # airData p @ [airRssi p, airStatus p]"

definition heldAt :: "(nat \<Rightarrow> u8) \<Rightarrow> nat \<Rightarrow> air_packet \<Rightarrow> bool" where
  "heldAt mem a p \<longleftrightarrow> bytesAt mem (a + 8) (length (packetBytes p)) = packetBytes p"

definition storeAt :: "nat \<Rightarrow> u8 list \<Rightarrow> (nat \<Rightarrow> u8) \<Rightarrow> nat \<Rightarrow> u8" where
  "storeAt a bs mem = (\<lambda>x. if a \<le> x \<and> x < a + length bs then bs ! (x - a) else mem x)"

text \<open>What the callback does with a packet, without entries and pointers.\<close>

definition handlePacket :: "int \<Rightarrow> 'b mailbox_ops \<Rightarrow> u32 \<Rightarrow> air_packet \<Rightarrow> 'b packet_queue \<Rightarrow> 'b packet_queue" where
  "handlePacket err ops ticks p q =
     (let q = rf_packet_queue_note_rssi err (sint (airRssi p)) q in
      if airStatus p AND 0xC0 = 0
      then rf_packet_queue_post_radio ops (airData p) (of_nat (length (airData p))) ticks q
      else rf_packet_queue_note_crc_error err err q)"

lemma nth_bytesAt: "i < n \<Longrightarrow> bytesAt mem p n ! i = mem (p + i)"
  by (simp add: bytesAt_def)

lemma bytesAt_eq: "(bytesAt mem p (length bs) = bs) = (\<forall>i<length bs. mem (p + i) = bs ! i)"
  by (simp add: list_eq_iff_nth_eq) (simp add: bytesAt_def)

lemma heldAt_fields:
  assumes "heldAt mem a p" "length (airData p) \<le> 30"
  shows "mem (a + 8) = of_nat (length (airData p))" "bytesAt mem (a + 9) (length (airData p)) = airData p"
    "mem (a + 9 + length (airData p)) = airRssi p" "mem (a + 9 + length (airData p) + 1) = airStatus p"
proof -
  let ?n = "length (airData p)"
  have all: "mem (a + 8 + i) = packetBytes p ! i" if "i < ?n + 3" for i
    using assms(1) that bytesAt_eq [of mem "a + 8" "packetBytes p"] by (simp add: heldAt_def packetBytes_def)
  show "mem (a + 8) = of_nat ?n" using all [of 0] by (simp add: packetBytes_def)
  show "bytesAt mem (a + 9) ?n = airData p" unfolding bytesAt_eq
  proof (intro allI impI)
    fix i assume "i < ?n"
    with all [of "Suc i"] show "mem (a + 9 + i) = airData p ! i" by (simp add: packetBytes_def nth_append add.commute add.left_commute)
  qed
  show "mem (a + 9 + ?n) = airRssi p"
    using all [of "Suc ?n"] by (simp add: packetBytes_def nth_append add.commute add.left_commute)
  show "mem (a + 9 + ?n + 1) = airStatus p"
    using all [of "Suc (Suc ?n)"] by (simp add: packetBytes_def nth_append add.commute add.left_commute)
qed

lemma heldAt_storeAt: "heldAt (storeAt (a + 8) (packetBytes p) mem) a p"
  unfolding heldAt_def bytesAt_eq by (simp add: storeAt_def)

lemma heldAt_keep:
  assumes "heldAt mem a p" "a + 8 + length (packetBytes p) \<le> b \<or> b + length bs \<le> a + 8"
  shows "heldAt (storeAt b bs mem) a p"
  using assms unfolding heldAt_def bytesAt_eq by (auto simp: storeAt_def)

section \<open>The callback on a finished entry\<close>

text \<open>The events the receiver subscribes to are distinct bits of the mask.\<close>

definition eventsDistinct :: "rf_events \<Rightarrow> bool" where
  "eventsDistinct ev \<longleftrightarrow> RF_EventRxEntryDone ev \<noteq> 0 \<and> RF_EventRxBufFull ev \<noteq> 0 \<and>
     RF_EventRxEntryDone ev AND RF_EventRxBufFull ev = 0 \<and>
     RF_EventRxEntryDone ev AND RF_EventRxCollisionDetected ev = 0 \<and>
     RF_EventRxBufFull ev AND RF_EventRxCollisionDetected ev = 0"

lemma callback_entry:
  assumes "eventsDistinct ev" "heldAt (dataBytes s) (readPtr s) p" "length (airData p) \<le> 30"
    and "length (rxPacket s) = 32"
    and "RFQueue_nextEntry codes (entryStore s) (readPtr s) = (st, mem, r)"
  shows "\<exists>s'. callback codes ev err ops ticks (RF_EventRxEntryDone ev) s = Some s' \<and>
    rxQueue s' = handlePacket err ops ticks p (rxQueue s) \<and> entryStore s' = mem \<and> readPtr s' = r \<and>
    dataBytes s' = dataBytes s \<and> length (rxPacket s') = 32 \<and>
    (airStatus p AND 0xC0 = 0 \<longrightarrow> dio1 s' = dio1 s @ [True, False])"
proof -
  let ?n = "length (airData p)"
  note h = heldAt_fields [OF assms(2,3)]
  have n: "unat (of_nat ?n :: u8) = ?n" by (rule unat_of_nat_less) (use assms(3) in simp)
  have lb: "length (bytesAt m q k) = k" for m q k by (simp add: bytesAt_def)
  show ?thesis
    using assms h n
    by (auto simp: callback_def RFQueue_getDataEntry_def eventsDistinct_def handlePacket_def Let_def lb
        add.assoc add.commute add.left_commute)
qed

lemma callback_full:
  assumes "eventsDistinct ev"
  shows "callback codes ev err ops ticks (RF_EventRxBufFull ev) s =
    Some (s\<lparr>rxQueue := rf_packet_queue_note_rx_buf_full (rxQueue s)\<rparr>)"
  using assms by (simp add: callback_def eventsDistinct_def Let_def and.commute [of "RF_EventRxBufFull ev" "RF_EventRxEntryDone ev"])

section \<open>The radio and the receiver\<close>

text \<open>The radio stores a packet in the entry at its own pointer if that entry is pending, marks it
  finished and goes on to the next; otherwise the packet is lost and the buffer-full event is
  raised. A finished entry raises the entry-done event, later and one at a time.\<close>

datatype rx_event = Arrives air_packet | EntryDone u32

definition radioStore :: "u8 \<Rightarrow> air_packet \<Rightarrow> nat \<Rightarrow> 'b rx_state \<Rightarrow> 'b rx_state" where
  "radioStore fin p w s = s\<lparr>dataBytes := storeAt (w + 8) (packetBytes p) (dataBytes s),
     entryStore := (entryStore s)(w := (entryStore s w)\<lparr>status := fin\<rparr>)\<rparr>"

fun rxRun ::
  "rf_codes \<Rightarrow> u8 \<Rightarrow> rf_events \<Rightarrow> int \<Rightarrow> 'b mailbox_ops \<Rightarrow> rx_event list \<Rightarrow> 'b rx_state \<times> nat \<Rightarrow> ('b rx_state \<times> nat) option" where
  "rxRun codes fin ev err ops [] (s, w) = Some (s, w)"
| "rxRun codes fin ev err ops (Arrives p # es) (s, w) =
     (if status (entryStore s w) = DATA_ENTRY_PENDING codes
      then rxRun codes fin ev err ops es (radioStore fin p w s, pNextEntry (entryStore s w))
      else (case callback codes ev err ops 0 (RF_EventRxBufFull ev) s of None \<Rightarrow> None
            | Some s' \<Rightarrow> rxRun codes fin ev err ops es (s', w)))"
| "rxRun codes fin ev err ops (EntryDone ticks # es) (s, w) =
     (case callback codes ev err ops ticks (RF_EventRxEntryDone ev) s of None \<Rightarrow> None
      | Some s' \<Rightarrow> rxRun codes fin ev err ops es (s', w))"

text \<open>The specification: a bounded queue of packets in front of the packet queue. \<open>None\<close> is an entry-done
  event without a packet, which does not happen.\<close>

fun rxSpec :: "int \<Rightarrow> 'b mailbox_ops \<Rightarrow> rx_event list \<Rightarrow> air_packet list \<times> 'b packet_queue \<Rightarrow> (air_packet list \<times> 'b packet_queue) option" where
  "rxSpec err ops [] (waiting, q) = Some (waiting, q)"
| "rxSpec err ops (Arrives p # es) (waiting, q) =
     (if length waiting < NUM_DATA_ENTRIES then rxSpec err ops es (waiting @ [p], q)
      else rxSpec err ops es (waiting, rf_packet_queue_note_rx_buf_full q))"
| "rxSpec err ops (EntryDone ticks # es) (waiting, q) =
     (case waiting of [] \<Rightarrow> None | p # ps \<Rightarrow> rxSpec err ops es (ps, handlePacket err ops ticks p q))"

definition rxEntry :: "nat \<Rightarrow> nat \<Rightarrow> nat" where
  "rxEntry buf i = entryAt buf 44 (i mod 8)"

definition rxInv :: "rf_codes \<Rightarrow> u8 \<Rightarrow> nat \<Rightarrow> 'b rx_state \<Rightarrow> nat \<Rightarrow> air_packet list \<Rightarrow> bool" where
  "rxInv codes fin buf s w bl \<longleftrightarrow> length bl \<le> 8 \<and> (\<forall>p\<in>set bl. length (airData p) \<le> 30) \<and>
     length (rxPacket s) = 32 \<and> ring (entryStore s) buf 44 8 33 \<and>
     (\<exists>r. readPtr s = rxEntry buf r \<and> w = rxEntry buf (r + length bl) \<and>
        (\<forall>i<length bl. heldAt (dataBytes s) (rxEntry buf (r + i)) (bl ! i) \<and>
           status (entryStore s (rxEntry buf (r + i))) = fin) \<and>
        (\<forall>i. length bl \<le> i \<and> i < 8 \<longrightarrow>
           status (entryStore s (rxEntry buf (r + i))) = DATA_ENTRY_PENDING codes))"

lemma mod8_split:
  assumes "i < 8"
  shows "(r + i) mod 8 = (if r mod 8 + i < 8 then r mod 8 + i else r mod 8 + i - (8 :: nat))"
proof -
  have "(r + i) mod 8 = (r mod 8 + i) mod 8" by (simp add: mod_add_left_eq)
  moreover have "r mod 8 + i - 8 < 8" using assms mod_less_divisor [of 8 r] by linarith
  ultimately show ?thesis by (simp add: le_mod_geq)
qed

lemma mod8_inj: "i < 8 \<Longrightarrow> j < 8 \<Longrightarrow> ((r + i) mod 8 = (r + j) mod (8 :: nat)) = (i = j)"
  by (auto simp: mod8_split split: if_splits)

lemma rxEntry_inj: "i < 8 \<Longrightarrow> j < 8 \<Longrightarrow> (rxEntry buf (r + i) = rxEntry buf (r + j)) = (i = j)"
  by (simp add: rxEntry_def entryAt_inj mod8_inj)

lemma rxEntry_apart:
  assumes "i < 8" "j < 8" "i \<noteq> j"
  shows "rxEntry buf (r + i) + 44 \<le> rxEntry buf (r + j) \<or> rxEntry buf (r + j) + 44 \<le> rxEntry buf (r + i)"
proof -
  have "(r + i) mod 8 < (r + j) mod 8 \<or> (r + j) mod 8 < (r + i) mod 8" using mod8_inj [OF assms(1,2), of r] assms(3) by linarith
  then show ?thesis unfolding rxEntry_def entryAt_def by linarith
qed

lemma rxEntry_next: "ring mem buf 44 8 33 \<Longrightarrow> pNextEntry (mem (rxEntry buf i)) = rxEntry buf (Suc i)"
  by (simp add: ring_def rxEntry_def mod_Suc_eq)

lemma ring_status: "ring mem buf stride n len \<Longrightarrow> ring (mem(x := (mem x)\<lparr>status := v\<rparr>)) buf stride n len"
  by (auto simp: ring_def)

lemma rxInv_store:
  assumes inv: "rxInv codes fin buf s w bl" and fin: "fin \<noteq> DATA_ENTRY_PENDING codes"
    and pend: "status (entryStore s w) = DATA_ENTRY_PENDING codes" and p: "length (airData p) \<le> 30"
  shows "length bl < 8 \<and> rxInv codes fin buf (radioStore fin p w s) (pNextEntry (entryStore s w)) (bl @ [p])"
proof -
  let ?k = "length bl"
  from inv obtain r where r: "readPtr s = rxEntry buf r" "w = rxEntry buf (r + ?k)"
      "\<And>i. i < ?k \<Longrightarrow> heldAt (dataBytes s) (rxEntry buf (r + i)) (bl ! i) \<and> status (entryStore s (rxEntry buf (r + i))) = fin"
      "\<And>i. ?k \<le> i \<Longrightarrow> i < 8 \<Longrightarrow> status (entryStore s (rxEntry buf (r + i))) = DATA_ENTRY_PENDING codes"
    and g: "?k \<le> 8" "\<forall>p\<in>set bl. length (airData p) \<le> 30" "length (rxPacket s) = 32" "ring (entryStore s) buf 44 8 33"
    unfolding rxInv_def by blast
  have k: "?k < 8"
  proof (rule ccontr)
    assume "\<not> ?k < 8"
    with g(1) have "?k = 8" by simp
    then have "w = rxEntry buf (r + 0)" using r(2) by (simp add: rxEntry_def)
    with r(3) [of 0] \<open>?k = 8\<close> pend fin show False by simp
  qed
  have held: "heldAt (storeAt (w + 8) (packetBytes p) (dataBytes s)) (rxEntry buf (r + i)) ((bl @ [p]) ! i)"
    if "i < Suc ?k" for i
  proof (cases "i = ?k")
    case True
    with r(2) show ?thesis by (simp add: heldAt_storeAt)
  next
    case False
    with that have i: "i < ?k" by simp
    have "length (airData (bl ! i)) \<le> 30" using g(2) i by simp
    moreover have "rxEntry buf (r + i) + 44 \<le> w \<or> w + 44 \<le> rxEntry buf (r + i)"
      using rxEntry_apart [of i ?k] i k r(2) by simp
    ultimately have "heldAt (storeAt (w + 8) (packetBytes p) (dataBytes s)) (rxEntry buf (r + i)) (bl ! i)"
      using r(3) [OF i] p by (intro heldAt_keep) (auto simp: packetBytes_def)
    with i show ?thesis by (simp add: nth_append)
  qed
  have st: "status ((entryStore (radioStore fin p w s)) (rxEntry buf (r + i))) =
      (if i = ?k then fin else status (entryStore s (rxEntry buf (r + i))))" if "i < 8" for i
    using rxEntry_inj [OF that k] r(2) by (simp add: radioStore_def)
  have w': "pNextEntry (entryStore s w) = rxEntry buf (r + length (bl @ [p]))"
    using rxEntry_next [OF g(4)] r(2) by simp
  have "rxInv codes fin buf (radioStore fin p w s) (pNextEntry (entryStore s w)) (bl @ [p])"
    unfolding rxInv_def
  proof (intro conjI exI [of _ r])
    show "\<forall>i<length (bl @ [p]). heldAt (dataBytes (radioStore fin p w s)) (rxEntry buf (r + i)) ((bl @ [p]) ! i) \<and>
        status (entryStore (radioStore fin p w s) (rxEntry buf (r + i))) = fin"
      using held st r(3) k by (auto simp: radioStore_def)
    show "\<forall>i. length (bl @ [p]) \<le> i \<and> i < 8 \<longrightarrow>
        status (entryStore (radioStore fin p w s) (rxEntry buf (r + i))) = DATA_ENTRY_PENDING codes"
      using st r(4) by auto
  qed (use g k p r(1) w' in \<open>auto simp: radioStore_def ring_status\<close>)
  with k show ?thesis by blast
qed

lemma rxInv_full:
  assumes "rxInv codes fin buf s w bl" "status (entryStore s w) \<noteq> DATA_ENTRY_PENDING codes"
  shows "length bl = 8"
proof (rule ccontr)
  assume "length bl \<noteq> 8"
  with assms(1) have "length bl < 8" by (simp add: rxInv_def)
  with assms show False by (auto simp: rxInv_def)
qed

lemma rxInv_callback:
  assumes inv: "rxInv codes fin buf s w (p # bl)" and ev: "eventsDistinct ev"
  shows "\<exists>s'. callback codes ev err ops ticks (RF_EventRxEntryDone ev) s = Some s' \<and>
    rxQueue s' = handlePacket err ops ticks p (rxQueue s) \<and> rxInv codes fin buf s' w bl"
proof -
  let ?k = "length bl"
  from inv obtain r where r: "readPtr s = rxEntry buf r" "w = rxEntry buf (r + Suc ?k)"
      "\<And>i. i < Suc ?k \<Longrightarrow> heldAt (dataBytes s) (rxEntry buf (r + i)) ((p # bl) ! i) \<and> status (entryStore s (rxEntry buf (r + i))) = fin"
      "\<And>i. Suc ?k \<le> i \<Longrightarrow> i < 8 \<Longrightarrow> status (entryStore s (rxEntry buf (r + i))) = DATA_ENTRY_PENDING codes"
    and g: "Suc ?k \<le> 8" "\<forall>p\<in>set (p # bl). length (airData p) \<le> 30" "length (rxPacket s) = 32" "ring (entryStore s) buf 44 8 33"
    unfolding rxInv_def by auto
  have rd: "readPtr s = entryAt buf 44 (r mod 8)" using r(1) by (simp add: rxEntry_def)
  obtain st mem rd' where nx: "RFQueue_nextEntry codes (entryStore s) (readPtr s) = (st, mem, rd')"
    by (metis prod_cases3)
  have "r mod 8 < 8" by simp
  note ne = nextEntry_ring [OF g(4) this nx [unfolded rd]]
  have "heldAt (dataBytes s) (readPtr s) p" "length (airData p) \<le> 30" using r(3) [of 0] r(1) g(2) by simp_all
  from callback_entry [OF ev this g(3) nx, of err ops ticks] obtain s' where
    s': "callback codes ev err ops ticks (RF_EventRxEntryDone ev) s = Some s'"
      "rxQueue s' = handlePacket err ops ticks p (rxQueue s)" "entryStore s' = mem" "readPtr s' = rd'"
      "dataBytes s' = dataBytes s" "length (rxPacket s') = 32" by blast
  have m: "mem = (entryStore s)(rxEntry buf (r + 0) := (entryStore s (rxEntry buf (r + 0)))\<lparr>status := DATA_ENTRY_PENDING codes\<rparr>)"
    using ne(3) by (simp add: rxEntry_def)
  have stat: "status (mem (rxEntry buf (r + i))) =
      (if i = 0 then DATA_ENTRY_PENDING codes else status (entryStore s (rxEntry buf (r + i))))" if "i < 8" for i
    using rxEntry_inj [OF that, of 0] unfolding m by simp
  have "rxInv codes fin buf s' w bl" unfolding rxInv_def
  proof (intro conjI exI [of _ "Suc r"])
    show "readPtr s' = rxEntry buf (Suc r)" using s'(4) ne(2) by (simp add: rxEntry_def mod_Suc_eq)
    show "\<forall>i<?k. heldAt (dataBytes s') (rxEntry buf (Suc r + i)) (bl ! i) \<and>
        status (entryStore s' (rxEntry buf (Suc r + i))) = fin"
      using r(3) [of "Suc _"] stat [of "Suc _"] g(1) s'(3,5) by auto
    show "\<forall>i. ?k \<le> i \<and> i < 8 \<longrightarrow> status (entryStore s' (rxEntry buf (Suc r + i))) = DATA_ENTRY_PENDING codes"
    proof (intro allI impI)
      fix i assume i: "?k \<le> i \<and> i < 8"
      show "status (entryStore s' (rxEntry buf (Suc r + i))) = DATA_ENTRY_PENDING codes"
      proof (cases "i = 7")
        case True
        then have "rxEntry buf (Suc r + i) = rxEntry buf (r + 0)" by (simp add: rxEntry_def)
        with stat [of 0] s'(3) show ?thesis by simp
      next
        case False
        with i stat [of "Suc i"] r(4) [of "Suc i"] s'(3) show ?thesis by simp
      qed
    qed
  qed (use g r(2) s' ne(1) in auto)
  with s' show ?thesis by blast
qed

lemma rxRun_refines:
  assumes "rxSpec err ops es (bl, rxQueue s) = Some (bl', q')" "rxInv codes fin buf s w bl"
    and "eventsDistinct ev" "fin \<noteq> DATA_ENTRY_PENDING codes"
    and "\<forall>p. Arrives p \<in> set es \<longrightarrow> length (airData p) \<le> 30"
  shows "\<exists>s' w'. rxRun codes fin ev err ops es (s, w) = Some (s', w') \<and> rxQueue s' = q' \<and> rxInv codes fin buf s' w' bl'"
  using assms
proof (induction es arbitrary: bl s w)
  case (Cons e es)
  show ?case
  proof (cases e)
    case (Arrives p)
    have p: "length (airData p) \<le> 30" using Cons.prems(5) Arrives by simp
    show ?thesis
    proof (cases "status (entryStore s w) = DATA_ENTRY_PENDING codes")
      case True
      note st = rxInv_store [OF Cons.prems(2,4) True p]
      have "rxQueue (radioStore fin p w s) = rxQueue s" by (simp add: radioStore_def)
      with Cons.IH [of "bl @ [p]" "radioStore fin p w s" "pNextEntry (entryStore s w)"] Cons.prems st True Arrives
      show ?thesis by (auto simp: NUM_DATA_ENTRIES_def)
    next
      case False
      let ?s = "s\<lparr>rxQueue := rf_packet_queue_note_rx_buf_full (rxQueue s)\<rparr>"
      have "rxInv codes fin buf ?s w bl" using Cons.prems(2) by (simp add: rxInv_def)
      with Cons.IH [of bl ?s w] Cons.prems rxInv_full [OF Cons.prems(2) False] False Arrives
      show ?thesis by (auto simp: NUM_DATA_ENTRIES_def callback_full)
    qed
  next
    case (EntryDone t)
    with Cons.prems(1) obtain p ps where bl: "bl = p # ps" by (cases bl) auto
    from rxInv_callback [OF Cons.prems(2) [unfolded bl] Cons.prems(3), of err ops t] obtain s1 where
      "callback codes ev err ops t (RF_EventRxEntryDone ev) s = Some s1"
      "rxQueue s1 = handlePacket err ops t p (rxQueue s)" "rxInv codes fin buf s1 w ps" by blast
    with Cons.IH [of ps s1 w] Cons.prems EntryDone bl show ?thesis by auto
  qed
qed simp

lemma rxQueue_defined:
  assumes "RFQueue_defineQueue codes mem queue r buf
      (of_nat (RF_QUEUE_DATA_ENTRY_BUFFER_SIZE NUM_DATA_ENTRIES MAX_LENGTH NUM_APPENDED_BYTES))
      (of_nat NUM_DATA_ENTRIES) (of_nat (MAX_LENGTH + NUM_APPENDED_BYTES)) = (result, mem', queue', r')"
  shows "result = 0" "ring mem' buf 44 8 33" "r' = buf"
    "\<And>i. i < 8 \<Longrightarrow> status (mem' (entryAt buf 44 i)) = DATA_ENTRY_PENDING codes"
proof -
  have size: "RF_QUEUE_DATA_ENTRY_BUFFER_SIZE 8 30 3 = 352" and pad: "RF_QUEUE_QUEUE_ALIGN_PADDING 33 = 3"
    by (simp_all add: RF_QUEUE_DATA_ENTRY_BUFFER_SIZE_def RF_QUEUE_QUEUE_ALIGN_PADDING_def
        RF_QUEUE_DATA_ENTRY_HEADER_SIZE_def)
  from assms have d: "RFQueue_defineQueue codes mem queue r buf 352 8 33 = (result, mem', queue', r')"
    by (simp add: NUM_DATA_ENTRIES_def MAX_LENGTH_def NUM_APPENDED_BYTES_def size)
  then show "result = 0"
    by (auto simp: RFQueue_defineQueue_def Let_def pad RF_QUEUE_DATA_ENTRY_HEADER_SIZE_def)
  note q = defineQueue_ring [OF d [unfolded this], of 44]
  from q show "ring mem' buf 44 8 33" "r' = buf"
    "\<And>i. i < 8 \<Longrightarrow> status (mem' (entryAt buf 44 i)) = DATA_ENTRY_PENDING codes" by (simp_all add: pad)
qed

section \<open>Properties\<close>

text \<open>C28. The receiver is a bounded queue of eight packets in front of the packet queue. Whatever packets
  of up to 30 bytes arrive, and however the radio runs ahead of the callback, nothing is written
  outside the arrays, every packet is handled once and in order with its own bytes, RSSI and
  status (a good one is posted with its payload, a bad one only counted), and a packet that finds
  all entries taken is counted as a full buffer and disturbs none of them.\<close>

theorem receiver_refines_packet_fifo:
  assumes "eventsDistinct ev" "fin \<noteq> DATA_ENTRY_PENDING codes"
    and "RFQueue_defineQueue codes mem queue r buf
      (of_nat (RF_QUEUE_DATA_ENTRY_BUFFER_SIZE NUM_DATA_ENTRIES MAX_LENGTH NUM_APPENDED_BYTES))
      (of_nat NUM_DATA_ENTRIES) (of_nat (MAX_LENGTH + NUM_APPENDED_BYTES)) = (result, entryStore s, queue', readPtr s)"
    and "length (rxPacket s) = MAX_LENGTH + NUM_APPENDED_BYTES - 1"
    and "\<forall>p. Arrives p \<in> set es \<longrightarrow> length (airData p) \<le> MAX_LENGTH"
    and "rxSpec err ops es ([], rxQueue s) = Some (waiting, q)"
  shows "\<exists>s' w. rxRun codes fin ev err ops es (s, buf) = Some (s', w) \<and> rxQueue s' = q \<and>
    readPtr s' \<in> {entryAt buf 44 i | i. i < NUM_DATA_ENTRIES} \<and> length waiting \<le> NUM_DATA_ENTRIES"
proof -
  note d = rxQueue_defined [OF assms(3)]
  have "rxInv codes fin buf s buf []"
    unfolding rxInv_def using d assms(4) MAX_LENGTH_def NUM_APPENDED_BYTES_def
    by (auto simp: rxEntry_def entryAt_def intro!: exI [of _ 0])
  from rxRun_refines [OF assms(6) this assms(1,2)] assms(5) obtain s' w where
    r: "rxRun codes fin ev err ops es (s, buf) = Some (s', w)" "rxQueue s' = q" "rxInv codes fin buf s' w waiting"
    by (auto simp: MAX_LENGTH_def)
  then have "length waiting \<le> 8" "\<exists>k. readPtr s' = rxEntry buf k" unfolding rxInv_def by blast+
  with r show ?thesis by (auto simp: rxEntry_def NUM_DATA_ENTRIES_def intro: mod_less_divisor)
qed

definition demoEvents :: rf_events where
  "demoEvents = \<lparr>RF_EventRxEntryDone = 0x400000, RF_EventRxBufFull = 0x2000000, RF_EventRxNOk = 0x20000,
     RF_EventRxCollisionDetected = 0x1000\<rparr>"

definition demoCodes :: rf_codes where
  "demoCodes = \<lparr>DATA_ENTRY_PENDING = 0, DATA_ENTRY_TYPE_GEN = 0\<rparr>"

theorem receiver_refines_packet_fifo_witness:
  "\<exists>s s' w. rxRun demoCodes 3 demoEvents (-128) list_mailbox
      [Arrives \<lparr>airData = [1, 2], airRssi = 0xBA, airStatus = 0\<rparr>,
       Arrives \<lparr>airData = [3], airRssi = 0xB0, airStatus = 0x80\<rparr>, EntryDone 7, EntryDone 8]
      (s :: (nat \<times> RfPacketMessage list) rx_state, 0x20001000) = Some (s', w) \<and>
    packetStats (rxQueue s') = initialStats\<lparr>radioReceived := 1, radioQueued := 1, crcErrors := 1, rssiSamples := 2,
      rssiLast := -80, rssiMin := -80, rssiMax := -70\<rparr>"
proof -
  let ?es = "[Arrives \<lparr>airData = [1, 2], airRssi = 0xBA, airStatus = 0\<rparr>,
       Arrives \<lparr>airData = [3], airRssi = 0xB0, airStatus = 0x80\<rparr>, EntryDone 7, EntryDone 8]"
  obtain result mem' queue' r' where d: "RFQueue_defineQueue demoCodes blankEntries \<lparr>pCurrEntry = 0, pLastEntry = None\<rparr> 0 0x20001000
      (of_nat (RF_QUEUE_DATA_ENTRY_BUFFER_SIZE NUM_DATA_ENTRIES MAX_LENGTH NUM_APPENDED_BYTES))
      (of_nat NUM_DATA_ENTRIES) (of_nat (MAX_LENGTH + NUM_APPENDED_BYTES)) = (result, mem', queue', r')"
    by (metis prod_cases4)
  let ?q = "rf_packet_queue_init list_mailbox initialQueue"
  let ?s = "\<lparr>entryStore = mem', readPtr = r', dataBytes = (\<lambda>_. 0), rxPacket = replicate 32 0, rxQueue = ?q, dio1 = []\<rparr>"
  have d': "RFQueue_defineQueue demoCodes blankEntries \<lparr>pCurrEntry = 0, pLastEntry = None\<rparr> 0 0x20001000
      (of_nat (RF_QUEUE_DATA_ENTRY_BUFFER_SIZE NUM_DATA_ENTRIES MAX_LENGTH NUM_APPENDED_BYTES))
      (of_nat NUM_DATA_ENTRIES) (of_nat (MAX_LENGTH + NUM_APPENDED_BYTES)) = (result, entryStore ?s, queue', readPtr ?s)"
    using d by simp
  have ev: "eventsDistinct demoEvents" by (simp add: eventsDistinct_def demoEvents_def)
  obtain q where spec: "rxSpec (-128) list_mailbox ?es ([], ?q) = Some ([], q)"
    and stats: "packetStats q = initialStats\<lparr>radioReceived := 1, radioQueued := 1, crcErrors := 1, rssiSamples := 2,
      rssiLast := -80, rssiMin := -80, rssiMax := -70\<rparr>"
    by (simp add: NUM_DATA_ENTRIES_def handlePacket_def rf_packet_queue_note_rssi_def rf_packet_queue_post_radio_def
        post_packet_def rf_packet_queue_note_crc_error_def rf_packet_queue_init_def initialQueue_def initialStats_def
        list_mailbox_def RF_PACKET_QUEUE_DEPTH_def RF_PACKET_QUEUE_PAYLOAD_MAX_def Let_def)
  have f: "3 \<noteq> DATA_ENTRY_PENDING demoCodes" by (simp add: demoCodes_def)
  have l: "length (rxPacket ?s) = MAX_LENGTH + NUM_APPENDED_BYTES - 1"
    by (simp add: MAX_LENGTH_def NUM_APPENDED_BYTES_def)
  have a: "\<forall>p. Arrives p \<in> set ?es \<longrightarrow> length (airData p) \<le> MAX_LENGTH" by (simp add: MAX_LENGTH_def)
  have spec': "rxSpec (-128) list_mailbox ?es ([], rxQueue ?s) = Some ([], q)" using spec by (simp del: rxSpec.simps)
  from receiver_refines_packet_fifo [OF ev f d' l a spec'] stats show ?thesis by blast
qed

end
