(* ===== verification/Radio_Tx.thy ===== *)
theory Radio_Tx
  imports Cli_Core Crc "HOL-Library.Char_ord"
begin

text \<open>
  The transmitter (\<open>firmware_tx.c\<close>): synchronization packets, the \<open>tx\<close> command and the radio thread.
  The clock is a parameter (the tick at each reading), and so is the radio driver: \<open>RF_runCmd\<close> is the
  event mask and the command status that follow a transmission of the packet. What reaches the
  measurement pin and the radio is kept in a log.
\<close>

section \<open>Data\<close>

definition PAYLOAD_LENGTH :: nat where "PAYLOAD_LENGTH = 30"
definition SYNC_PACKET_MAGIC :: u16 where "SYNC_PACKET_MAGIC = 0x5359"
definition SYNC_PACKET_TYPE_TIME :: u8 where "SYNC_PACKET_TYPE_TIME = 1"
definition SYNC_PACKET_TYPE_FRAME :: u8 where "SYNC_PACKET_TYPE_FRAME = 2"
definition SYNC_PACKET_SITE_ID :: u16 where "SYNC_PACKET_SITE_ID = 0"
definition SYNC_PACKET_SESSION_ID :: u8 where "SYNC_PACKET_SESSION_ID = 0"
definition SYNC_PACKET_HEADER_LENGTH :: nat where "SYNC_PACKET_HEADER_LENGTH = 8"
definition SYNC_PACKET_CRC_LENGTH :: nat where "SYNC_PACKET_CRC_LENGTH = 2"
definition SYNC_TIME_PAYLOAD_LENGTH :: nat where "SYNC_TIME_PAYLOAD_LENGTH = 8"
definition SYNC_FRAME_PAYLOAD_LENGTH :: nat where "SYNC_FRAME_PAYLOAD_LENGTH = 4"
definition TX_CLI_LINE_LENGTH :: nat where "TX_CLI_LINE_LENGTH = 64"

datatype tx_event = Dio1 bool | Transmit "u8 list"

record tx_state =
  packet :: "u8 list"
  syncSequence :: u8
  randomState :: u32
  clockReads :: nat
  txLog :: "tx_event list"

record tx_radio =
  RF_runCmd :: "u8 list \<Rightarrow> u64 \<times> u32"
  RF_EventLastCmdDone :: u64
  PROP_DONE_OK :: u32
  Clock_getTicks :: "nat \<Rightarrow> u32"

definition initialTx :: tx_state where
  "initialTx = \<lparr>packet = replicate PAYLOAD_LENGTH 0, syncSequence = 0, randomState = 0x4A3B2C1D,
     clockReads = 0, txLog = []\<rparr>"

section \<open>Packets\<close>

primrec txCrcBits :: "nat \<Rightarrow> u16 \<Rightarrow> u16" where
  "txCrcBits 0 crc = crc"
| "txCrcBits (Suc n) crc =
     txCrcBits n (if crc AND 0x8000 \<noteq> 0 then push_bit 1 crc XOR 0x1021 else push_bit 1 crc)"

primrec txCalculateCrc16 :: "u16 \<Rightarrow> u8 list \<Rightarrow> u16" where
  "txCalculateCrc16 crc [] = crc"
| "txCalculateCrc16 crc (b # data) = txCalculateCrc16 (txCrcBits 8 (crc XOR push_bit 8 (ucast b))) data"

definition nextRandomByte :: "tx_radio \<Rightarrow> tx_state \<Rightarrow> u8 \<times> tx_state" where
  "nextRandomByte radio s =
     (let r = randomState s * 1664525 + 1013904223 + Clock_getTicks radio (clockReads s)
      in (ucast (drop_bit 24 r), s\<lparr>randomState := r, clockReads := Suc (clockReads s)\<rparr>))"

definition writeUint32Be :: "u8 list \<Rightarrow> u32 \<Rightarrow> u8 list option" where
  "writeUint32Be destination value =
     (if 4 \<le> length destination
      then Some (destination[0 := ucast (drop_bit 24 value), 1 := ucast (drop_bit 16 value),
                             2 := ucast (drop_bit 8 value), 3 := ucast value])
      else None)"

fun writeBytesBe :: "u64 \<Rightarrow> nat list \<Rightarrow> u8 list \<Rightarrow> u8 list option" where
  "writeBytesBe value [] destination = Some destination"
| "writeBytesBe value (index # is) destination =
     (case store destination index (ucast (drop_bit ((7 - index) * 8) value)) of
        None \<Rightarrow> None | Some d \<Rightarrow> writeBytesBe value is d)"

definition writeUint64Be :: "u8 list \<Rightarrow> u64 \<Rightarrow> u8 list option" where
  "writeUint64Be destination value = writeBytesBe value [0..<SYNC_TIME_PAYLOAD_LENGTH] destination"

text \<open>\<open>parseHexUint64\<close> reads a NUL-terminated text; on strings the terminator is the end of the list.\<close>

definition hexValue :: "char \<Rightarrow> u8 option" where
  "hexValue c =
     (if CHR ''0'' \<le> c \<and> c \<le> CHR ''9'' then Some (of_nat (of_char c) - of_nat (of_char CHR ''0''))
      else if CHR ''a'' \<le> c \<and> c \<le> CHR ''f'' then Some (of_nat (of_char c) - of_nat (of_char CHR ''a'') + 10)
      else if CHR ''A'' \<le> c \<and> c \<le> CHR ''F'' then Some (of_nat (of_char c) - of_nat (of_char CHR ''A'') + 10)
      else None)"

fun parseHexLoop :: "string \<Rightarrow> u8 \<Rightarrow> u8 \<Rightarrow> u64 \<Rightarrow> u64 option" where
  "parseHexLoop [] maximumDigits digits result = (if digits = 0 then None else Some result)"
| "parseHexLoop (c # text) maximumDigits digits result =
     (case hexValue c of
        None \<Rightarrow> None
      | Some digit \<Rightarrow>
          if digits = maximumDigits then None
          else parseHexLoop text maximumDigits (digits + 1) (push_bit 4 result OR ucast digit))"

definition skipPrefix :: "string \<Rightarrow> string" where
  "skipPrefix text =
     (if length text \<ge> 2 \<and> text ! 0 = CHR ''0'' \<and> (text ! 1 = CHR ''x'' \<or> text ! 1 = CHR ''X'')
      then drop 2 text else text)"

definition parseHexUint64 :: "string \<Rightarrow> u8 \<Rightarrow> u64 option" where
  "parseHexUint64 text maximumDigits = parseHexLoop (skipPrefix text) maximumDigits 0 0"

text \<open>The loop that fills the reserved bytes up to the checksum.\<close>

function fillRandom :: "tx_radio \<Rightarrow> nat \<Rightarrow> tx_state \<Rightarrow> tx_state option" where
  "fillRandom radio index s =
     (if index < PAYLOAD_LENGTH - SYNC_PACKET_CRC_LENGTH then
        (case nextRandomByte radio s of (b, s) \<Rightarrow>
           (case store (packet s) index b of
              None \<Rightarrow> None
            | Some p \<Rightarrow> fillRandom radio (Suc index) (s\<lparr>packet := p\<rparr>)))
      else Some s)"
  by pat_completeness auto
termination
  by (relation "measure (\<lambda>(radio, index, s). PAYLOAD_LENGTH - index)")
    (auto simp: PAYLOAD_LENGTH_def SYNC_PACKET_CRC_LENGTH_def)

declare fillRandom.simps [simp del]

definition buildSyncPacket :: "tx_radio \<Rightarrow> u8 \<Rightarrow> u8 list \<Rightarrow> u8 \<Rightarrow> tx_state \<Rightarrow> tx_state option" where
  "buildSyncPacket radio type data payloadLength s =
     (if length (packet s) < SYNC_PACKET_HEADER_LENGTH + unat payloadLength \<or> length data < unat payloadLength
      then None
      else
        (let header = [ucast (drop_bit 8 SYNC_PACKET_MAGIC), ucast SYNC_PACKET_MAGIC, type, payloadLength,
               ucast (drop_bit 8 SYNC_PACKET_SITE_ID), ucast SYNC_PACKET_SITE_ID, syncSequence s,
               SYNC_PACKET_SESSION_ID];
             p = header @ take (unat payloadLength) data @
                   drop (SYNC_PACKET_HEADER_LENGTH + unat payloadLength) (packet s);
             s = s\<lparr>packet := p, syncSequence := syncSequence s + 1\<rparr>;
             index = unat (of_nat SYNC_PACKET_HEADER_LENGTH + payloadLength) in
         case fillRandom radio index s of
           None \<Rightarrow> None
         | Some s \<Rightarrow>
            (let crc = txCalculateCrc16 0xFFFF (take (PAYLOAD_LENGTH - SYNC_PACKET_CRC_LENGTH) (packet s)) in
             case store (packet s) (PAYLOAD_LENGTH - 2) (ucast (drop_bit 8 crc)) of
               None \<Rightarrow> None
             | Some p \<Rightarrow>
                (case store p (PAYLOAD_LENGTH - 1) (ucast crc) of
                   None \<Rightarrow> None
                 | Some p \<Rightarrow> Some (s\<lparr>packet := p\<rparr>)))))"

section \<open>The tx command\<close>

definition blanks :: string where "blanks = [CHR 0x20, CHR 0x09]"

definition txUsage :: string where
  "txUsage = ''ERR ARG usage: tx sync_time <utc_hex> | tx sync_frame <exposure_hex>'' @ crlf"

text \<open>The part of \<open>processSyncCommand\<close> that builds the packet: a message, or the state with the packet.
  The local array \<open>payload\<close> holds whatever was on the stack.\<close>

definition prepareSync :: "tx_radio \<Rightarrow> u8 list \<Rightarrow> string \<Rightarrow> string \<Rightarrow> tx_state \<Rightarrow> (string + tx_state) option" where
  "prepareSync radio junk command argument s =
     (if command = ''sync_time'' then
        (case parseHexUint64 argument 16 of
           None \<Rightarrow> Some (Inl (''ERR ARG utc_hex_must_be_uint64'' @ crlf))
         | Some value \<Rightarrow>
            (case writeUint64Be junk value of
               None \<Rightarrow> None
             | Some data \<Rightarrow>
                map_option Inr (buildSyncPacket radio SYNC_PACKET_TYPE_TIME data (of_nat SYNC_TIME_PAYLOAD_LENGTH) s)))
      else if command = ''sync_frame'' then
        (case parseHexUint64 argument 8 of
           None \<Rightarrow> Some (Inl (''ERR ARG exposure_hex_must_be_uint32'' @ crlf))
         | Some value \<Rightarrow>
            (case writeUint32Be junk (ucast value) of
               None \<Rightarrow> None
             | Some data \<Rightarrow>
                map_option Inr (buildSyncPacket radio SYNC_PACKET_TYPE_FRAME data (of_nat SYNC_FRAME_PAYLOAD_LENGTH) s)))
      else Some (Inl (''ERR CMD unknown_command; use help'' @ crlf)))"

text \<open>The transmission and the answer.\<close>

definition txAnswer :: "tx_radio \<Rightarrow> string \<Rightarrow> u64 \<Rightarrow> u32 \<Rightarrow> u8 \<Rightarrow> string list" where
  "txAnswer radio command reason st sequence =
     (if reason = RF_EventLastCmdDone radio \<and> st = PROP_DONE_OK radio
      then [''OK '', command, '' seq='', natDigits (unat sequence), crlf]
      else [''ERR RF event=0x'', hexDigits 8 (unat (ucast reason :: u32)), '' status=0x'', hexDigits 8 (unat st), crlf])"

definition sendPacket :: "tx_radio \<Rightarrow> char list \<Rightarrow> string \<Rightarrow> tx_state \<Rightarrow> (string \<times> tx_state) option" where
  "sendPacket radio response command s =
     (case RF_runCmd radio (packet s) of (reason, st) \<Rightarrow>
       (let s = s\<lparr>txLog := txLog s @ [Dio1 True, Transmit (packet s), Dio1 False]\<rparr> in
        case fetch (packet s) 6 of
          None \<Rightarrow> None
        | Some sequence \<Rightarrow>
           (case snprintf response 0 64 (txAnswer radio command reason st sequence) of
              None \<Rightarrow> None
            | Some (r, _) \<Rightarrow> Some (cString r 0, s))))"

definition processSyncCommand ::
  "tx_radio \<Rightarrow> u8 list \<Rightarrow> char list \<Rightarrow> char list \<Rightarrow> tx_state \<Rightarrow> (string \<times> tx_state) option" where
  "processSyncCommand radio junk response line s =
     (case strtok line 0 blanks of
        None \<Rightarrow> None
      | Some (command, l1, e1) \<Rightarrow>
         (case strtok l1 e1 blanks of
            None \<Rightarrow> None
          | Some (argument, l2, e2) \<Rightarrow>
             (case strtok l2 e2 blanks of
                None \<Rightarrow> None
              | Some (extraArgument, l3, e3) \<Rightarrow>
                 (case command of
                    None \<Rightarrow> Some ([], s)
                  | Some c \<Rightarrow>
                     (case argument of
                        None \<Rightarrow> Some (txUsage, s)
                      | Some a \<Rightarrow>
                         if extraArgument \<noteq> None then Some (txUsage, s)
                         else
                           (case prepareSync radio junk (cString l3 c) (cString l3 a) s of
                              None \<Rightarrow> None
                            | Some (Inl message) \<Rightarrow> Some (message, s)
                            | Some (Inr s') \<Rightarrow> sendPacket radio response (cString l3 c) s'))))))"

definition tx_command ::
  "tx_radio \<Rightarrow> u8 list \<Rightarrow> char list \<Rightarrow> char list \<Rightarrow> string list \<Rightarrow> tx_state \<Rightarrow> (string \<times> tx_state) option" where
  "tx_command radio junk response line argv s =
     (if length argv < 2 \<or> length argv > 3
      then Some (cli_error ''ARG'' ''usage: tx sync_time <utc_hex> | tx sync_frame <exposure_hex>'', s)
      else
        (case snprintf line 0 TX_CLI_LINE_LENGTH
                (if length argv = 2 then [argv ! 1] else [argv ! 1, '' '', argv ! 2]) of
           None \<Rightarrow> None
         | Some (line', _) \<Rightarrow> processSyncCommand radio junk response line' s))"

definition cli_tx_command :: "tx_radio \<Rightarrow> u8 list \<Rightarrow> char list \<Rightarrow> char list \<Rightarrow> tx_state CliCommand" where
  "cli_tx_command radio junk response line =
     \<lparr>name = ''tx'', usage = ''tx sync_time <utc_hex> | tx sync_frame <exposure_hex>'',
      handler = (\<lambda>argv s. case tx_command radio junk response line argv s of None \<Rightarrow> ([], s) | Some r \<Rightarrow> r)\<rparr>"

section \<open>Checksum and numbers\<close>

lemma txCrcBits_funpow: "txCrcBits n crc = (crc16_bit ^^ n) crc"
  by (induction n arbitrary: crc) (simp_all add: funpow_swap1 crc16_bit_def)

lemma txCrc_eq_bootloader: "txCalculateCrc16 0xFFFF data = calculateCrc16 data"
proof -
  have "txCalculateCrc16 crc data = foldl crc16_byte crc data" for crc
    by (induction data arbitrary: crc) (simp_all add: txCrcBits_funpow crc16_byte_def)
  then show ?thesis by (simp add: calculateCrc16_def)
qed

text \<open>The value of a big-endian byte sequence.\<close>

definition beValue :: "u8 list \<Rightarrow> nat" where
  "beValue bs = foldl (\<lambda>v b. 256 * v + unat b) 0 bs"

definition bytesBe64 :: "u64 \<Rightarrow> u8 list" where
  "bytesBe64 v = map (\<lambda>i. ucast (drop_bit ((7 - i) * 8) v)) [0..<8]"

definition bytesBe32 :: "u32 \<Rightarrow> u8 list" where
  "bytesBe32 v = [ucast (drop_bit 24 v), ucast (drop_bit 16 v), ucast (drop_bit 8 v), ucast v]"

lemma list_8: "length xs = 8 \<Longrightarrow> \<exists>a b c d e f g h. xs = [a, b, c, d, e, f, g, h]"
  by (auto simp: numeral_eq_Suc length_Suc_conv)

lemma writeUint64Be_bytes:
  "length d = 8 \<Longrightarrow> writeUint64Be d v = Some (bytesBe64 v)"
  by (drule list_8) (auto simp: writeUint64Be_def SYNC_TIME_PAYLOAD_LENGTH_def bytesBe64_def upt_rec store_def)

lemma writeUint32Be_bytes:
  "length d = 8 \<Longrightarrow> \<exists>rest. writeUint32Be d v = Some (bytesBe32 v @ rest)"
  by (drule list_8) (auto simp: writeUint32Be_def bytesBe32_def)

lemma unat_byte: "unat (ucast (drop_bit n (v :: 'a::len word)) :: u8) = unat v div 2 ^ n mod 256"
  by (simp add: unsigned_ucast_eq unsigned_drop_bit_eq take_bit_eq_mod) (simp add: drop_bit_eq_div)

lemma beValue_step: "v div (256 * k) * 256 + v div k mod 256 = v div (k :: nat)"
  by (metis div_mult2_eq div_mult_mod_eq mult.commute)

lemma beValue_map: "beValue bs = foldl (\<lambda>v n. 256 * v + n) 0 (map unat bs)"
  by (simp add: beValue_def foldl_map)

lemma beValue_digit: "256 * (v div (256 * k)) + v div k mod 256 = v div (k :: nat)"
  using beValue_step [of v k] by (simp add: mult.commute)

lemma beValue_bytesBe64: "beValue (bytesBe64 v) = unat v"
proof -
  have i: "[0..<8] = [0, 1, 2, 3, 4, 5, 6, 7]" by (simp add: upt_rec)
  have u: "map unat (bytesBe64 v) = map (\<lambda>i. unat v div 2 ^ ((7 - i) * 8) mod 256) [0..<8]"
    by (simp only: bytesBe64_def map_map comp_def unat_byte)
  have top: "unat v div 2 ^ 56 mod 256 = unat v div 2 ^ 56"
    using unat_u64_less [of v] by (simp add: less_mult_imp_div_less)
  show ?thesis unfolding beValue_map u i
    using beValue_digit [of "unat v" "2 ^ 48"] beValue_digit [of "unat v" "2 ^ 40"]
      beValue_digit [of "unat v" "2 ^ 32"] beValue_digit [of "unat v" "2 ^ 24"]
      beValue_digit [of "unat v" "2 ^ 16"] beValue_digit [of "unat v" "2 ^ 8"] beValue_digit [of "unat v" 1] top
    by simp
qed

lemma beValue_bytesBe32: "beValue (bytesBe32 v) = unat v"
proof -
  have u: "map unat (bytesBe32 v) =
      [unat v div 2 ^ 24 mod 256, unat v div 2 ^ 16 mod 256, unat v div 2 ^ 8 mod 256, unat v mod 256]"
    using unat_byte [of 0 v] by (simp only: bytesBe32_def list.map unat_byte drop_bit_0 id_apply power_0 div_by_1)
  have top: "unat v div 2 ^ 24 mod 256 = unat v div 2 ^ 24"
    using unat_u32_less [of v] by (simp add: less_mult_imp_div_less)
  show ?thesis unfolding beValue_map u
    using beValue_digit [of "unat v" "2 ^ 16"] beValue_digit [of "unat v" "2 ^ 8"] beValue_digit [of "unat v" 1] top
    by simp
qed

section \<open>Parsing hexadecimal numbers\<close>

text \<open>The digits as numbers, and what the digits of a text denote.\<close>

definition hexNumber :: "string \<Rightarrow> nat" where
  "hexNumber text = foldl (\<lambda>n c. 16 * n + unat (the (hexValue c))) 0 text"

lemma digit_value:
  assumes "m \<le> n" "n - m + k < 256"
  shows "unat (of_nat n - of_nat m + of_nat k :: u8) = n - m + k"
proof -
  have "(of_nat n - of_nat m + of_nat k :: u8) = of_nat (n - m + k)" using assms(1) by (simp add: of_nat_diff)
  with assms(2) show ?thesis by (simp only:) (rule unat_of_nat_less, simp)
qed

lemma hexValue_range: "hexValue c = Some d \<Longrightarrow> unat d < 16"
proof -
  assume h: "hexValue c = Some d"
  let ?n = "of_char c :: nat"
  consider "48 \<le> ?n" "?n \<le> 57" "d = of_nat ?n - of_nat 48 + of_nat 0"
    | "97 \<le> ?n" "?n \<le> 102" "d = of_nat ?n - of_nat 97 + of_nat 10"
    | "65 \<le> ?n" "?n \<le> 70" "d = of_nat ?n - of_nat 65 + of_nat 10"
    using h by (auto simp: hexValue_def less_eq_char_def split: if_splits)
  then show "unat d < 16"
    by cases (use digit_value [of 48 ?n 0] digit_value [of 97 ?n 10] digit_value [of 65 ?n 10] in simp_all)
qed

lemma push_or_digit:
  assumes "unat d < 16"
  shows "(push_bit 4 (r :: u64) OR ucast (d :: u8)) = 16 * r + ucast d"
proof -
  have "take_bit 4 d = d" using assms
    by (simp add: word_unat_eq_iff unsigned_take_bit_eq take_bit_nat_eq_self_iff)
  then have "\<not> bit d n" if "4 \<le> n" for n using that by (metis bit_take_bit_iff not_less)
  then have "push_bit 4 r AND ucast d = 0"
    by (intro bit_word_eqI) (auto simp: bit_simps)
  then have "push_bit 4 r OR ucast d = push_bit 4 r + ucast d"
    by (rule disjunctive_add_eq_or [symmetric])
  then show ?thesis by (simp add: push_bit_eq_mult mult.commute)
qed

lemma parseHexLoop_spec:
  assumes "unat result < 16 ^ unat digits" "digits \<le> maximumDigits" "maximumDigits \<le> 16"
  shows "parseHexLoop cs maximumDigits digits result =
    (if (\<forall>c\<in>set cs. hexValue c \<noteq> None) \<and> unat digits + length cs \<le> unat maximumDigits \<and> (digits \<noteq> 0 \<or> cs \<noteq> [])
     then Some (of_nat (foldl (\<lambda>n c. 16 * n + unat (the (hexValue c))) (unat result) cs)) else None)"
  using assms
proof (induction cs arbitrary: digits result)
  case Nil
  then show ?case by (simp add: word_le_nat_alt)
next
  case (Cons c cs)
  show ?case
  proof (cases "hexValue c")
    case (Some d)
    show ?thesis
    proof (cases "digits = maximumDigits")
      case True
      with Some show ?thesis by simp
    next
      case False
      with Cons.prems(2) have lt: "unat digits < unat maximumDigits" "unat maximumDigits \<le> 16"
        using Cons.prems(3) by (simp_all add: word_le_nat_alt order.order_iff_strict word_unat_eq_iff)
      have d: "unat d < 16" by (rule hexValue_range [OF Some])
      have sd: "unat (digits + 1) = Suc (unat digits)" using lt by (simp add: unat_word_ariths)
      have "16 * unat result + unat d < 16 ^ Suc (unat digits)" using Cons.prems(1) d by simp
      also have le: "(16 :: nat) ^ Suc (unat digits) \<le> 16 ^ 16" using lt by (intro power_increasing) simp_all
      finally have "16 * unat result + unat d < 2 ^ 64" by simp
      then have r: "unat (push_bit 4 result OR ucast d) = 16 * unat result + unat d"
        unfolding push_or_digit [OF d] by (simp add: unat_word_ariths unsigned_ucast_eq take_bit_nat_eq_self)
      have "unat (push_bit 4 result OR ucast d) < 16 ^ unat (digits + 1)"
        using Cons.prems(1) d unfolding r sd by simp
      from Cons.IH [OF this _ Cons.prems(3)] lt sd r Some False show ?thesis
        by (auto simp: word_le_nat_alt unat_eq_0)
    qed
  qed simp
qed

lemma parseHexUint64_spec:
  assumes "m \<le> 16"
  shows "parseHexUint64 text m =
    (let ds = skipPrefix text in
     if ds \<noteq> [] \<and> length ds \<le> unat m \<and> (\<forall>c\<in>set ds. hexValue c \<noteq> None) then Some (of_nat (hexNumber ds)) else None)"
  using parseHexLoop_spec [of 0 0 m "skipPrefix text"] assms
  by (simp add: parseHexUint64_def hexNumber_def Let_def conj_ac)

lemma hexNumber_bound: "(\<forall>c\<in>set ds. hexValue c \<noteq> None) \<Longrightarrow> hexNumber ds < 16 ^ length ds"
proof (induction ds rule: rev_induct)
  case (snoc c ds)
  then obtain d where "hexValue c = Some d" by auto
  with snoc hexValue_range [OF this] show ?case by (auto simp: hexNumber_def)
qed (simp add: hexNumber_def)

section \<open>The packet\<close>

lemma fillRandom_spec:
  assumes "length (packet s) = 30" "index \<le> 28"
  shows "\<exists>s' rs. fillRandom radio index s = Some s' \<and> length rs = 28 - index \<and>
    packet s' = take index (packet s) @ rs @ drop 28 (packet s) \<and>
    syncSequence s' = syncSequence s \<and> txLog s' = txLog s"
  using assms
proof (induction "28 - index" arbitrary: index s)
  case 0
  then show ?case
    by (subst fillRandom.simps) (auto simp: PAYLOAD_LENGTH_def SYNC_PACKET_CRC_LENGTH_def)
next
  case (Suc n)
  then have lt: "index < 28" by simp
  obtain b s1 where r: "nextRandomByte radio s = (b, s1)" by fastforce
  then have s1: "packet s1 = packet s" "syncSequence s1 = syncSequence s" "txLog s1 = txLog s"
    by (auto simp: nextRandomByte_def Let_def)
  let ?s = "s1\<lparr>packet := (packet s)[index := b]\<rparr>"
  have step: "fillRandom radio index s = fillRandom radio (Suc index) ?s"
    using lt Suc.prems(1) r s1(1)
    by (subst fillRandom.simps) (simp add: PAYLOAD_LENGTH_def SYNC_PACKET_CRC_LENGTH_def)
  have "n = 28 - Suc index" "length (packet ?s) = 30" "Suc index \<le> 28" using Suc by simp_all
  from Suc.hyps(1) [OF this] obtain s' rs where
    h: "fillRandom radio (Suc index) ?s = Some s'" "length rs = 28 - Suc index"
      "packet s' = take (Suc index) (packet ?s) @ rs @ drop 28 (packet ?s)"
      "syncSequence s' = syncSequence ?s" "txLog s' = txLog ?s" by blast
  have "take (Suc index) (packet ?s) = take index (packet s) @ [b]"
    using Suc.prems(1) lt by (simp add: take_update_at)
  with h(3) have "packet s' = take index (packet s) @ (b # rs) @ drop 28 (packet s)"
    using lt by (simp add: drop_update_cancel)
  with h step s1 lt show ?case by (intro exI [of _ s'] exI [of _ "b # rs"]) auto
qed

text \<open>A synchronization packet: 30 bytes with the header, the data behind it, and a checksum that makes
  the CRC of the whole packet zero.\<close>

definition syncPacket :: "u8 list \<Rightarrow> u8 \<Rightarrow> u8 list \<Rightarrow> u8 \<Rightarrow> bool" where
  "syncPacket p type data sequence \<longleftrightarrow> length p = 30 \<and>
     take 8 p = [0x53, 0x59, type, of_nat (length data), 0, 0, sequence, 0] \<and>
     take (length data) (drop 8 p) = data \<and> calculateCrc16 p = 0"

lemma list_2: "length xs = 2 \<Longrightarrow> \<exists>x y. xs = [x, y]"
  by (auto simp: numeral_eq_Suc length_Suc_conv)

lemma take_front: "k = length xs \<Longrightarrow> take k (xs @ ys) = xs"
  by simp

lemma update_last_two:
  assumes "length p = 30"
  shows "p[28 := a, 29 := b] = take 28 p @ [a, b]"
proof -
  have "length (drop 28 p) = 2" using assms by simp
  then obtain x y where d: "drop 28 p = [x, y]" using list_2 by blast
  have "(take 28 p @ [x, y])[28 := a, 29 := b] = take 28 p @ [a, b]"
    using assms by (simp add: list_update_append)
  then show ?thesis using d by (metis append_take_drop_id)
qed

lemma buildSyncPacket_spec:
  assumes "length (packet s) = 30" "length data \<ge> n" "n \<le> 20" "len = of_nat n"
  shows "\<exists>s'. buildSyncPacket radio type data len s = Some s' \<and>
    syncPacket (packet s') type (take n data) (syncSequence s) \<and>
    syncSequence s' = syncSequence s + 1 \<and> txLog s' = txLog s"
proof -
  let ?h = "[0x53, 0x59, type, len, 0, 0, syncSequence s, 0]"
  let ?p = "?h @ take n data @ drop (8 + n) (packet s)"
  let ?s = "s\<lparr>packet := ?p, syncSequence := syncSequence s + 1\<rparr>"
  have len: "unat len = n" unfolding assms(4) by (rule unat_of_nat_less) (use assms(3) in simp)
  have idx: "unat (8 + len) = 8 + n" using len assms(3) by (simp add: unat_word_ariths)
  have "length (packet ?s) = 30" "8 + n \<le> 28" using assms by simp_all
  from fillRandom_spec [OF this, of radio] obtain s1 rs where
    s1: "fillRandom radio (8 + n) ?s = Some s1" "length rs = 20 - n"
      "packet s1 = take (8 + n) ?p @ rs @ drop 28 ?p" "syncSequence s1 = syncSequence s + 1" "txLog s1 = txLog s"
    by auto
  have "8 + n = length (?h @ take n data)" using assms(2) by simp
  from take_front [OF this, of "drop (8 + n) (packet s)"] have front: "take (8 + n) ?p = ?h @ take n data"
    by (simp only: append_assoc)
  have l: "length (packet s1) = 30" using s1(2,3) assms by simp
  let ?b = "?h @ take n data @ rs"
  have body: "take 28 (packet s1) = ?b" using s1(2,3) front assms(2,3) by simp
  let ?c = "calculateCrc16 ?b"
  let ?q = "?b @ [ucast (drop_bit 8 ?c), ucast ?c]"
  have q: "(packet s1)[28 := ucast (drop_bit 8 ?c), 29 := ucast ?c] = ?q"
    using update_last_two [OF l] unfolding body by simp
  have low: "(21337 :: u8) = 0x59" by simp
  have "buildSyncPacket radio type data len s = Some (s1\<lparr>packet := ?q\<rparr>)"
    using assms(1,2,3) s1(1) l q
    by (simp add: buildSyncPacket_def len idx SYNC_PACKET_HEADER_LENGTH_def SYNC_PACKET_MAGIC_def
        SYNC_PACKET_SITE_ID_def SYNC_PACKET_SESSION_ID_def Let_def PAYLOAD_LENGTH_def SYNC_PACKET_CRC_LENGTH_def
        txCrc_eq_bootloader body low del: txCalculateCrc16.simps)
  moreover have "syncPacket ?q type (take n data) (syncSequence s)"
    unfolding syncPacket_def using calculateCrc16_residue [of ?b] assms s1(2) by simp
  ultimately show ?thesis using s1(4,5) by auto
qed

section \<open>The words of the command\<close>

text \<open>One call of the tokenizer in terms of the words that are left.\<close>

lemma strtok_token:
  assumes "stringAt buf p s"
  shows "\<exists>r buf' p' s'. strtok buf p d = Some (r, buf', p') \<and> stringAt buf' p' s' \<and>
    (case tokens d s of [] \<Rightarrow> r = None \<and> tokens d s' = []
     | t # ts \<Rightarrow> \<exists>q. r = Some q \<and> stringAt buf' q t \<and> q + length t \<le> p' \<and> tokens d s' = ts) \<and>
    (\<forall>q0 s0. stringAt buf q0 s0 \<longrightarrow> q0 + length s0 \<le> p \<longrightarrow> stringAt buf' q0 s0 \<and> q0 + length s0 \<le> p')"
proof (cases "dropWhile (\<lambda>c. c \<in> set d) s")
  case Nil
  have p: "strtok buf p d = Some (None, buf, p + length s)" "stringAt buf (p + length s) []"
  proof -
    from assms obtain rest where r: "drop p buf = s @ NUL # rest" "NUL \<notin> set s" by (auto simp: stringAt_def)
    have all: "takeWhile (\<lambda>c. c \<in> set d) s = s" using Nil by (simp add: takeWhile_eq_all_conv)
    have "strspn (drop p buf) d = length s"
      by (simp add: strspn_takeWhile r(1) takeWhile_string [OF r(2), of "\<lambda>c. c \<in> set d"] all)
    then show "strtok buf p d = Some (None, buf, p + length s)"
      using drop_nth [OF r(1)] by (simp add: strtok_def Let_def)
    show "stringAt buf (p + length s) []" using stringAt_suffix [of buf p s "[]"] assms by simp
  qed
  then show ?thesis using tokens_none [OF Nil] tokens_none [of d "[]"] by (intro exI) auto
next
  case (Cons c cs)
  note tk = tokens_some [OF Cons]
  let ?t = "c # takeWhile (\<lambda>c. c \<notin> set d) cs"
  from strtok_some [OF assms Cons] obtain q buf' p' where
    k: "strtok buf p d = Some (Some q, buf', p')" "p \<le> q" "q < p'" "stringAt buf q (c # cs)" "stringAt buf' q ?t"
      "stringAt buf' p' (tl (dropWhile (\<lambda>c. c \<notin> set d) cs))" "q + length ?t \<le> p'"
      "\<forall>q0 s0. stringAt buf q0 s0 \<longrightarrow> q0 + length s0 < q \<longrightarrow> stringAt buf' q0 s0" by blast
  have keep: "stringAt buf' q0 s0 \<and> q0 + length s0 \<le> p'" if "stringAt buf q0 s0" "q0 + length s0 \<le> p" for q0 s0
  proof -
    have "q0 + length s0 \<noteq> q"
      using stringAt_end [OF that(1)] stringAt_start [OF k(4)] by auto
    with k(2,3,8) that show ?thesis by simp
  qed
  show ?thesis
    using k(1,5,6,7) keep tk(2) tokens_rest [of d cs] by (intro exI) auto
qed

definition syncWords :: "tx_radio \<Rightarrow> u8 list \<Rightarrow> char list \<Rightarrow> string list \<Rightarrow> tx_state \<Rightarrow> (string \<times> tx_state) option" where
  "syncWords radio junk response ws s =
     (case ws of [] \<Rightarrow> Some ([], s)
      | [c, a] \<Rightarrow> (case prepareSync radio junk c a s of None \<Rightarrow> None
          | Some (Inl message) \<Rightarrow> Some (message, s)
          | Some (Inr s') \<Rightarrow> sendPacket radio response c s')
      | _ \<Rightarrow> Some (txUsage, s))"

lemma processSyncCommand_words:
  assumes "stringAt line 0 t"
  shows "processSyncCommand radio junk response line s = syncWords radio junk response (tokens blanks t) s"
proof -
  from strtok_token [OF assms, of blanks] obtain r1 l1 e1 t1 where
    k1: "strtok line 0 blanks = Some (r1, l1, e1)" "stringAt l1 e1 t1"
      "case tokens blanks t of [] \<Rightarrow> r1 = None \<and> tokens blanks t1 = []
       | w # ws \<Rightarrow> \<exists>q. r1 = Some q \<and> stringAt l1 q w \<and> q + length w \<le> e1 \<and> tokens blanks t1 = ws" by blast
  from strtok_token [OF k1(2), of blanks] obtain r2 l2 e2 t2 where
    k2: "strtok l1 e1 blanks = Some (r2, l2, e2)" "stringAt l2 e2 t2"
      "case tokens blanks t1 of [] \<Rightarrow> r2 = None \<and> tokens blanks t2 = []
       | w # ws \<Rightarrow> \<exists>q. r2 = Some q \<and> stringAt l2 q w \<and> q + length w \<le> e2 \<and> tokens blanks t2 = ws"
      "\<forall>q0 s0. stringAt l1 q0 s0 \<longrightarrow> q0 + length s0 \<le> e1 \<longrightarrow> stringAt l2 q0 s0 \<and> q0 + length s0 \<le> e2" by blast
  from strtok_token [OF k2(2), of blanks] obtain r3 l3 e3 t3 where
    k3: "strtok l2 e2 blanks = Some (r3, l3, e3)"
      "case tokens blanks t2 of [] \<Rightarrow> r3 = None \<and> tokens blanks t3 = []
       | w # ws \<Rightarrow> \<exists>q. r3 = Some q \<and> stringAt l3 q w \<and> q + length w \<le> e3 \<and> tokens blanks t3 = ws"
      "\<forall>q0 s0. stringAt l2 q0 s0 \<longrightarrow> q0 + length s0 \<le> e2 \<longrightarrow> stringAt l3 q0 s0 \<and> q0 + length s0 \<le> e3" by blast
  note run = k1(1) k2(1) k3(1)
  show ?thesis
  proof (cases "tokens blanks t")
    case Nil
    with k1(3) show ?thesis by (simp add: processSyncCommand_def run syncWords_def)
  next
    case (Cons c ws)
    with k1(3) obtain q1 where q1: "r1 = Some q1" "stringAt l1 q1 c" "q1 + length c \<le> e1" "tokens blanks t1 = ws"
      by auto
    show ?thesis
    proof (cases ws)
      case Nil
      with k2(3) q1(1,4) Cons show ?thesis by (simp add: processSyncCommand_def run syncWords_def)
    next
      case (Cons a ws')
      with k2(3) q1(4) obtain q2 where q2: "r2 = Some q2" "stringAt l2 q2 a" "q2 + length a \<le> e2"
        "tokens blanks t2 = ws'" by auto
      have "cString l3 q1 = c" "cString l3 q2 = a"
        using k2(4) k3(3) q1(2,3) q2(2,3) cString_stringAt by blast+
      with k3(2) q1(1) q2(1,4) \<open>tokens blanks t = c # ws\<close> Cons show ?thesis
        by (cases ws') (auto simp: processSyncCommand_def run syncWords_def)
    qed
  qed
qed

definition txWord :: "string \<Rightarrow> bool" where
  "txWord w \<longleftrightarrow> w \<noteq> [] \<and> NUL \<notin> set w \<and> (\<forall>c\<in>set w. c \<notin> set separators)"

lemma blanks_separators: "set blanks \<subseteq> set separators"
  by (simp add: blanks_def separators_def)

lemma tokens_word:
  assumes "w \<noteq> []" "\<forall>c\<in>set w. c \<notin> set d"
  shows "tokens d w = [w]" "x \<in> set d \<Longrightarrow> tokens d (w @ x # rest) = w # tokens d rest"
proof -
  from assms obtain c cs where w: "w = c # cs" "c \<notin> set d" "\<forall>c\<in>set cs. c \<notin> set d"
    by (cases w) auto
  have "dropWhile (\<lambda>c. c \<in> set d) w = c # cs" using w by simp
  moreover have "takeWhile (\<lambda>c. c \<notin> set d) cs = cs" "dropWhile (\<lambda>c. c \<notin> set d) cs = []"
    using w(3) by (simp_all add: takeWhile_eq_all_conv)
  ultimately show "tokens d w = [w]" using tokens_some(2) [of d w c cs] tokens_none [of d "[]"] w(1)
    by (metis dropWhile.simps(1))
  assume x: "x \<in> set d"
  have "dropWhile (\<lambda>c. c \<in> set d) (w @ x # rest) = c # cs @ x # rest" using w by simp
  moreover have "takeWhile (\<lambda>c. c \<notin> set d) (cs @ x # rest) = cs" "dropWhile (\<lambda>c. c \<notin> set d) (cs @ x # rest) = x # rest"
    using w(3) x by (simp_all add: takeWhile_append2 dropWhile_append2)
  ultimately show "tokens d (w @ x # rest) = w # tokens d rest"
    using tokens_some(2) [of d "w @ x # rest" c "cs @ x # rest"] w(1) tokens_skip [OF x, of rest] by simp
qed

lemma tokens_line:
  assumes "txWord c" "txWord a"
  shows "tokens blanks (take 63 (c @ '' '' @ a)) =
    (if length c < 62 then [c, take (62 - length c) a] else [take 63 c])"
proof -
  have nb: "\<forall>x\<in>set c. x \<notin> set blanks" "\<forall>x\<in>set a. x \<notin> set blanks" "c \<noteq> []" "a \<noteq> []"
    using assms blanks_separators by (auto simp: txWord_def)
  have sp: "CHR '' '' \<in> set blanks" by (simp add: blanks_def)
  consider "length c < 62" | "length c = 62" | "length c > 62" by linarith
  then show ?thesis
  proof cases
    case 1
    then have t: "take 63 (c @ '' '' @ a) = c @ CHR '' '' # take (62 - length c) a" by (simp add: take_Cons')
    have "take (62 - length c) a \<noteq> []" "\<forall>x\<in>set (take (62 - length c) a). x \<notin> set blanks"
      using 1 nb by (auto dest: in_set_takeD)
    from tokens_word(1) [OF this] 1 show ?thesis unfolding t tokens_word(2) [OF nb(3,1) sp] by simp
  next
    case 2
    then have t: "take 63 (c @ '' '' @ a) = c @ CHR '' '' # []" by simp
    show ?thesis unfolding t tokens_word(2) [OF nb(3,1) sp] using 2 tokens_none [of blanks "[]"] by simp
  next
    case 3
    then have "take 63 (c @ '' '' @ a) = take 63 c" by simp
    moreover have "\<forall>x\<in>set (take 63 c). x \<notin> set blanks" "take 63 c \<noteq> []" using nb by (auto dest: in_set_takeD)
    ultimately show ?thesis using tokens_word(1) 3 by simp
  qed
qed

definition hexOk :: "nat \<Rightarrow> string \<Rightarrow> bool" where
  "hexOk n a \<longleftrightarrow> (let ds = skipPrefix a in ds \<noteq> [] \<and> length ds \<le> n \<and> (\<forall>c\<in>set ds. hexValue c \<noteq> None))"

lemma parse_hexOk:
  assumes "m \<le> 16"
  shows "parseHexUint64 a m = (if hexOk (unat m) a then Some (of_nat (hexNumber (skipPrefix a))) else None)"
  using parseHexUint64_spec [OF assms, of a] by (simp add: hexOk_def Let_def)

lemma skipPrefix_length: "length a \<le> length (skipPrefix a) + 2" "length (skipPrefix a) \<le> length a"
  by (auto simp: skipPrefix_def)

lemma parse_truncated:
  assumes "m \<le> 16" "20 \<le> k"
  shows "parseHexUint64 (take k a) m = parseHexUint64 a m"
proof (cases "length a \<le> k")
  case False
  have "unat m \<le> 16" using assms(1) by (simp add: word_le_nat_alt)
  then have "\<not> hexOk (unat m) a" "\<not> hexOk (unat m) (take k a)"
    using False assms(2) skipPrefix_length(1) [of a] skipPrefix_length(1) [of "take k a"]
    by (auto simp: hexOk_def Let_def)
  then show ?thesis by (simp add: parse_hexOk [OF assms(1)])
qed simp

lemma prepareSync_truncated:
  assumes "length c < 62"
  shows "prepareSync radio junk c (take (62 - length c) a) s = prepareSync radio junk c a s"
  using parse_truncated [of 16 "62 - length c" a] parse_truncated [of 8 "62 - length c" a]
  by (auto simp: prepareSync_def)

lemma hexDigits_not_NUL: "NUL \<notin> set (hexDigits k n)"
  by (induction k arbitrary: n) (auto simp: digitChar_not_NUL [symmetric] dest: digitChar_not_NUL [of "_ mod 16"])

lemma txAnswer_fits:
  assumes "length response = 64" "length c \<le> 10" "NUL \<notin> set c"
  shows "\<exists>r n. snprintf response 0 64 (txAnswer radio c reason st q) = Some (r, n) \<and>
    cString r 0 = concat (txAnswer radio c reason st q)"
proof -
  have "length (natDigits (unat q)) \<le> 3" using length_natDigits [of "unat q" 2] unat_u8_less [of q] by simp
  then have "length (concat (txAnswer radio c reason st q)) < 64"
    using assms(2) by (auto simp: txAnswer_def crlf_def)
  moreover have "NUL \<notin> set (concat (txAnswer radio c reason st q))"
    using assms(3) natDigits_not_NUL [of "unat q"] hexDigits_not_NUL
    by (simp add: txAnswer_def crlf_def) (simp add: NUL_def)
  ultimately show ?thesis using cString_fits [OF assms(1)] by blast
qed

definition txAccepted :: "string list \<Rightarrow> bool" where
  "txAccepted argv \<longleftrightarrow> length argv = 3 \<and>
     (argv ! 1 = ''sync_time'' \<and> hexOk 16 (argv ! 2) \<or> argv ! 1 = ''sync_frame'' \<and> hexOk 8 (argv ! 2))"

definition txPacketFor :: "string list \<Rightarrow> u8 \<Rightarrow> u8 list \<Rightarrow> bool" where
  "txPacketFor argv sequence p \<longleftrightarrow>
     (\<exists>data. beValue data = hexNumber (skipPrefix (argv ! 2)) \<and>
        (if argv ! 1 = ''sync_time'' then length data = 8 \<and> syncPacket p SYNC_PACKET_TYPE_TIME data sequence
         else length data = 4 \<and> syncPacket p SYNC_PACKET_TYPE_FRAME data sequence))"

lemma prepareSync_accepted:
  assumes "length (packet s) = 30" "length junk = 8" "txAccepted argv"
  shows "\<exists>s'. prepareSync radio junk (argv ! 1) (argv ! 2) s = Some (Inr s') \<and>
    txPacketFor argv (syncSequence s) (packet s') \<and> syncSequence s' = syncSequence s + 1 \<and> txLog s' = txLog s"
proof (cases "argv ! 1 = ''sync_time''")
  case True
  let ?ds = "skipPrefix (argv ! 2)"
  from assms(3) True have ok: "hexOk 16 (argv ! 2)" by (auto simp: txAccepted_def)
  let ?v = "of_nat (hexNumber ?ds) :: u64"
  have ds: "length ?ds \<le> 16" "hexNumber ?ds < 16 ^ length ?ds"
    using ok hexNumber_bound [of ?ds] by (auto simp: hexOk_def Let_def)
  from ds(1) have "(16::nat) ^ length ?ds \<le> 16 ^ 16" by (rule power_increasing) simp
  with ds(2) have v: "unat ?v = hexNumber ?ds" by (intro unat_of_nat_less) simp
  have l: "length (bytesBe64 ?v) = 8" by (simp add: bytesBe64_def)
  from buildSyncPacket_spec [OF assms(1), of 8 "bytesBe64 ?v" 8 radio SYNC_PACKET_TYPE_TIME] l obtain s' where
    s': "buildSyncPacket radio SYNC_PACKET_TYPE_TIME (bytesBe64 ?v) 8 s = Some s'"
      "syncPacket (packet s') SYNC_PACKET_TYPE_TIME (bytesBe64 ?v) (syncSequence s)"
      "syncSequence s' = syncSequence s + 1" "txLog s' = txLog s" by auto
  have "prepareSync radio junk (argv ! 1) (argv ! 2) s = Some (Inr s')"
    using True ok s'(1) writeUint64Be_bytes [OF assms(2), of ?v]
    by (simp add: prepareSync_def parse_hexOk SYNC_TIME_PAYLOAD_LENGTH_def)
  moreover have "txPacketFor argv (syncSequence s) (packet s')"
    using True l v s'(2) beValue_bytesBe64 [of ?v] by (auto simp: txPacketFor_def)
  ultimately show ?thesis using s'(3,4) by blast
next
  case False
  let ?ds = "skipPrefix (argv ! 2)"
  from assms(3) False have c: "argv ! 1 = ''sync_frame''" and ok: "hexOk 8 (argv ! 2)" by (auto simp: txAccepted_def)
  let ?v = "ucast (of_nat (hexNumber ?ds) :: u64) :: u32"
  have ds: "length ?ds \<le> 8" "hexNumber ?ds < 16 ^ length ?ds"
    using ok hexNumber_bound [of ?ds] by (auto simp: hexOk_def Let_def)
  from ds(1) have "(16::nat) ^ length ?ds \<le> 16 ^ 8" by (rule power_increasing) simp
  with ds(2) have n: "hexNumber ?ds < 2 ^ 32" by simp
  then have "unat (of_nat (hexNumber ?ds) :: u64) = hexNumber ?ds" by (intro unat_of_nat_less) simp
  with n have v: "unat ?v = hexNumber ?ds" by (simp add: unsigned_ucast_eq take_bit_nat_eq_self)
  have l: "length (bytesBe32 ?v) = 4" by (simp add: bytesBe32_def)
  obtain rest where w: "writeUint32Be junk ?v = Some (bytesBe32 ?v @ rest)"
    using writeUint32Be_bytes [OF assms(2)] by blast
  from buildSyncPacket_spec [OF assms(1), of 4 "bytesBe32 ?v @ rest" 4 radio SYNC_PACKET_TYPE_FRAME] l obtain s' where
    s': "buildSyncPacket radio SYNC_PACKET_TYPE_FRAME (bytesBe32 ?v @ rest) 4 s = Some s'"
      "syncPacket (packet s') SYNC_PACKET_TYPE_FRAME (bytesBe32 ?v) (syncSequence s)"
      "syncSequence s' = syncSequence s + 1" "txLog s' = txLog s" by auto
  have "prepareSync radio junk (argv ! 1) (argv ! 2) s = Some (Inr s')"
    using c ok s'(1) w by (simp add: prepareSync_def parse_hexOk SYNC_FRAME_PAYLOAD_LENGTH_def)
  moreover have "txPacketFor argv (syncSequence s) (packet s')"
    using c l v s'(2) beValue_bytesBe32 [of ?v] by (auto simp: txPacketFor_def)
  ultimately show ?thesis using s'(3,4) by blast
qed

lemma prepareSync_refused:
  assumes "\<not> (c = ''sync_time'' \<and> hexOk 16 a \<or> c = ''sync_frame'' \<and> hexOk 8 a)"
  shows "\<exists>message. prepareSync radio junk c a s = Some (Inl (''ERR '' @ message))"
  using assms by (auto simp: prepareSync_def parse_hexOk)

lemma sendPacket_spec:
  assumes "length response = 64" "length c \<le> 10" "NUL \<notin> set c" "syncPacket (packet s) type data q"
  shows "sendPacket radio response c s =
    (case RF_runCmd radio (packet s) of (reason, st) \<Rightarrow>
       Some (concat (txAnswer radio c reason st q), s\<lparr>txLog := txLog s @ [Dio1 True, Transmit (packet s), Dio1 False]\<rparr>))"
proof -
  obtain reason st where r: "RF_runCmd radio (packet s) = (reason, st)" by fastforce
  have l: "length (packet s) = 30" and t: "take 8 (packet s) = [0x53, 0x59, type, of_nat (length data), 0, 0, q, 0]"
    using assms(4) by (simp_all add: syncPacket_def)
  have "packet s ! 6 = take 8 (packet s) ! 6" by simp
  also have "\<dots> = q" unfolding t by simp
  finally have q: "fetch (packet s) 6 = Some q" using l by simp
  from txAnswer_fits [OF assms(1-3)] obtain b n where
    "snprintf response 0 64 (txAnswer radio c reason st q) = Some (b, n)"
    "cString b 0 = concat (txAnswer radio c reason st q)" by blast
  with q show ?thesis by (simp add: sendPacket_def r Let_def)
qed

lemma tx_command_two:
  assumes "length line = TX_CLI_LINE_LENGTH" "length argv = 2" "txWord (argv ! 1)"
  shows "tx_command radio junk response line argv s = Some (txUsage, s)"
proof -
  from assms(3) have nul: "NUL \<notin> set (concat [argv ! 1])" by (simp add: txWord_def)
  from snprintf_stringAt [OF assms(1) _ nul] obtain line' where
    l: "snprintf line 0 64 [argv ! 1] = Some (line', length (concat [argv ! 1]))" "stringAt line' 0 (take 63 (argv ! 1))"
    by (auto simp: TX_CLI_LINE_LENGTH_def)
  have "take 63 (argv ! 1) \<noteq> []" "\<forall>c\<in>set (take 63 (argv ! 1)). c \<notin> set blanks"
    using assms(3) blanks_separators by (auto simp: txWord_def dest: in_set_takeD)
  from tokens_word(1) [OF this] assms(2) l show ?thesis
    by (auto simp: tx_command_def TX_CLI_LINE_LENGTH_def processSyncCommand_words [OF l(2)] syncWords_def)
qed

lemma tx_command_three:
  assumes "length line = TX_CLI_LINE_LENGTH" "length argv = 3" "c = argv ! 1" "a = argv ! 2" "txWord c" "txWord a"
  shows "tx_command radio junk response line argv s =
    syncWords radio junk response (if length c < 62 then [c, take (62 - length c) a] else [take 63 c]) s"
proof -
  have nul: "NUL \<notin> set (concat [c, '' '', a])" using assms(5,6) by (auto simp: txWord_def NUL_def)
  from snprintf_stringAt [OF assms(1) _ nul] obtain line' where
    l: "snprintf line 0 64 [c, '' '', a] = Some (line', length (concat [c, '' '', a]))"
      "stringAt line' 0 (take 63 (c @ '' '' @ a))"
    by (auto simp: TX_CLI_LINE_LENGTH_def)
  have "processSyncCommand radio junk response line' s =
      syncWords radio junk response (if length c < 62 then [c, take (62 - length c) a] else [take 63 c]) s"
    by (simp only: processSyncCommand_words [OF l(2)] tokens_line [OF assms(5,6)])
  then show ?thesis using assms(2,3,4) l(1) by (simp add: tx_command_def TX_CLI_LINE_LENGTH_def)
qed

text \<open>Every argument list, accepted or not.\<close>

lemma tx_command_spec:
  assumes "length (packet s) = PAYLOAD_LENGTH" "length junk = SYNC_TIME_PAYLOAD_LENGTH" "length response = 64"
    and "length line = TX_CLI_LINE_LENGTH" "\<forall>w\<in>set argv. txWord w"
  shows "if txAccepted argv
    then \<exists>s'. tx_command radio junk response line argv s =
        (case RF_runCmd radio (packet s') of (reason, st) \<Rightarrow>
           Some (concat (txAnswer radio (argv ! 1) reason st (syncSequence s)), s')) \<and>
      txPacketFor argv (syncSequence s) (packet s') \<and> syncSequence s' = syncSequence s + 1 \<and>
      txLog s' = txLog s @ [Dio1 True, Transmit (packet s'), Dio1 False]
    else \<exists>message. tx_command radio junk response line argv s = Some (''ERR '' @ message, s)"
proof (cases "length argv = 3")
  case False
  have refused: "\<not> txAccepted argv" using False by (simp add: txAccepted_def)
  show ?thesis
  proof (cases "length argv = 2")
    case True
    then have "txWord (argv ! 1)" using assms(5) by simp
    with True refused show ?thesis by (simp add: tx_command_two [OF assms(4)] txUsage_def)
  next
    case False
    with \<open>length argv \<noteq> 3\<close> refused show ?thesis by (auto simp: tx_command_def cli_error_def)
  qed
next
  case True
  let ?c = "argv ! 1" let ?a = "argv ! 2"
  have w: "txWord ?c" "txWord ?a" using True assms(5) by simp_all
  note run = tx_command_three [OF assms(4) True refl refl w, of radio junk response s]
  show ?thesis
  proof (cases "txAccepted argv")
    case acc: True
    then have c: "length ?c \<le> 10" "NUL \<notin> set ?c" using w(1) by (auto simp: txAccepted_def txWord_def)
    have "length (packet s) = 30" "length junk = 8"
      using assms(1,2) by (simp_all add: PAYLOAD_LENGTH_def SYNC_TIME_PAYLOAD_LENGTH_def)
    from prepareSync_accepted [OF this acc, of radio] obtain s1 where
      s1: "prepareSync radio junk ?c ?a s = Some (Inr s1)" "txPacketFor argv (syncSequence s) (packet s1)"
        "syncSequence s1 = syncSequence s + 1" "txLog s1 = txLog s" by blast
    obtain type data where sp: "syncPacket (packet s1) type data (syncSequence s)"
      using s1(2) by (auto simp: txPacketFor_def split: if_splits)
    let ?s = "s1\<lparr>txLog := txLog s1 @ [Dio1 True, Transmit (packet s1), Dio1 False]\<rparr>"
    have "tx_command radio junk response line argv s =
        (case RF_runCmd radio (packet s1) of (reason, st) \<Rightarrow> Some (concat (txAnswer radio ?c reason st (syncSequence s)), ?s))"
      using c(1) s1(1) sendPacket_spec [OF assms(3) c sp]
      by (simp add: run syncWords_def prepareSync_truncated)
    with acc s1 show ?thesis by (auto intro!: exI [of _ ?s])
  next
    case False
    show ?thesis
    proof (cases "length ?c < 62")
      case short: True
      from False True prepareSync_refused [of ?c ?a radio junk s] obtain message where
        "prepareSync radio junk ?c ?a s = Some (Inl (''ERR '' @ message))" by (auto simp: txAccepted_def)
      with False short show ?thesis by (simp add: run syncWords_def prepareSync_truncated)
    next
      case long: False
      with False show ?thesis by (auto simp: run syncWords_def txUsage_def)
    qed
  qed
qed

section \<open>Properties\<close>

text \<open>C27. The \<open>tx\<close> command transmits exactly the requests it should. For arguments as the command line
  produces them, \<open>sync_time\<close> with one to sixteen hexadecimal digits and \<open>sync_frame\<close> with one to
  eight (after an optional \<open>0x\<close>) put one packet on the air, between the two edges of the
  measurement pin: 30 bytes with the header, the next sequence number, the number in big-endian
  order and a checksum under which the CRC of the packet is zero; the answer reports the result
  of the radio command in full. Everything else, however long, is answered with an error and
  changes nothing.\<close>

theorem tx_command_transmits_requests:
  assumes "length (packet s) = PAYLOAD_LENGTH" "length junk = SYNC_TIME_PAYLOAD_LENGTH" "length response = 64"
    and "length line = TX_CLI_LINE_LENGTH" "\<forall>w\<in>set argv. txWord w"
  shows "if txAccepted argv
    then \<exists>s'. tx_command radio junk response line argv s =
        (case RF_runCmd radio (packet s') of (reason, st) \<Rightarrow>
           Some (concat (txAnswer radio (argv ! 1) reason st (syncSequence s)), s')) \<and>
      txPacketFor argv (syncSequence s) (packet s') \<and> syncSequence s' = syncSequence s + 1 \<and>
      txLog s' = txLog s @ [Dio1 True, Transmit (packet s'), Dio1 False]
    else \<exists>message. tx_command radio junk response line argv s = Some (''ERR '' @ message, s)"
  using tx_command_spec [OF assms] .

definition demoRadio :: tx_radio where
  "demoRadio = \<lparr>RF_runCmd = (\<lambda>p. (1, 0x3400)), RF_EventLastCmdDone = 1, PROP_DONE_OK = 0x3400,
     Clock_getTicks = (\<lambda>n. of_nat n)\<rparr>"

theorem tx_command_transmits_requests_witness:
  "\<exists>s'. tx_command demoRadio (replicate 8 0) (replicate 64 NUL) (replicate 64 NUL) [''tx'', ''sync_time'', ''0x1F''] initialTx =
     Some (concat (txAnswer demoRadio ''sync_time'' 1 0x3400 0), s') \<and> syncSequence s' = 1"
proof -
  have sep: "txWord ''tx'' \<and> txWord ''sync_time'' \<and> txWord ''0x1F''"
    by (simp add: txWord_def separators_def NUL_def)
  have "hexValue (CHR ''1'') \<noteq> None" "hexValue (CHR ''F'') \<noteq> None"
    by (simp_all add: hexValue_def less_eq_char_def)
  then have acc: "txAccepted [''tx'', ''sync_time'', ''0x1F'']"
    by (simp add: txAccepted_def hexOk_def skipPrefix_def)
  have r: "RF_runCmd demoRadio p = (1, 0x3400)" for p by (simp add: demoRadio_def)
  show ?thesis
    using tx_command_transmits_requests [of initialTx "replicate 8 0" "replicate 64 NUL" "replicate 64 NUL"
        "[''tx'', ''sync_time'', ''0x1F'']" demoRadio] sep acc
    by (auto simp: initialTx_def SYNC_TIME_PAYLOAD_LENGTH_def TX_CLI_LINE_LENGTH_def r)
qed

end
