(* ===== verification/Rf_Settings.thy ===== *)
theory Rf_Settings
  imports Prelude
begin

text \<open>
  The radio commands and register overrides of \<open>smartrf_settings.c\<close>. The override macros belong to the
  device SDK, so an override entry is kept as the macro and its arguments; a pointer field is the
  name of the object it points to, \<open>None\<close> for a null pointer.
\<close>

section \<open>Command structures\<close>

record rf_trigger =
  triggerType :: u8
  bEnaCmd :: bool
  triggerNo :: u8
  pastTrig :: bool

record rf_condition =
  rule :: u8
  nSkip :: u8

record rfc_radioOp =
  commandNo :: u16
  opStatus :: u16
  pNextOp :: "string option"
  startTime :: u32
  startTrigger :: rf_trigger
  condition :: rf_condition

record rfc_CMD_PROP_RADIO_DIV_SETUP_t = rfc_radioOp +
  modType :: u8
  deviation :: u16
  preScale :: u8
  rateWord :: u32
  decimMode :: u8
  rxBw :: u8
  nPreamBytes :: u8
  preamMode :: u8
  nSwBits :: u8
  bBitReversal :: bool
  bMsbFirst :: bool
  fecMode :: u8
  setupWhitenMode :: u8
  frontEndMode :: u8
  biasMode :: bool
  analogCfgMode :: u8
  bNoFsPowerUp :: bool
  txPower :: u16
  pRegOverride :: "string option"
  centerFreq :: u16
  intFreq :: u16
  loDivider :: u8

record rfc_CMD_FS_t = rfc_radioOp +
  frequency :: u16
  fractFreq :: u16
  bTxMode :: bool
  refFreq :: u8

record rfc_CMD_PROP_TX_t = rfc_radioOp +
  txFsOff :: bool
  txUseCrc :: bool
  txVarLen :: bool
  pktLen :: u8
  txSyncWord :: u32
  pPkt :: "string option"

record rfc_CMD_PROP_RX_t = rfc_radioOp +
  rxFsOff :: bool
  bRepeatOk :: bool
  bRepeatNok :: bool
  rxUseCrc :: bool
  rxVarLen :: bool
  bChkAddress :: bool
  endType :: bool
  filterOp :: bool
  bAutoFlushIgnored :: bool
  bAutoFlushCrcErr :: bool
  bIncludeHdr :: bool
  bIncludeCrc :: bool
  bAppendRssi :: bool
  bAppendTimestamp :: bool
  bAppendStatus :: bool
  rxSyncWord :: u32
  maxPktLen :: u8
  address0 :: u8
  address1 :: u8
  endTrigger :: rf_trigger
  endTime :: u32
  pQueue :: "string option"
  pOutput :: "string option"

record rfc_CMD_TX_TEST_t = rfc_radioOp +
  bUseCw :: bool
  testFsOff :: bool
  testWhitenMode :: u8
  txWord :: u16
  testEndTrigger :: rf_trigger
  testSyncWord :: u32
  testEndTime :: u32

record RF_Mode =
  rfMode :: string
  cpePatchFxn :: "string option"
  mcePatchFxn :: "string option"
  rfePatchFxn :: "string option"

section \<open>The settings\<close>

datatype rf_override =
    MCE_RFE_OVERRIDE nat nat nat nat nat nat
  | HW_REG_OVERRIDE u16 u16
  | ADI_REG_OVERRIDE nat nat u8
  | ADI_HALFREG_OVERRIDE nat nat u8 u8
  | HW32_ARRAY_OVERRIDE u16 nat
  | RawOverride u32

definition RF_prop :: RF_Mode where
  "RF_prop = \<lparr>rfMode = ''RF_MODE_PROPRIETARY_SUB_1'', cpePatchFxn = Some ''rf_patch_cpe_genfsk'',
     mcePatchFxn = None, rfePatchFxn = Some ''rf_patch_rfe_genfsk''\<rparr>"

definition pOverrides :: "bool \<Rightarrow> rf_override list" where
  "pOverrides CCFG_FORCE_VDDR_HH =
     [MCE_RFE_OVERRIDE 0 4 0 1 0 0,
      HW_REG_OVERRIDE 0x4038 0x0037,
      RawOverride 0x000684A3,
      HW_REG_OVERRIDE 0x4020 0x7F00,
      HW_REG_OVERRIDE 0x4064 0x0040,
      RawOverride 0xB1070503,
      RawOverride 0x05330523,
      RawOverride 0x0A480583,
      RawOverride 0x7AB80603,
      ADI_REG_OVERRIDE 1 4 0x9F,
      ADI_HALFREG_OVERRIDE 1 7 0x4 0x4,
      RawOverride 0x02010403,
      RawOverride 0x00108463,
      RawOverride 0x04B00243,
      HW32_ARRAY_OVERRIDE 0x405C 1,
      RawOverride 0x18000280,
      ADI_HALFREG_OVERRIDE 0 61 0xF 0xD,
      RawOverride 0x00038883,
      HW_REG_OVERRIDE 0x6084 0x35F1,
      HW_REG_OVERRIDE 0x6088 0x411A,
      HW_REG_OVERRIDE 0x608C 0x8213,
      RawOverride 0x000288A3] @
     (if CCFG_FORCE_VDDR_HH then [ADI_REG_OVERRIDE 0 12 0xF8] else []) @
     [RawOverride 0xFFFFFFFF]"

definition RF_cmdPropRadioDivSetup :: rfc_CMD_PROP_RADIO_DIV_SETUP_t where
  "RF_cmdPropRadioDivSetup =
     \<lparr>commandNo = 0x3807, opStatus = 0x0000, pNextOp = None, startTime = 0x00000000,
      startTrigger = \<lparr>triggerType = 0x0, bEnaCmd = False, triggerNo = 0x0, pastTrig = False\<rparr>,
      condition = \<lparr>rule = 0x1, nSkip = 0x0\<rparr>,
      modType = 0x1, deviation = 0x64, preScale = 0xF, rateWord = 0x8000, decimMode = 0x0, rxBw = 0x24,
      nPreamBytes = 0x4, preamMode = 0x0, nSwBits = 0x20, bBitReversal = False, bMsbFirst = True,
      fecMode = 0x0, setupWhitenMode = 0x0, frontEndMode = 0x0, biasMode = True, analogCfgMode = 0x0,
      bNoFsPowerUp = False, txPower = 0x08C0, pRegOverride = Some ''pOverrides'', centerFreq = 0x01B1,
      intFreq = 0x8000, loDivider = 0x0A\<rparr>"

definition RF_cmdFs :: rfc_CMD_FS_t where
  "RF_cmdFs =
     \<lparr>commandNo = 0x0803, opStatus = 0x0000, pNextOp = None, startTime = 0x00000000,
      startTrigger = \<lparr>triggerType = 0x0, bEnaCmd = False, triggerNo = 0x0, pastTrig = False\<rparr>,
      condition = \<lparr>rule = 0x1, nSkip = 0x0\<rparr>,
      frequency = 0x01B1, fractFreq = 0x0000, bTxMode = False, refFreq = 0x0\<rparr>"

definition RF_cmdPropTx :: rfc_CMD_PROP_TX_t where
  "RF_cmdPropTx =
     \<lparr>commandNo = 0x3801, opStatus = 0x0000, pNextOp = None, startTime = 0x00000000,
      startTrigger = \<lparr>triggerType = 0x0, bEnaCmd = False, triggerNo = 0x0, pastTrig = False\<rparr>,
      condition = \<lparr>rule = 0x1, nSkip = 0x0\<rparr>,
      txFsOff = False, txUseCrc = True, txVarLen = True, pktLen = 0x1E, txSyncWord = 0x930B51DE, pPkt = None\<rparr>"

definition RF_cmdPropRx :: rfc_CMD_PROP_RX_t where
  "RF_cmdPropRx =
     \<lparr>commandNo = 0x3802, opStatus = 0x0000, pNextOp = None, startTime = 0x00000000,
      startTrigger = \<lparr>triggerType = 0x0, bEnaCmd = False, triggerNo = 0x0, pastTrig = False\<rparr>,
      condition = \<lparr>rule = 0x1, nSkip = 0x0\<rparr>,
      rxFsOff = False, bRepeatOk = False, bRepeatNok = False, rxUseCrc = True, rxVarLen = True,
      bChkAddress = False, endType = False, filterOp = False,
      bAutoFlushIgnored = False, bAutoFlushCrcErr = False, bIncludeHdr = True, bIncludeCrc = False,
      bAppendRssi = False, bAppendTimestamp = False, bAppendStatus = True,
      rxSyncWord = 0x930B51DE, maxPktLen = 0xFF, address0 = 0xAA, address1 = 0xBB,
      endTrigger = \<lparr>triggerType = 0x1, bEnaCmd = False, triggerNo = 0x0, pastTrig = False\<rparr>,
      endTime = 0x00000000, pQueue = None, pOutput = None\<rparr>"

definition RF_cmdTxTest :: rfc_CMD_TX_TEST_t where
  "RF_cmdTxTest =
     \<lparr>commandNo = 0x0808, opStatus = 0x0000, pNextOp = None, startTime = 0x00000000,
      startTrigger = \<lparr>triggerType = 0x0, bEnaCmd = False, triggerNo = 0x0, pastTrig = False\<rparr>,
      condition = \<lparr>rule = 0x1, nSkip = 0x0\<rparr>,
      bUseCw = False, testFsOff = True, testWhitenMode = 0x2, txWord = 0xABCD,
      testEndTrigger = \<lparr>triggerType = 0x1, bEnaCmd = False, triggerNo = 0x0, pastTrig = False\<rparr>,
      testSyncWord = 0x930B51DE, testEndTime = 0x00000000\<rparr>"

section \<open>What a received packet occupies\<close>

text \<open>The bytes that the radio stores for a packet of \<open>n\<close> bytes under a receive configuration, as the
  flags of the command say.\<close>

definition storedBytes :: "rfc_CMD_PROP_RX_t \<Rightarrow> nat \<Rightarrow> nat" where
  "storedBytes c n = (if bIncludeHdr c then 1 else 0) + n + (if bIncludeCrc c then 2 else 0) +
     (if bAppendRssi c then 1 else 0) + (if bAppendTimestamp c then 4 else 0) + (if bAppendStatus c then 1 else 0)"

end
