(* ===== verification/Radio_Threads.thy ===== *)
theory Radio_Threads
  imports Radio_Rx Radio_Tx Rf_Settings Boot_Client
begin

text \<open>
  The radio threads (\<open>firmware_rx_thread\<close> in \<open>firmware.c\<close>, \<open>firmware_tx_thread\<close> in \<open>firmware_tx.c\<close>): how
  they configure the commands of \<open>smartrf_settings.c\<close> and when they report readiness, and what the
  settings of the two roles mean for a packet on its way from one to the other. The results of
  the pin and RF drivers are parameters.
\<close>

section \<open>The receiver thread\<close>

record rx_driver =
  pinOpens :: bool
  rfOpens :: bool
  fsResult :: u64
  lastCmdDone :: u64
  cmdCancelled :: u64
  cmdAborted :: u64
  cmdStopped :: u64
  knownStatus :: "u32 list"

text \<open>The changes the thread makes to \<open>CMD_PROP_RX\<close>.\<close>

definition configureRx :: "rfc_CMD_PROP_RX_t \<Rightarrow> rfc_CMD_PROP_RX_t" where
  "configureRx cmd = cmd\<lparr>pQueue := Some ''dataQueue'', bAutoFlushIgnored := True, bAutoFlushCrcErr := False,
     bAppendRssi := True, maxPktLen := of_nat MAX_LENGTH, bRepeatOk := True, bRepeatNok := True\<rparr>"

text \<open>Up to the point where the radio is ready: \<open>None\<close> is one of the endless loops, otherwise the receive
  command that is started, the entries and the read pointer, and the application state after the
  readiness report.\<close>

definition firmware_rx_thread ::
  "rf_codes \<Rightarrow> rx_driver \<Rightarrow> BlApi \<Rightarrow> nat \<Rightarrow> entries \<Rightarrow> nat \<Rightarrow> app_state \<Rightarrow>
   (rfc_CMD_PROP_RX_t \<times> entries \<times> dataQueue_t \<times> nat \<times> app_state) option" where
  "firmware_rx_thread codes drv table rxDataEntryBuffer mem r a =
     (if \<not> pinOpens drv then None
      else
        (case RFQueue_defineQueue codes mem \<lparr>pCurrEntry = 0, pLastEntry = None\<rparr> r rxDataEntryBuffer
                (of_nat (RF_QUEUE_DATA_ENTRY_BUFFER_SIZE NUM_DATA_ENTRIES MAX_LENGTH NUM_APPENDED_BYTES))
                (of_nat NUM_DATA_ENTRIES) (of_nat (MAX_LENGTH + NUM_APPENDED_BYTES)) of
           (result, mem, queue, r) \<Rightarrow>
             if result \<noteq> 0 then None
             else if \<not> rfOpens drv \<or> fsResult drv \<noteq> lastCmdDone drv then None
             else Some (configureRx RF_cmdPropRx, mem, queue, r, firmwareStartupMarkRfReady table a)))"

text \<open>After the receive command has ended, whatever the reason and the status: the thread never returns.
  The result says in which of the endless loops it is.\<close>

datatype end_loop = UncaughtEvent | UncaughtStatus | Finished

definition rxEnd :: "rx_driver \<Rightarrow> u64 \<Rightarrow> u32 \<Rightarrow> end_loop" where
  "rxEnd drv terminationReason cmdStatus =
     (if terminationReason \<notin> {lastCmdDone drv, cmdCancelled drv, cmdAborted drv, cmdStopped drv} then UncaughtEvent
      else if cmdStatus \<notin> set (knownStatus drv) then UncaughtStatus
      else Finished)"

section \<open>The transmitter thread\<close>

record tx_driver =
  txPinOpens :: bool
  txRfOpens :: bool
  txFsResult :: u64
  TRIG_NOW :: u8

definition configureTx :: "u8 \<Rightarrow> rfc_CMD_PROP_TX_t \<Rightarrow> rfc_CMD_PROP_TX_t" where
  "configureTx trigNow cmd = cmd\<lparr>pktLen := of_nat PAYLOAD_LENGTH, pPkt := Some ''packet'',
     startTrigger := (startTrigger cmd)\<lparr>triggerType := trigNow\<rparr>\<rparr>"

text \<open>The transmitter thread up to the semaphore on which it waits forever.\<close>

definition firmware_tx_thread ::
  "tx_radio \<Rightarrow> tx_driver \<Rightarrow> BlApi \<Rightarrow> app_state \<Rightarrow> (rfc_CMD_PROP_TX_t \<times> app_state) option" where
  "firmware_tx_thread radio drv table a =
     (if \<not> txPinOpens drv then None
      else if \<not> txRfOpens drv \<or> txFsResult drv \<noteq> RF_EventLastCmdDone radio then None
      else Some (configureTx (TRIG_NOW drv) RF_cmdPropTx, firmwareStartupMarkRfReady table a))"

section \<open>Properties\<close>

text \<open>The settings of the two roles fit together: transmitter and receiver use the same sync word,
  packet format and frequency, the transmitted length passes the receiver's length filter, the
  bytes the radio stores for the longest accepted packet are exactly the data area of an entry,
  and the list of register overrides ends at its only terminator.\<close>

lemma radio_settings_fit:
  "let rx = configureRx RF_cmdPropRx; tx = configureTx trigNow RF_cmdPropTx in
   rxSyncWord rx = txSyncWord tx \<and> rxUseCrc rx = txUseCrc tx \<and> rxVarLen rx = txVarLen tx \<and>
   frequency RF_cmdFs = centerFreq RF_cmdPropRadioDivSetup \<and>
   unat (pktLen tx) = length (packet initialTx) \<and> pktLen tx \<le> maxPktLen rx \<and>
   storedBytes rx (unat (maxPktLen rx)) = MAX_LENGTH + NUM_APPENDED_BYTES \<and>
   (\<exists>os. pOverrides vddr = os @ [RawOverride 0xFFFFFFFF] \<and> RawOverride 0xFFFFFFFF \<notin> set os)"
proof -
  have "\<exists>os. pOverrides vddr = os @ [RawOverride 0xFFFFFFFF] \<and> RawOverride 0xFFFFFFFF \<notin> set os"
    by (rule exI [of _ "butlast (pOverrides vddr)"]) (simp add: pOverrides_def)
  then show ?thesis
    by (simp add: configureRx_def configureTx_def RF_cmdPropRx_def RF_cmdPropTx_def RF_cmdFs_def
        RF_cmdPropRadioDivSetup_def storedBytes_def MAX_LENGTH_def NUM_APPENDED_BYTES_def PAYLOAD_LENGTH_def
        initialTx_def)
qed

text \<open>A radio thread reports that the radio is ready only when the driver has opened the pin and the
  radio and the synthesizer is tuned (and the receiver's ring is built), and it does report it
  then; in every other case it stays in a loop and the boot is not confirmed through it. Once
  the receive command has ended the receiver thread never gets past its final loops.\<close>

lemma radio_ready_only_when_tuned:
  "(firmware_rx_thread codes drv table buf mem r a \<noteq> None) =
     (pinOpens drv \<and> rfOpens drv \<and> fsResult drv = lastCmdDone drv) \<and>
   (firmware_tx_thread radio tdrv table a \<noteq> None) =
     (txPinOpens tdrv \<and> txRfOpens tdrv \<and> txFsResult tdrv = RF_EventLastCmdDone radio) \<and>
   (\<forall>cmd mem' queue r' a'. firmware_rx_thread codes drv table buf mem r a = Some (cmd, mem', queue, r', a') \<longrightarrow>
      cmd = configureRx RF_cmdPropRx \<and> a' = firmwareStartupMarkRfReady table a \<and> r' = buf \<and>
      ring mem' buf 44 8 33)"
proof -
  obtain result m q r1 where d: "RFQueue_defineQueue codes mem \<lparr>pCurrEntry = 0, pLastEntry = None\<rparr> r buf
      (of_nat (RF_QUEUE_DATA_ENTRY_BUFFER_SIZE NUM_DATA_ENTRIES MAX_LENGTH NUM_APPENDED_BYTES))
      (of_nat NUM_DATA_ENTRIES) (of_nat (MAX_LENGTH + NUM_APPENDED_BYTES)) = (result, m, q, r1)"
    by (metis prod_cases4)
  from rxQueue_defined [OF d] d show ?thesis
    by (auto simp: firmware_rx_thread_def firmware_tx_thread_def simp del: of_nat_add)
qed

text \<open>C31. From one board to the other, on the code of both. Whatever the \<open>tx\<close> command puts on the air, if it
  arrives undamaged in the entry at the receiver's read pointer (behind its length byte and before
  the RSSI and status bytes which the radio appends), the receiver's callback posts it unchanged
  and in full to its mailbox and hands the entry back: the message has 30 bytes, the header with
  the type and the sender's sequence number, a CRC of zero, and the value that was requested.\<close>

theorem sync_packet_end_to_end:
  assumes "length (packet t) = PAYLOAD_LENGTH" "length junk = SYNC_TIME_PAYLOAD_LENGTH" "length response = 64"
    and "length line = TX_CLI_LINE_LENGTH" "\<forall>w\<in>set argv. Radio_Tx.txWord w"
    and tx: "tx_command radio junk response line argv t = Some (answer, t')"
    and air: "txLog t' = txLog t @ [Dio1 True, Transmit p, Dio1 False]"
    and rx: "heldAt (dataBytes s) (readPtr s) \<lparr>airData = p, airRssi = rssi, airStatus = st\<rparr>" "st AND 0xC0 = 0"
    and "length (rxPacket s) = MAX_LENGTH + NUM_APPENDED_BYTES - 1" "eventsDistinct ev"
    and "mailbox ops contents depth" "packetMailbox (rxQueue s) = Some b" "length (contents b) < depth b"
  shows "\<exists>s' b' m. callback codes ev err ops ticks (RF_EventRxEntryDone ev) s = Some s' \<and>
    packetMailbox (rxQueue s') = Some b' \<and> contents b' = contents b @ [m] \<and>
    messageData m = p \<and> sequence m = nextSequence (rxQueue s) \<and> timestampTicks m = ticks \<and>
    length p = 30 \<and> calculateCrc16 p = 0 \<and>
    (if argv ! 1 = ''sync_time''
     then take 8 p = [0x53, 0x59, 1, 8, 0, 0, syncSequence t, 0] \<and>
       beValue (take 8 (drop 8 p)) = hexNumber (skipPrefix (argv ! 2))
     else take 8 p = [0x53, 0x59, 2, 4, 0, 0, syncSequence t, 0] \<and>
       beValue (take 4 (drop 8 p)) = hexNumber (skipPrefix (argv ! 2))) \<and>
    readPtr s' = pNextEntry (entryStore s (readPtr s)) \<and>
    status (entryStore s' (readPtr s)) = DATA_ENTRY_PENDING codes"
proof -
  note spec = tx_command_spec [OF assms(1-5), of radio]
  have "txAccepted argv" using spec tx air by (auto split: if_splits)
  with spec obtain s1 where s1: "tx_command radio junk response line argv t =
      (case RF_runCmd radio (packet s1) of (reason, st) \<Rightarrow>
         Some (concat (txAnswer radio (argv ! 1) reason st (syncSequence t)), s1))"
    "txPacketFor argv (syncSequence t) (packet s1)"
    "txLog s1 = txLog t @ [Dio1 True, Transmit (packet s1), Dio1 False]" by auto
  have "t' = s1" using tx unfolding s1(1) by (auto split: prod.splits)
  with s1(2,3) air have sent: "txPacketFor argv (syncSequence t) p" by simp
  then have p: "length p = 30" "calculateCrc16 p = 0"
    "if argv ! 1 = ''sync_time'' then take 8 p = [0x53, 0x59, 1, 8, 0, 0, syncSequence t, 0] \<and>
       beValue (take 8 (drop 8 p)) = hexNumber (skipPrefix (argv ! 2))
     else take 8 p = [0x53, 0x59, 2, 4, 0, 0, syncSequence t, 0] \<and>
       beValue (take 4 (drop 8 p)) = hexNumber (skipPrefix (argv ! 2))"
    by (auto simp: txPacketFor_def syncPacket_def SYNC_PACKET_TYPE_TIME_def SYNC_PACKET_TYPE_FRAME_def split: if_splits)
  obtain code mem r where nx: "RFQueue_nextEntry codes (entryStore s) (readPtr s) = (code, mem, r)" by (metis prod_cases3)
  then have r: "r = pNextEntry (entryStore s (readPtr s))" "status (mem (readPtr s)) = DATA_ENTRY_PENDING codes"
    by (auto simp: RFQueue_nextEntry_def Let_def)
  let ?a = "\<lparr>airData = p, airRssi = rssi, airStatus = st\<rparr>"
  let ?q = "rf_packet_queue_note_rssi err (sint rssi) (rxQueue s)"
  let ?m = "\<lparr>sequence = nextSequence (rxQueue s), timestampTicks = ticks, messageData = p\<rparr>"
  have "length (airData ?a) \<le> 30" "length (rxPacket s) = 32"
    using p(1) assms(10) by (simp_all add: MAX_LENGTH_def NUM_APPENDED_BYTES_def)
  from callback_entry [OF assms(11) rx(1) this nx, of err ops ticks] obtain s' where
    s': "callback codes ev err ops ticks (RF_EventRxEntryDone ev) s = Some s'"
      "rxQueue s' = handlePacket err ops ticks ?a (rxQueue s)" "entryStore s' = mem" "readPtr s' = r" by blast
  have q: "packetMailbox ?q = packetMailbox (rxQueue s)" "nextSequence ?q = nextSequence (rxQueue s)"
    by (simp_all add: rf_packet_queue_note_rssi_def Let_def)
  obtain posted b' where post: "Mailbox_post ops ?m b = (posted, b')" by fastforce
  from mailbox.post [OF assms(12) post] assms(14) have b': "posted" "contents b' = contents b @ [?m]" by auto
  have "packetMailbox (rxQueue s') = Some b'"
    using assms(13) rx(2) q post b'(1) p(1)
    by (simp add: s'(2) handlePacket_def rf_packet_queue_post_radio_def post_packet_def RF_PACKET_QUEUE_PAYLOAD_MAX_def Let_def)
  with s' b'(2) p r show ?thesis by (intro exI [of _ s'] exI [of _ b'] exI [of _ ?m]) simp
qed

text \<open>The transmitter sends \<open>sync_frame 2A\<close>; its packet is stored in an entry of the receiver.\<close>

theorem sync_packet_end_to_end_witness:
  "\<exists>p t' s s' b m. tx_command demoRadio (replicate 8 0) (replicate 64 NUL) (replicate 64 NUL)
      [''tx'', ''sync_frame'', ''2A''] initialTx = Some (concat (txAnswer demoRadio ''sync_frame'' 1 0x3400 0), t') \<and>
    txLog t' = [Dio1 True, Transmit p, Dio1 False] \<and>
    callback demoCodes demoEvents (-128) list_mailbox 9 (RF_EventRxEntryDone demoEvents) s = Some s' \<and>
    packetMailbox (rxQueue s') = Some b \<and> snd b = [m] \<and> messageData m = p \<and> calculateCrc16 p = 0 \<and>
    beValue (take 4 (drop 8 p)) = 42"
proof -
  let ?argv = "[''tx'', ''sync_frame'', ''2A'']"
  have words: "\<forall>w\<in>set ?argv. Radio_Tx.txWord w" by (simp add: Radio_Tx.txWord_def separators_def NUL_def)
  have acc: "txAccepted ?argv"
    by (simp add: txAccepted_def hexOk_def skipPrefix_def hexValue_def less_eq_char_def)
  have n: "hexNumber (skipPrefix ''2A'') = 42"
    by (simp add: hexNumber_def skipPrefix_def hexValue_def less_eq_char_def)
  have l: "length (packet initialTx) = PAYLOAD_LENGTH" "length (replicate 8 (0 :: u8)) = SYNC_TIME_PAYLOAD_LENGTH"
    "length (replicate 64 NUL) = 64" "length (replicate 64 NUL) = TX_CLI_LINE_LENGTH"
    by (simp_all add: initialTx_def SYNC_TIME_PAYLOAD_LENGTH_def TX_CLI_LINE_LENGTH_def)
  have rn: "RF_runCmd demoRadio p = (1, 0x3400)" for p by (simp add: demoRadio_def)
  from tx_command_spec [OF l words, of demoRadio] acc obtain t' where
    t': "tx_command demoRadio (replicate 8 0) (replicate 64 NUL) (replicate 64 NUL) ?argv initialTx =
      Some (concat (txAnswer demoRadio ''sync_frame'' 1 0x3400 0), t')"
      "txLog t' = txLog initialTx @ [Dio1 True, Transmit (packet t'), Dio1 False]"
    by (auto simp: rn initialTx_def)
  let ?a = "\<lparr>airData = packet t', airRssi = 0xB0, airStatus = 0\<rparr>"
  let ?q = "rf_packet_queue_init list_mailbox initialQueue"
  let ?s = "\<lparr>entryStore = blankEntries, readPtr = 0x20001000,
    dataBytes = storeAt (0x20001000 + 8) (packetBytes ?a) (\<lambda>_. 0), rxPacket = replicate 32 0, rxQueue = ?q, dio1 = []\<rparr>"
  have q: "packetMailbox (rxQueue ?s) = Some (32, [])"
    by (simp add: rf_packet_queue_init_def list_mailbox_def RF_PACKET_QUEUE_DEPTH_def)
  have held: "heldAt (dataBytes ?s) (readPtr ?s) ?a"
    using heldAt_storeAt [of "0x20001000" ?a "\<lambda>_. 0"] by simp
  have rx: "length (rxPacket ?s) = MAX_LENGTH + NUM_APPENDED_BYTES - 1" "eventsDistinct demoEvents"
    by (simp_all add: MAX_LENGTH_def NUM_APPENDED_BYTES_def eventsDistinct_def demoEvents_def)
  have st: "(0 :: u8) AND 0xC0 = 0" by simp
  have room: "length (snd (32 :: nat, [] :: RfPacketMessage list)) < fst (32 :: nat, [] :: RfPacketMessage list)" by simp
  from sync_packet_end_to_end [OF l words t' held st rx list_mailbox.mailbox_axioms q room, of demoCodes "-128" 9] n
  obtain s' b m where e: "callback demoCodes demoEvents (-128) list_mailbox 9 (RF_EventRxEntryDone demoEvents) ?s = Some s'"
    "packetMailbox (rxQueue s') = Some b" "snd b = [m]" "messageData m = packet t'" "calculateCrc16 (packet t') = 0"
    "beValue (take 4 (drop 8 (packet t'))) = 42" by auto
  have "txLog t' = [Dio1 True, Transmit (packet t'), Dio1 False]" using t'(2) by (simp add: initialTx_def)
  with t'(1) e show ?thesis by blast
qed

end
