(* ===== verification/I2c_Slave.thy ===== *)
theory I2c_Slave
  imports Cli_Core "HOL-Library.Monad_Syntax"
begin

text \<open>
  The I2C slave (\<open>i2c_slave.c\<close>): the interrupt handler, the worker task and the \<open>ipc\<close> command. An
  interrupt is its flags, the slave status and the byte in the data register; what is put into
  the data register is an output. An access outside an array is \<open>None\<close>. The build's version code,
  the clock and the pin driver are parameters; the role is its numeric value.
\<close>

section \<open>Data\<close>

definition I2C_REGISTER_COUNT :: nat where "I2C_REGISTER_COUNT = 64"
definition I2C_WRITE_MAX :: nat where "I2C_WRITE_MAX = I2C_REGISTER_COUNT"
definition I2C_DUMP_MAX :: nat where "I2C_DUMP_MAX = I2C_WRITE_MAX"
definition I2C_COMMAND_REGISTER :: u8 where "I2C_COMMAND_REGISTER = 0x40"
definition I2C_COMMAND_CLEAR_STATS :: u8 where "I2C_COMMAND_CLEAR_STATS = 0x01"
definition I2C_LOOPBACK_REGISTER :: u8 where "I2C_LOOPBACK_REGISTER = 0x80"
definition I2C_LOOPBACK_SIZE :: nat where "I2C_LOOPBACK_SIZE = 64"
definition I2C_DUMP_WRITE :: u8 where "I2C_DUMP_WRITE = 1"
definition I2C_DUMP_READ :: u8 where "I2C_DUMP_READ = 2"

record i2c_state =
  registers :: "u8 list list"
  activeRegisters :: u8
  registerPointer :: u8
  receiveCount :: u8
  receiveBuffer :: "u8 list"
  pendingRegister :: u8
  pendingCount :: u8
  pendingBuffer :: "u8 list"
  pendingDirection :: u8
  transmitRegisters :: u8
  transmitStartRegister :: u8
  transmitRegisterSnapshot :: u8
  transmitPointerValid :: bool
  transmitLoopback :: bool
  transmitLength :: u8
  transmitBuffer :: "u8 list"
  loopbackBuffer :: "u8 list"
  transactionCount :: u32
  errorCount :: u32
  dumpEnabled :: bool
  currentRole :: u8
  workPosted :: nat

datatype i2c_act = TREQ | RREQ_FBR | RREQ | NoAct

record i2c_irq =
  irqData :: bool
  irqStop :: bool
  irqStatus :: i2c_act
  irqByte :: u8

definition inLoopback :: "u8 \<Rightarrow> bool" where
  "inLoopback r \<longleftrightarrow> r \<ge> I2C_LOOPBACK_REGISTER \<and> unat r < unat I2C_LOOPBACK_REGISTER + I2C_LOOPBACK_SIZE"

definition isLoopbackWrite :: "u8 \<Rightarrow> u8 \<Rightarrow> bool" where
  "isLoopbackWrite startRegister len \<longleftrightarrow> inLoopback startRegister \<and>
     unat len \<le> I2C_LOOPBACK_SIZE - (unat startRegister - unat I2C_LOOPBACK_REGISTER)"

definition hexDigit :: "u8 \<Rightarrow> char" where
  "hexDigit value = (let v = unat (value AND 0x0F) in char_of (if v < 10 then 48 + v else 97 + v - 10))"

definition writeUint32Le :: "u8 list \<Rightarrow> nat \<Rightarrow> u32 \<Rightarrow> u8 list" where
  "writeUint32Le destination at value =
     destination[at := ucast value, at + 1 := ucast (drop_bit 8 value),
                 at + 2 := ucast (drop_bit 16 value), at + 3 := ucast (drop_bit 24 value)]"

section \<open>The status registers\<close>

definition statusBank :: "u32 \<Rightarrow> u8 \<Rightarrow> u32 \<Rightarrow> u32 \<Rightarrow> u32 \<Rightarrow> u8 list" where
  "statusBank version role transactions errors ticks =
     (let bank = (replicate I2C_REGISTER_COUNT 0)[0 := 0x49, 1 := 0x32, 2 := 0x43, 3 := 0x53, 4 := 1];
          bank = writeUint32Le bank 5 version;
          bank = bank[9 := role];
          bank = writeUint32Le bank 10 transactions;
          bank = writeUint32Le bank 14 errors
      in writeUint32Le bank 18 ticks)"

definition publishRegisters :: "u32 \<Rightarrow> u32 \<Rightarrow> i2c_state \<Rightarrow> i2c_state option" where
  "publishRegisters version ticks s =
     (let inactive = activeRegisters s XOR 1;
          bank = statusBank version (currentRole s) (transactionCount s) (errorCount s) ticks in
      do {
        banks \<leftarrow> store (registers s) (unat inactive) bank;
        Some (s\<lparr>registers := banks, activeRegisters := inactive\<rparr>)
      })"

section \<open>The interrupt handler\<close>

definition transmitRequest :: "i2c_state \<Rightarrow> (u8 \<times> i2c_state) option" where
  "transmitRequest s =
     (if transmitPointerValid s then
        (let transmitOffset = (registerPointer s - transmitStartRegister s) AND 63 in
         do {
           (value, s) \<leftarrow>
             (if transmitLoopback s then
                do {
                  value \<leftarrow> (if inLoopback (registerPointer s)
                            then fetch (loopbackBuffer s) (unat (registerPointer s - I2C_LOOPBACK_REGISTER))
                            else Some 0);
                  Some (value, s\<lparr>registerPointer := registerPointer s + 1\<rparr>)
                }
              else
                (let s = (if transmitRegisters s > 1 then s\<lparr>transmitRegisters := transmitRegisterSnapshot s\<rparr> else s) in
                 do {
                   bank \<leftarrow> fetch (registers s) (unat (transmitRegisters s));
                   value \<leftarrow> fetch bank (unat (registerPointer s AND 63));
                   Some (value, s\<lparr>registerPointer := registerPointer s + 1\<rparr>)
                 }));
           buffer \<leftarrow> store (transmitBuffer s) (unat transmitOffset) value;
           Some (value, s\<lparr>transmitBuffer := buffer,
             transmitLength := (if transmitLength s \<le> transmitOffset then transmitOffset + 1 else transmitLength s)\<rparr>)
         })
      else Some (0, s))"

definition firstByte :: "u8 \<Rightarrow> i2c_state \<Rightarrow> i2c_state" where
  "firstByte b s = s\<lparr>registerPointer := b, receiveCount := 0, transmitRegisters := 0xFF, transmitStartRegister := b,
     transmitRegisterSnapshot := activeRegisters s, transmitPointerValid := True, transmitLoopback := inLoopback b,
     transmitLength := 0\<rparr>"

definition payloadByte :: "u8 \<Rightarrow> i2c_state \<Rightarrow> i2c_state option" where
  "payloadByte b s =
     (if unat (receiveCount s) < I2C_WRITE_MAX then
        do {
          buffer \<leftarrow> store (receiveBuffer s) (unat (receiveCount s)) b;
          Some (s\<lparr>receiveBuffer := buffer, receiveCount := receiveCount s + 1\<rparr>)
        }
      else Some (s\<lparr>errorCount := errorCount s + 1\<rparr>))"

definition resetTransmit :: "i2c_state \<Rightarrow> i2c_state" where
  "resetTransmit s = s\<lparr>transmitRegisters := 0xFF, transmitPointerValid := False, transmitLoopback := False,
     transmitLength := 0\<rparr>"

definition stopWrite :: "i2c_state \<Rightarrow> i2c_state option" where
  "stopWrite s =
     (if pendingCount s \<noteq> 0 then Some (resetTransmit (s\<lparr>errorCount := errorCount s + 1, receiveCount := 0\<rparr>))
      else
        do {
          data \<leftarrow> (if unat (receiveCount s) \<le> length (receiveBuffer s)
                   then Some (take (unat (receiveCount s)) (receiveBuffer s)) else None);
          loopback \<leftarrow> (if isLoopbackWrite (registerPointer s) (receiveCount s)
                       then memcpyTo (loopbackBuffer s) (unat (registerPointer s - I2C_LOOPBACK_REGISTER)) data
                       else Some (loopbackBuffer s));
          pending \<leftarrow> memcpyTo (pendingBuffer s) 0 data;
          Some (resetTransmit (s\<lparr>loopbackBuffer := loopback, pendingRegister := registerPointer s,
            pendingCount := receiveCount s, pendingDirection := I2C_DUMP_WRITE, pendingBuffer := pending,
            receiveCount := 0, transactionCount := transactionCount s + 1, workPosted := Suc (workPosted s)\<rparr>))
        })"

definition stopRead :: "i2c_state \<Rightarrow> i2c_state option" where
  "stopRead s =
     (if pendingCount s \<noteq> 0 then Some (resetTransmit (s\<lparr>errorCount := errorCount s + 1\<rparr>))
      else
        do {
          data \<leftarrow> (if unat (transmitLength s) \<le> length (transmitBuffer s)
                   then Some (take (unat (transmitLength s)) (transmitBuffer s)) else None);
          pending \<leftarrow> memcpyTo (pendingBuffer s) 0 data;
          Some (resetTransmit (s\<lparr>pendingRegister := transmitStartRegister s, pendingCount := transmitLength s,
            pendingDirection := I2C_DUMP_READ, pendingBuffer := pending, workPosted := Suc (workPosted s)\<rparr>))
        })"

definition dataInterrupt :: "i2c_irq \<Rightarrow> i2c_state \<Rightarrow> (u8 option \<times> i2c_state) option" where
  "dataInterrupt irq s =
     (case irqStatus irq of
        TREQ \<Rightarrow> do { (value, s) \<leftarrow> transmitRequest s; Some (Some value, s) }
      | RREQ_FBR \<Rightarrow> Some (None, firstByte (irqByte irq) s)
      | RREQ \<Rightarrow> do { s \<leftarrow> payloadByte (irqByte irq) s; Some (None, s) }
      | NoAct \<Rightarrow> Some (None, s))"

definition stopInterrupt :: "i2c_state \<Rightarrow> i2c_state option" where
  "stopInterrupt s =
     (if receiveCount s \<noteq> 0 then stopWrite s
      else if transmitPointerValid s \<and> transmitLength s \<noteq> 0 \<and> dumpEnabled s then stopRead s
      else Some (resetTransmit s))"

definition i2cInterruptHandler :: "i2c_irq \<Rightarrow> i2c_state \<Rightarrow> (u8 option \<times> i2c_state) option" where
  "i2cInterruptHandler irq s =
     do {
       (out, s) \<leftarrow> (if irqData irq then dataInterrupt irq s else Some (None, s));
       s \<leftarrow> (if irqStop irq then stopInterrupt s else Some s);
       Some (out, s)
     }"

section \<open>The worker and the command\<close>

text \<open>What the worker has copied out of the pending slot.\<close>

record i2c_dump =
  dumpCount :: u8
  dumpRegister :: u8
  dumpDirection :: u8
  dumpBuffer :: "u8 list"

definition workerRead :: "i2c_state \<Rightarrow> i2c_dump option" where
  "workerRead s =
     do {
       data \<leftarrow> (if unat (pendingCount s) \<le> length (pendingBuffer s) \<and> unat (pendingCount s) \<le> I2C_DUMP_MAX
                then Some (take (unat (pendingCount s)) (pendingBuffer s)) else None);
       Some \<lparr>dumpCount = pendingCount s, dumpRegister = pendingRegister s, dumpDirection = pendingDirection s,
             dumpBuffer = data\<rparr>
     }"

definition workerCommand :: "i2c_dump \<Rightarrow> i2c_state \<Rightarrow> i2c_state" where
  "workerCommand d s =
     (if dumpDirection d = I2C_DUMP_WRITE \<and> pendingRegister s = I2C_COMMAND_REGISTER \<and> pendingCount s = 1 \<and>
         pendingBuffer s ! 0 = I2C_COMMAND_CLEAR_STATS
      then s\<lparr>transactionCount := 0, errorCount := 0\<rparr>
      else if dumpDirection d = I2C_DUMP_WRITE \<and> pendingCount s \<noteq> 0 \<and>
              \<not> isLoopbackWrite (dumpRegister d) (dumpCount d)
      then s\<lparr>errorCount := errorCount s + 1\<rparr>
      else s)"

definition workerRelease :: "i2c_state \<Rightarrow> i2c_state" where
  "workerRelease s = s\<lparr>pendingCount := 0, transmitRegisters := 0xFF\<rparr>"

fun appendPieces :: "char list \<Rightarrow> nat \<Rightarrow> string list \<Rightarrow> (char list \<times> nat) option" where
  "appendPieces message len [] = Some (message, len)"
| "appendPieces message len (p # ps) =
     do { message \<leftarrow> memcpyTo message len p; appendPieces message (len + length p) ps }"

definition dumpPieces :: "i2c_dump \<Rightarrow> string list" where
  "dumpPieces d =
     [if dumpDirection d = I2C_DUMP_READ then ''ipc read reg=0x'' else ''ipc write reg=0x'',
      [hexDigit (drop_bit 4 (dumpRegister d))], [hexDigit (dumpRegister d)], '' len=''] @
     (if dumpCount d \<ge> 10 then [[char_of (48 + unat (dumpCount d) div 10)]] else []) @
     [[char_of (48 + unat (dumpCount d) mod 10)], '' data=''] @
     concat (map (\<lambda>b. [[hexDigit (drop_bit 4 b)], [hexDigit b]]) (dumpBuffer d))"

definition printDump :: "char list \<Rightarrow> i2c_dump \<Rightarrow> string option" where
  "printDump dumpMessage d =
     do {
       (message, len) \<leftarrow> appendPieces dumpMessage 0 (dumpPieces d);
       message \<leftarrow> store message len NUL;
       Some (cli_ok (cString message 0))
     }"

text \<open>One round of \<open>i2c_slave_thread\<close>, with no interrupt in between.\<close>

definition workerRound :: "u32 \<Rightarrow> u32 \<Rightarrow> char list \<Rightarrow> i2c_state \<Rightarrow> (string \<times> i2c_state) option" where
  "workerRound version ticks dumpMessage s =
     do {
       d \<leftarrow> workerRead s;
       s \<leftarrow> publishRegisters version ticks (workerRelease (workerCommand d s));
       (if dumpEnabled s \<and> dumpCount d \<noteq> 0
        then do { out \<leftarrow> printDump dumpMessage d; Some (out, s) }
        else Some ([], s))
     }"

definition i2c_slave_cli_command :: "string list \<Rightarrow> i2c_state \<Rightarrow> string \<times> i2c_state" where
  "i2c_slave_cli_command argv s =
     (if length argv = 3 \<and> argv ! 1 = ''dump'' \<and> argv ! 2 = ''on''
      then (cli_ok ''ipc_dump=on'', s\<lparr>dumpEnabled := True\<rparr>)
      else if length argv = 3 \<and> argv ! 1 = ''dump'' \<and> argv ! 2 = ''off''
      then (cli_ok ''ipc_dump=off'', s\<lparr>dumpEnabled := False\<rparr>)
      else (cli_error ''ARG'' ''usage: ipc dump on|off'', s))"

section \<open>Starting\<close>

definition initialI2c :: i2c_state where
  "initialI2c = \<lparr>registers = [replicate 64 0, replicate 64 0], activeRegisters = 0, registerPointer = 0,
     receiveCount = 0, receiveBuffer = replicate 64 0, pendingRegister = 0, pendingCount = 0,
     pendingBuffer = replicate 64 0, pendingDirection = 0, transmitRegisters = 0, transmitStartRegister = 0,
     transmitRegisterSnapshot = 0, transmitPointerValid = False, transmitLoopback = False, transmitLength = 0,
     transmitBuffer = replicate 64 0, loopbackBuffer = replicate 64 0, transactionCount = 0, errorCount = 0,
     dumpEnabled = False, currentRole = 0, workPosted = 0\<rparr>"

text \<open>The calls into the drivers, in order. \<open>i2cInitializeHardware\<close> returns -1 when the pins cannot be
  opened; \<open>i2c_slave_start\<close> returns -1 as well when the thread attributes are refused, and otherwise what
  \<open>pthread_create\<close> returns.\<close>

datatype i2c_call =
    PIN_open "string list"
  | PINCC26XX_setMux string string
  | Power_setDependency string
  | Power_setConstraint string
  | RegistersPublished
  | I2CSlaveInit u8
  | Hwi_construct string
  | I2CSlaveIntClear "string list"
  | I2CSlaveIntEnable "string list"
  | Hwi_enableInterrupt string
  | Pthread_create nat nat

definition I2C_SLAVE_ADDRESS :: u8 where "I2C_SLAVE_ADDRESS = 0x2A"
definition I2C_WORKER_STACK :: nat where "I2C_WORKER_STACK = 1024"

definition i2cInitializeHardware :: "bool \<Rightarrow> u32 \<Rightarrow> u32 \<Rightarrow> i2c_state \<Rightarrow> (int \<times> i2c_call list \<times> i2c_state) option" where
  "i2cInitializeHardware pinOpens version ticks s =
     (let pins = [''SCL'', ''SDA''] in
      if \<not> pinOpens then Some (-1, [PIN_open pins], s)
      else
        do {
          s \<leftarrow> publishRegisters version ticks s;
          Some (0,
            [PIN_open pins, PINCC26XX_setMux ''SDA'' ''MSSDA'', PINCC26XX_setMux ''SCL'' ''MSSCL'',
             Power_setDependency ''I2C0'', Power_setConstraint ''DISALLOW_STANDBY'', RegistersPublished,
             I2CSlaveInit I2C_SLAVE_ADDRESS, Hwi_construct ''INT_I2C_IRQ'',
             I2CSlaveIntClear [''START'', ''DATA'', ''STOP''], I2CSlaveIntEnable [''START'', ''DATA'', ''STOP''],
             Hwi_enableInterrupt ''INT_I2C_IRQ''], s)
        })"

definition i2c_slave_start ::
  "bool \<Rightarrow> int \<Rightarrow> int \<Rightarrow> u32 \<Rightarrow> u32 \<Rightarrow> u8 \<Rightarrow> i2c_state \<Rightarrow> (int \<times> i2c_call list \<times> i2c_state) option" where
  "i2c_slave_start pinOpens attrStatus created version ticks role s =
     (let s = s\<lparr>currentRole := role, transmitRegisters := 0xFF, transmitPointerValid := False,
                transmitLoopback := False, workPosted := 0\<rparr> in
      do {
        (r, calls, s) \<leftarrow> i2cInitializeHardware pinOpens version ticks s;
        Some (if r \<noteq> 0 then (-1, calls, s)
              else if attrStatus \<noteq> 0 then (-1, calls, s)
              else (created, calls @ [Pthread_create 1 I2C_WORKER_STACK], s))
      })"

section \<open>Invariant\<close>

definition i2cOk :: "i2c_state \<Rightarrow> bool" where
  "i2cOk s \<longleftrightarrow> length (registers s) = 2 \<and> (\<forall>b\<in>set (registers s). length b = 64) \<and>
     activeRegisters s \<in> {0, 1} \<and> transmitRegisterSnapshot s \<in> {0, 1} \<and> transmitRegisters s \<in> {0, 1, 0xFF} \<and>
     unat (receiveCount s) \<le> 64 \<and> length (receiveBuffer s) = 64 \<and>
     unat (pendingCount s) \<le> 64 \<and> length (pendingBuffer s) = 64 \<and>
     unat (transmitLength s) \<le> 64 \<and> length (transmitBuffer s) = 64 \<and> length (loopbackBuffer s) = 64"

lemma unat_and_63: "unat ((w :: u8) AND 63) = unat w mod 64"
proof -
  have "w AND 63 = take_bit 6 w" by (simp add: take_bit_eq_mask mask_eq_exp_minus_1)
  moreover have "unat (take_bit 6 w) = unat w mod 64"
    by (simp only: unsigned_take_bit_eq) (simp add: take_bit_eq_mod)
  ultimately show ?thesis by (simp only:)
qed

lemma loopback_index: "inLoopback r \<Longrightarrow> unat (r - I2C_LOOPBACK_REGISTER) = unat r - 128 \<and> 128 \<le> unat r \<and> unat r < 192"
  by (auto simp: inLoopback_def I2C_LOOPBACK_REGISTER_def I2C_LOOPBACK_SIZE_def word_le_nat_alt unat_sub)

lemma transmitRequest_ok:
  assumes "i2cOk s"
  shows "\<exists>v s'. transmitRequest s = Some (v, s') \<and> i2cOk s' \<and> registers s' = registers s \<and>
    loopbackBuffer s' = loopbackBuffer s"
proof (cases "transmitPointerValid s")
  case True
  let ?o = "(registerPointer s - transmitStartRegister s) AND 63"
  have o: "unat ?o < 64" unfolding unat_and_63 by simp
  then have o1: "unat (?o + 1) \<le> 64" by (simp add: unat_word_ariths)
  have p: "unat (registerPointer s AND 63) < 64" unfolding unat_and_63 by simp
  have bank: "length (registers s ! unat b) = 64" if "b = 0 \<or> b = 1" for b :: u8
    using assms that by (auto simp: i2cOk_def)
  show ?thesis
  proof (cases "transmitLoopback s")
    case loop: True
    have l: "length (loopbackBuffer s) = 64" "length (transmitBuffer s) = 64" using assms by (simp_all add: i2cOk_def)
    have ok: "i2cOk (s\<lparr>registerPointer := rp, transmitBuffer := (transmitBuffer s)[i := x], transmitLength := n\<rparr>)"
      if "unat n \<le> 64" for rp i x n using assms that by (simp add: i2cOk_def)
    have n: "unat (if transmitLength s \<le> ?o then ?o + 1 else transmitLength s) \<le> 64"
      using o1 assms by (simp add: i2cOk_def)
    show ?thesis
    proof (cases "inLoopback (registerPointer s)")
      case True
      then have "unat (registerPointer s - I2C_LOOPBACK_REGISTER) < 64" using loopback_index by fastforce
      with \<open>transmitPointerValid s\<close> loop True l o show ?thesis
        using ok [OF n, of "unat ?o" "loopbackBuffer s ! unat (registerPointer s - I2C_LOOPBACK_REGISTER)" "registerPointer s + 1"]
        by (simp add: transmitRequest_def Let_def split: if_splits)
    next
      case False
      with \<open>transmitPointerValid s\<close> loop l o show ?thesis
        using ok [OF n, of "unat ?o" 0 "registerPointer s + 1"] by (simp add: transmitRequest_def Let_def split: if_splits)
    qed
  next
    case False
    define s1 where "s1 = (if transmitRegisters s > 1 then s\<lparr>transmitRegisters := transmitRegisterSnapshot s\<rparr> else s)"
    have s1: "i2cOk s1" "transmitRegisters s1 = 0 \<or> transmitRegisters s1 = 1" "registers s1 = registers s"
      "registerPointer s1 = registerPointer s" "loopbackBuffer s1 = loopbackBuffer s"
      using assms unfolding s1_def by (auto simp: i2cOk_def)
    define x where "x = registers s ! unat (transmitRegisters s1) ! unat (registerPointer s AND 63)"
    define n where "n = (if transmitLength s1 \<le> ?o then ?o + 1 else transmitLength s1)"
    have "unat n \<le> 64" using o1 s1(1) by (simp add: n_def i2cOk_def)
    then have ok: "i2cOk (s1\<lparr>registerPointer := registerPointer s + 1,
        transmitBuffer := (transmitBuffer s1)[unat ?o := x], transmitLength := n\<rparr>)"
      using s1(1) by (simp add: i2cOk_def)
    have "fetch (registers s1) (unat (transmitRegisters s1)) = Some (registers s ! unat (transmitRegisters s1))"
    proof -
      have "length (registers s) = 2" using assms by (simp add: i2cOk_def)
      with s1(2,3) show ?thesis by (auto simp: fetch_def)
    qed
    moreover have "fetch (registers s ! unat (transmitRegisters s1)) (unat (registerPointer s AND 63)) = Some x"
      using s1(2) bank p by (auto simp: fetch_def x_def)
    moreover have "store (transmitBuffer s1) (unat ?o) x = Some ((transmitBuffer s1)[unat ?o := x])"
      using s1(1) o by (simp add: i2cOk_def)
    ultimately have "transmitRequest s = Some (x, s1\<lparr>registerPointer := registerPointer s + 1,
        transmitBuffer := (transmitBuffer s1)[unat ?o := x], transmitLength := n\<rparr>)"
      using True False s1(4) unfolding transmitRequest_def Let_def s1_def [symmetric]
      by (simp add: n_def)
    with ok s1 show ?thesis by simp
  qed
qed (use assms in \<open>simp add: transmitRequest_def\<close>)

lemma firstByte_ok: "i2cOk s \<Longrightarrow> i2cOk (firstByte b s)"
  by (simp add: i2cOk_def firstByte_def)

lemma payloadByte_ok:
  assumes "i2cOk s"
  shows "\<exists>s'. payloadByte b s = Some s' \<and> i2cOk s' \<and> registers s' = registers s \<and> loopbackBuffer s' = loopbackBuffer s"
proof (cases "unat (receiveCount s) < 64")
  case True
  then have "unat (receiveCount s + 1) \<le> 64" by (simp add: unat_word_ariths)
  with True assms show ?thesis
    by (auto simp: payloadByte_def I2C_WRITE_MAX_def I2C_REGISTER_COUNT_def i2cOk_def)
qed (use assms in \<open>auto simp: payloadByte_def I2C_WRITE_MAX_def I2C_REGISTER_COUNT_def i2cOk_def\<close>)

lemma resetTransmit_ok: "i2cOk (resetTransmit s) = i2cOk (s\<lparr>transmitRegisters := 0xFF, transmitLength := 0\<rparr>)"
  by (simp add: i2cOk_def resetTransmit_def)

lemma stopWrite_ok:
  assumes "i2cOk s"
  shows "\<exists>s'. stopWrite s = Some s' \<and> i2cOk s' \<and> registers s' = registers s"
proof -
  have "unat (registerPointer s - I2C_LOOPBACK_REGISTER) + unat (receiveCount s) \<le> 64"
    if "isLoopbackWrite (registerPointer s) (receiveCount s)"
    using that loopback_index [of "registerPointer s"]
    by (auto simp: isLoopbackWrite_def I2C_LOOPBACK_SIZE_def I2C_LOOPBACK_REGISTER_def)
  then show ?thesis using assms by (auto simp: stopWrite_def i2cOk_def resetTransmit_def)
qed

lemma stopRead_ok:
  assumes "i2cOk s"
  shows "\<exists>s'. stopRead s = Some s' \<and> i2cOk s' \<and> registers s' = registers s \<and> loopbackBuffer s' = loopbackBuffer s"
  using assms by (auto simp: stopRead_def i2cOk_def resetTransmit_def)

lemma handler_ok:
  assumes "i2cOk s"
  shows "\<exists>out s'. i2cInterruptHandler irq s = Some (out, s') \<and> i2cOk s' \<and> registers s' = registers s"
proof -
  have "\<exists>out s1. (if irqData irq then dataInterrupt irq s else Some (None, s)) = Some (out, s1) \<and> i2cOk s1 \<and>
      registers s1 = registers s"
    using assms transmitRequest_ok [OF assms] payloadByte_ok [OF assms, of "irqByte irq"] firstByte_ok [OF assms]
    by (cases "irqStatus irq") (auto simp: dataInterrupt_def firstByte_def)
  then obtain out s1 where s1: "(if irqData irq then dataInterrupt irq s else Some (None, s)) = Some (out, s1)"
    "i2cOk s1" "registers s1 = registers s" by blast
  have "\<exists>s2. stopInterrupt s1 = Some s2 \<and> i2cOk s2 \<and> registers s2 = registers s1"
  proof -
    have "i2cOk (resetTransmit s1)" "registers (resetTransmit s1) = registers s1"
      using s1(2) by (simp_all add: resetTransmit_def i2cOk_def)
    then show ?thesis
      using stopWrite_ok [OF s1(2)] stopRead_ok [OF s1(2)] by (simp add: stopInterrupt_def) blast
  qed
  with s1 show ?thesis by (auto simp: i2cInterruptHandler_def)
qed

lemma length_statusBank: "length (statusBank v r t e k) = 64"
  by (simp add: statusBank_def writeUint32Le_def Let_def I2C_REGISTER_COUNT_def)

lemma publish_ok:
  assumes "i2cOk s"
  shows "\<exists>rs. publishRegisters version ticks s = Some (s\<lparr>registers := rs, activeRegisters := activeRegisters s XOR 1\<rparr>) \<and>
    i2cOk (s\<lparr>registers := rs, activeRegisters := activeRegisters s XOR 1\<rparr>) \<and>
    rs ! unat (activeRegisters s) = registers s ! unat (activeRegisters s) \<and>
    rs ! unat (activeRegisters s XOR 1) =
      statusBank version (currentRole s) (transactionCount s) (errorCount s) ticks"
proof -
  from assms have a: "activeRegisters s = 0 \<or> activeRegisters s = 1" by (simp add: i2cOk_def)
  from assms obtain x y where b: "registers s = [x, y]" "length x = 64" "length y = 64"
    by (auto simp: i2cOk_def numeral_2_eq_2 length_Suc_conv)
  let ?rs = "(registers s)[unat (activeRegisters s XOR 1) :=
    statusBank version (currentRole s) (transactionCount s) (errorCount s) ticks]"
  from a show ?thesis
    using assms b
    by (elim disjE; intro exI [of _ ?rs]) (simp_all add: publishRegisters_def Let_def i2cOk_def length_statusBank)
qed

section \<open>The dump message\<close>

lemma appendPieces_spec:
  assumes "len \<le> length m" "len + length (concat ps) \<le> length m"
  shows "appendPieces m len ps =
    Some (take len m @ concat ps @ drop (len + length (concat ps)) m, len + length (concat ps))"
  using assms
proof (induction ps arbitrary: m len)
  case (Cons p ps)
  let ?m = "take len m @ p @ drop (len + length p) m"
  have l: "length ?m = length m" using Cons.prems by simp
  have "take (len + length p) ?m = take len m @ p" using Cons.prems by simp
  moreover have "drop (len + length p + length (concat ps)) ?m = drop (len + length (concat (p # ps))) m"
    using Cons.prems by (simp add: add.assoc add.commute add.left_commute)
  ultimately show ?case using Cons.IH [of "len + length p" ?m] Cons.prems l by simp
qed simp

lemma char_of_NUL: "0 < (n :: nat) \<Longrightarrow> n < 256 \<Longrightarrow> char_of n \<noteq> NUL"
proof
  assume n: "0 < n" "n < 256" and "char_of n = NUL"
  then have "of_char (char_of n) = (of_char NUL :: nat)" by (simp only:)
  then have "n mod 256 = 0" by (simp add: NUL_def)
  with n show False by simp
qed

lemma unat_and_15: "unat ((w :: u8) AND 15) < 16"
proof -
  have "w AND 15 = take_bit 4 w" by (simp add: take_bit_eq_mask mask_eq_exp_minus_1)
  moreover have "unat (take_bit 4 w) = unat w mod 16"
    by (simp only: unsigned_take_bit_eq) (simp add: take_bit_eq_mod)
  ultimately show ?thesis by (simp only: mod_less_divisor zero_less_numeral)
qed

lemma hexDigit_not_NUL: "hexDigit v \<noteq> NUL"
  unfolding hexDigit_def Let_def using unat_and_15 [of v] by (intro char_of_NUL) auto

definition dumpOk :: "i2c_dump \<Rightarrow> bool" where
  "dumpOk d \<longleftrightarrow> unat (dumpCount d) \<le> 64 \<and> length (dumpBuffer d) = unat (dumpCount d)"

lemma length_dumpBytes: "length (concat (concat (map (\<lambda>b. [[hexDigit (drop_bit 4 b)], [hexDigit b]]) bs))) = 2 * length bs"
  by (induction bs) simp_all

lemma printDump_all:
  assumes "dumpOk d" "length m = 192"
  shows "printDump m d = Some (cli_ok (concat (dumpPieces d)))"
proof -
  let ?t = "concat (dumpPieces d)"
  have l: "length ?t < 192"
    using assms(1) length_dumpBytes [of "dumpBuffer d"] by (auto simp: dumpPieces_def dumpOk_def)
  have bytes: "NUL \<notin> set (concat (concat (map (\<lambda>b. [[hexDigit (drop_bit 4 b)], [hexDigit b]]) bs)))" for bs
    by (induction bs) (simp_all add: hexDigit_not_NUL [symmetric])
  have "unat (dumpCount d) div 10 < 100" "unat (dumpCount d) mod 10 < 100" using assms(1) by (auto simp: dumpOk_def)
  then have digits: "NUL \<noteq> char_of (48 + unat (dumpCount d) div 10)" "NUL \<noteq> char_of (48 + unat (dumpCount d) mod 10)"
    using char_of_NUL [of "48 + unat (dumpCount d) div 10"] char_of_NUL [of "48 + unat (dumpCount d) mod 10"] by auto
  have nul: "NUL \<notin> set ?t"
    using bytes [of "dumpBuffer d"] digits
    by (simp add: dumpPieces_def hexDigit_not_NUL [symmetric]) (simp add: NUL_def)
  have a: "appendPieces m 0 (dumpPieces d) = Some (?t @ drop (length ?t) m, length ?t)"
    using appendPieces_spec [of 0 m "dumpPieces d"] l assms(2) by simp
  have "(?t @ drop (length ?t) m)[length ?t := NUL] = ?t @ NUL # drop (Suc (length ?t)) m"
    using l assms(2) by (simp add: list_update_append Cons_nth_drop_Suc [symmetric])
  moreover have "cString (?t @ NUL # drop (Suc (length ?t)) m) 0 = ?t"
    using nul by (intro cString_stringAt) (auto simp: stringAt_def)
  ultimately show ?thesis using a l assms(2) by (simp add: printDump_def)
qed

section \<open>Runs\<close>

text \<open>Interrupts, rounds of the worker (at a time) and commands, in the order in which they happen. The
  outputs are the bytes given to the master and the text on the UART.\<close>

datatype i2c_event = Interrupt i2c_irq | Worker u32 | Command "string list"

datatype i2c_output = ToMaster u8 | ToUart string

definition i2cStep :: "u32 \<Rightarrow> i2c_event \<Rightarrow> i2c_state \<Rightarrow> (i2c_output list \<times> i2c_state) option" where
  "i2cStep version e s =
     (case e of
        Interrupt irq \<Rightarrow>
          do { (out, s) \<leftarrow> i2cInterruptHandler irq s;
               Some (case out of None \<Rightarrow> [] | Some v \<Rightarrow> [ToMaster v], s) }
      | Worker ticks \<Rightarrow> do { (out, s) \<leftarrow> workerRound version ticks (replicate 192 NUL) s; Some ([ToUart out], s) }
      | Command argv \<Rightarrow> (case i2c_slave_cli_command argv s of (out, s) \<Rightarrow> Some ([ToUart out], s)))"

fun i2cRun :: "u32 \<Rightarrow> i2c_event list \<Rightarrow> i2c_state \<Rightarrow> (i2c_output list \<times> i2c_state) option" where
  "i2cRun version [] s = Some ([], s)"
| "i2cRun version (e # es) s =
     do { (o1, s) \<leftarrow> i2cStep version e s; (o2, s) \<leftarrow> i2cRun version es s; Some (o1 @ o2, s) }"

lemma i2cRun_append:
  "i2cRun v (xs @ ys) s = do { (o1, s) \<leftarrow> i2cRun v xs s; (o2, s) \<leftarrow> i2cRun v ys s; Some (o1 @ o2, s) }"
proof (induction xs arbitrary: s)
  case Nil
  then show ?case by (cases "i2cRun v ys s") auto
next
  case (Cons x xs)
  show ?case
  proof (cases "i2cStep v x s")
    case (Some r)
    then obtain o1 s1 where r: "i2cStep v x s = Some (o1, s1)" by (cases r) auto
    show ?thesis
    proof (cases "i2cRun v xs s1")
      case (Some r2)
      then obtain o2 s2 where r2: "i2cRun v xs s1 = Some (o2, s2)" by (cases r2) auto
      show ?thesis by (cases "i2cRun v ys s2") (auto simp: r r2 Cons.IH)
    qed (simp add: r Cons.IH)
  qed simp
qed

lemma worker_effect:
  "\<exists>t e. workerRelease (workerCommand d s) =
     s\<lparr>pendingCount := 0, transmitRegisters := 0xFF, transactionCount := t, errorCount := e\<rparr>"
  by (rule exI [of _ "transactionCount (workerCommand d s)"], rule exI [of _ "errorCount (workerCommand d s)"])
    (simp add: workerRelease_def workerCommand_def)

lemma workerRound_ok:
  assumes "i2cOk s" "length m = 192"
  shows "\<exists>out t e rs. workerRound version ticks m s = Some (out, s\<lparr>pendingCount := 0, transmitRegisters := 0xFF,
        transactionCount := t, errorCount := e, registers := rs, activeRegisters := activeRegisters s XOR 1\<rparr>) \<and>
    i2cOk (s\<lparr>pendingCount := 0, transmitRegisters := 0xFF,
        transactionCount := t, errorCount := e, registers := rs, activeRegisters := activeRegisters s XOR 1\<rparr>) \<and>
    rs ! unat (activeRegisters s) = registers s ! unat (activeRegisters s) \<and>
    rs ! unat (activeRegisters s XOR 1) = statusBank version (currentRole s) t e ticks \<and>
    out = (if dumpEnabled s \<and> pendingCount s \<noteq> 0 then cli_ok (concat (dumpPieces \<lparr>dumpCount = pendingCount s,
      dumpRegister = pendingRegister s, dumpDirection = pendingDirection s,
      dumpBuffer = take (unat (pendingCount s)) (pendingBuffer s)\<rparr>)) else [])"
proof -
  have p: "unat (pendingCount s) \<le> 64" "length (pendingBuffer s) = 64" using assms(1) by (simp_all add: i2cOk_def)
  let ?d = "\<lparr>dumpCount = pendingCount s, dumpRegister = pendingRegister s, dumpDirection = pendingDirection s,
     dumpBuffer = take (unat (pendingCount s)) (pendingBuffer s)\<rparr>"
  have d: "workerRead s = Some ?d"
    using p by (simp add: workerRead_def I2C_DUMP_MAX_def I2C_WRITE_MAX_def I2C_REGISTER_COUNT_def)
  have dok: "dumpOk ?d" using p by (simp add: dumpOk_def)
  obtain t e where s1: "workerRelease (workerCommand ?d s) =
      s\<lparr>pendingCount := 0, transmitRegisters := 0xFF, transactionCount := t, errorCount := e\<rparr>"
    using worker_effect by blast
  let ?s1 = "s\<lparr>pendingCount := 0, transmitRegisters := 0xFF, transactionCount := t, errorCount := e\<rparr>"
  have ok: "i2cOk ?s1" using assms(1) by (simp add: i2cOk_def)
  from publish_ok [OF ok, of version ticks] obtain rs where
    pub: "publishRegisters version ticks ?s1 = Some (?s1\<lparr>registers := rs, activeRegisters := activeRegisters s XOR 1\<rparr>)"
      "i2cOk (?s1\<lparr>registers := rs, activeRegisters := activeRegisters s XOR 1\<rparr>)"
      "rs ! unat (activeRegisters s) = registers s ! unat (activeRegisters s)"
      "rs ! unat (activeRegisters s XOR 1) = statusBank version (currentRole s) t e ticks" by auto
  have "workerRound version ticks m s =
      Some (if dumpEnabled s \<and> pendingCount s \<noteq> 0 then cli_ok (concat (dumpPieces ?d)) else [],
        ?s1\<lparr>registers := rs, activeRegisters := activeRegisters s XOR 1\<rparr>)"
    using printDump_all [OF dok assms(2)] by (simp add: workerRound_def d s1 pub(1))
  with pub(2-4) show ?thesis by blast
qed

lemma command_ok: "i2cOk s \<Longrightarrow> i2cOk (snd (i2c_slave_cli_command argv s))"
  by (simp add: i2c_slave_cli_command_def i2cOk_def)

lemma i2cStep_ok: "i2cOk s \<Longrightarrow> \<exists>out s'. i2cStep v e s = Some (out, s') \<and> i2cOk s'"
proof (cases e)
  case (Interrupt irq)
  then show "i2cOk s \<Longrightarrow> ?thesis" using handler_ok [of s irq] by (auto simp: i2cStep_def)
next
  case (Worker t)
  then show "i2cOk s \<Longrightarrow> ?thesis" using workerRound_ok [of s "replicate 192 NUL" v t] by (auto simp: i2cStep_def)
next
  case (Command argv)
  then show "i2cOk s \<Longrightarrow> ?thesis" using command_ok [of s argv] by (auto simp: i2cStep_def split: prod.splits)
qed

lemma i2cRun_ok: "i2cOk s \<Longrightarrow> \<exists>out s'. i2cRun v es s = Some (out, s') \<and> i2cOk s'"
proof (induction es arbitrary: s)
  case (Cons e es)
  from i2cStep_ok [OF Cons.prems, of v e] obtain o1 s1 where "i2cStep v e s = Some (o1, s1)" "i2cOk s1" by blast
  with Cons.IH [of s1] show ?case by auto
qed simp

section \<open>Transactions\<close>

definition firstIrq :: "u8 \<Rightarrow> i2c_event" where
  "firstIrq r = Interrupt \<lparr>irqData = True, irqStop = False, irqStatus = RREQ_FBR, irqByte = r\<rparr>"

definition byteIrq :: "u8 \<Rightarrow> i2c_event" where
  "byteIrq b = Interrupt \<lparr>irqData = True, irqStop = False, irqStatus = RREQ, irqByte = b\<rparr>"

definition readIrq :: i2c_event where
  "readIrq = Interrupt \<lparr>irqData = True, irqStop = False, irqStatus = TREQ, irqByte = 0\<rparr>"

definition stopIrq :: i2c_event where
  "stopIrq = Interrupt \<lparr>irqData = False, irqStop = True, irqStatus = NoAct, irqByte = 0\<rparr>"

definition writeTransaction :: "u8 \<Rightarrow> u8 list \<Rightarrow> i2c_event list" where
  "writeTransaction r bs = firstIrq r # map byteIrq bs @ [stopIrq]"

lemmas irq_defs = firstIrq_def byteIrq_def readIrq_def stopIrq_def i2cStep_def i2cInterruptHandler_def dataInterrupt_def

lemma write_bytes:
  assumes "i2cOk s" "unat (receiveCount s) + length bs \<le> 64"
  shows "\<exists>buf. i2cRun v (map byteIrq bs) s = Some ([], s\<lparr>receiveBuffer := buf, receiveCount := receiveCount s + of_nat (length bs)\<rparr>) \<and>
    length buf = 64 \<and> take (unat (receiveCount s) + length bs) buf = take (unat (receiveCount s)) (receiveBuffer s) @ bs"
  using assms
proof (induction bs arbitrary: s)
  case Nil
  then show ?case by (auto simp: i2cOk_def intro!: exI [of _ "receiveBuffer s"])
next
  case (Cons b bs)
  let ?k = "unat (receiveCount s)"
  have k: "?k < 64" "length (receiveBuffer s) = 64" using Cons.prems by (simp_all add: i2cOk_def)
  then have k1: "unat (receiveCount s + 1) = Suc ?k" by (simp add: unat_word_ariths)
  let ?s = "s\<lparr>receiveBuffer := (receiveBuffer s)[?k := b], receiveCount := receiveCount s + 1\<rparr>"
  have step: "i2cStep v (byteIrq b) s = Some ([], ?s)"
    using k by (simp add: irq_defs payloadByte_def I2C_WRITE_MAX_def I2C_REGISTER_COUNT_def)
  have "i2cOk ?s" using Cons.prems(1) k k1 by (simp add: i2cOk_def)
  from Cons.IH [OF this] Cons.prems(2) k1 obtain buf where
    b: "i2cRun v (map byteIrq bs) ?s = Some ([], ?s\<lparr>receiveBuffer := buf, receiveCount := receiveCount s + 1 + of_nat (length bs)\<rparr>)"
      "length buf = 64" "take (Suc ?k + length bs) buf = take (Suc ?k) ((receiveBuffer s)[?k := b]) @ bs" by auto
  have "take (Suc ?k) ((receiveBuffer s)[?k := b]) = take ?k (receiveBuffer s) @ [b]" using k by (simp add: take_update_at)
  with b step show ?case by (intro exI [of _ buf]) (simp add: add.assoc)
qed

text \<open>A write transaction while nothing is pending: the record is queued for the worker, and a write
  inside the loopback window is in the loopback buffer at once.\<close>

lemma write_transaction:
  assumes "i2cOk s" "pendingCount s = 0" "bs \<noteq> []" "length bs \<le> 64"
  shows "\<exists>s'. i2cRun v (writeTransaction r bs) s = Some ([], s') \<and> i2cOk s' \<and> pendingCount s' = of_nat (length bs) \<and>
    pendingRegister s' = r \<and> pendingDirection s' = I2C_DUMP_WRITE \<and> take (length bs) (pendingBuffer s') = bs \<and>
    transactionCount s' = transactionCount s + 1 \<and> errorCount s' = errorCount s \<and>
    loopbackBuffer s' = (if isLoopbackWrite r (of_nat (length bs))
      then take (unat r - 128) (loopbackBuffer s) @ bs @ drop (unat r - 128 + length bs) (loopbackBuffer s)
      else loopbackBuffer s)"
proof -
  have n: "unat (of_nat (length bs) :: u8) = length bs" by (rule unat_of_nat_less) (use assms(4) in simp)
  let ?s1 = "firstByte r s"
  have s1: "i2cOk ?s1" by (rule firstByte_ok [OF assms(1)])
  have r1: "receiveCount ?s1 = 0" "pendingCount ?s1 = 0" "registerPointer ?s1 = r" "loopbackBuffer ?s1 = loopbackBuffer s"
    "length (pendingBuffer ?s1) = 64" "length (loopbackBuffer s) = 64"
    "transactionCount ?s1 = transactionCount s" "errorCount ?s1 = errorCount s"
    using assms(1,2) by (simp_all add: firstByte_def i2cOk_def)
  have "unat (receiveCount ?s1) + length bs \<le> 64" using r1(1) assms(4) by simp
  from write_bytes [OF s1 this, of v] r1(1) obtain buf where
    b: "i2cRun v (map byteIrq bs) ?s1 = Some ([], ?s1\<lparr>receiveBuffer := buf, receiveCount := of_nat (length bs)\<rparr>)"
      "length buf = 64" "take (length bs) buf = bs" by auto
  let ?s2 = "?s1\<lparr>receiveBuffer := buf, receiveCount := of_nat (length bs)\<rparr>"
  have idx: "unat (r - I2C_LOOPBACK_REGISTER) = unat r - 128 \<and> unat r - 128 + length bs \<le> 64"
    if "isLoopbackWrite r (of_nat (length bs))"
    using that n loopback_index [of r]
    by (auto simp: isLoopbackWrite_def I2C_LOOPBACK_SIZE_def I2C_LOOPBACK_REGISTER_def)
  have nz: "(of_nat (length bs) :: u8) \<noteq> 0" using n assms(3) by (metis length_0_conv unat_0)
  have "\<exists>s3. stopInterrupt ?s2 = Some s3 \<and> pendingCount s3 = of_nat (length bs) \<and>
    pendingRegister s3 = r \<and> pendingDirection s3 = I2C_DUMP_WRITE \<and> take (length bs) (pendingBuffer s3) = bs \<and>
    transactionCount s3 = transactionCount s + 1 \<and> errorCount s3 = errorCount s \<and>
    loopbackBuffer s3 = (if isLoopbackWrite r (of_nat (length bs))
      then take (unat r - 128) (loopbackBuffer s) @ bs @ drop (unat r - 128 + length bs) (loopbackBuffer s)
      else loopbackBuffer s)"
    using nz idx b n r1 assms(4)
    by (cases "isLoopbackWrite r (of_nat (length bs))") (simp_all add: stopInterrupt_def stopWrite_def resetTransmit_def)
  then obtain s3 where s3: "stopInterrupt ?s2 = Some s3" "pendingCount s3 = of_nat (length bs)"
    "pendingRegister s3 = r" "pendingDirection s3 = I2C_DUMP_WRITE" "take (length bs) (pendingBuffer s3) = bs"
    "transactionCount s3 = transactionCount s + 1" "errorCount s3 = errorCount s"
    "loopbackBuffer s3 = (if isLoopbackWrite r (of_nat (length bs))
      then take (unat r - 128) (loopbackBuffer s) @ bs @ drop (unat r - 128 + length bs) (loopbackBuffer s)
      else loopbackBuffer s)" by blast
  have "i2cStep v (firstIrq r) s = Some ([], ?s1)" "i2cStep v stopIrq ?s2 = Some ([], s3)"
    using s3(1) by (simp_all add: irq_defs)
  then have run: "i2cRun v (writeTransaction r bs) s = Some ([], s3)"
    by (simp add: writeTransaction_def i2cRun_append b(1))
  with i2cRun_ok [OF assms(1), of v "writeTransaction r bs"] have "i2cOk s3" by auto
  with run s3(2-8) show ?thesis by blast
qed

text \<open>A read is a pointer byte and then requests for bytes, between which the worker may run.\<close>

primrec masterBytes :: "i2c_output list \<Rightarrow> u8 list" where
  "masterBytes [] = []"
| "masterBytes (x # xs) = (case x of ToMaster v \<Rightarrow> v # masterBytes xs | ToUart t \<Rightarrow> masterBytes xs)"

lemma masterBytes_append [simp]: "masterBytes (xs @ ys) = masterBytes xs @ masterBytes ys"
  by (induction xs) (auto split: i2c_output.splits)

fun readsAndWorker :: "i2c_event list \<Rightarrow> bool" where
  "readsAndWorker [] = True"
| "readsAndWorker (Worker t # es) = readsAndWorker es"
| "readsAndWorker (e # es) = (e = readIrq \<and> readsAndWorker es)"

definition reads :: "i2c_event list \<Rightarrow> nat" where
  "reads es = length (filter (\<lambda>e. e = readIrq) es)"

definition rounds :: "i2c_event list \<Rightarrow> nat" where
  "rounds es = length (filter (\<lambda>e. case e of Worker t \<Rightarrow> True | _ \<Rightarrow> False) es)"

lemma reads_simps [simp]: "reads [] = 0" "reads (readIrq # es) = Suc (reads es)" "reads (Worker t # es) = reads es"
  "rounds [] = 0" "rounds (readIrq # es) = rounds es" "rounds (Worker t # es) = Suc (rounds es)"
  by (simp_all add: reads_def rounds_def readIrq_def)

lemma readsAndWorker_induct [consumes 1, case_names Nil Work Read]:
  assumes "readsAndWorker es" "P []" "\<And>t es. readsAndWorker es \<Longrightarrow> P es \<Longrightarrow> P (Worker t # es)"
    "\<And>es. readsAndWorker es \<Longrightarrow> P es \<Longrightarrow> P (readIrq # es)"
  shows "P es"
  using assms(1) by (induction es rule: readsAndWorker.induct) (auto intro: assms(2-4))

lemma transmit_loopback:
  assumes "i2cOk s" "transmitPointerValid s" "transmitLoopback s" "128 \<le> unat (registerPointer s)" "unat (registerPointer s) < 192"
  shows "\<exists>s'. transmitRequest s = Some (loopbackBuffer s ! (unat (registerPointer s) - 128), s') \<and> i2cOk s' \<and>
    transmitPointerValid s' \<and> transmitLoopback s' \<and> unat (registerPointer s') = Suc (unat (registerPointer s)) \<and>
    loopbackBuffer s' = loopbackBuffer s"
proof -
  have "inLoopback (registerPointer s)"
    using assms(4,5) by (simp add: inLoopback_def I2C_LOOPBACK_REGISTER_def I2C_LOOPBACK_SIZE_def word_le_nat_alt)
  moreover from loopback_index [OF this] have "unat (registerPointer s - I2C_LOOPBACK_REGISTER) = unat (registerPointer s) - 128" by simp
  moreover have "unat (registerPointer s + 1) = Suc (unat (registerPointer s))" using assms(5) by (simp add: unat_word_ariths)
  moreover obtain v s' where "transmitRequest s = Some (v, s')" "i2cOk s'" using transmitRequest_ok [OF assms(1)] by blast
  moreover have "length (loopbackBuffer s) = 64" using assms(1) by (simp add: i2cOk_def)
  ultimately show ?thesis
    using assms(2-5) by (auto simp: transmitRequest_def Let_def bind_eq_Some_conv)
qed

lemma read_loopback:
  assumes "readsAndWorker es" "i2cOk s" "transmitPointerValid s" "transmitLoopback s"
    and "128 \<le> unat (registerPointer s)" "unat (registerPointer s) + reads es \<le> 192"
  shows "\<exists>out s'. i2cRun v es s = Some (out, s') \<and> i2cOk s' \<and>
    masterBytes out = take (reads es) (drop (unat (registerPointer s) - 128) (loopbackBuffer s))"
  using assms
proof (induction es arbitrary: s rule: readsAndWorker_induct)
  case (Work t es)
  from workerRound_ok [OF Work.prems(1), of "replicate 192 NUL" v t] obtain o1 t1 e1 rs where
    w: "workerRound v t (replicate 192 NUL) s = Some (o1, s\<lparr>pendingCount := 0, transmitRegisters := 0xFF,
        transactionCount := t1, errorCount := e1, registers := rs, activeRegisters := activeRegisters s XOR 1\<rparr>)"
      "i2cOk (s\<lparr>pendingCount := 0, transmitRegisters := 0xFF,
        transactionCount := t1, errorCount := e1, registers := rs, activeRegisters := activeRegisters s XOR 1\<rparr>)" by auto
  from Work.IH [OF w(2)] Work.prems w(1) show ?case by (auto simp: i2cStep_def)
next
  case (Read es)
  then have lt: "unat (registerPointer s) < 192" by simp
  from transmit_loopback [OF Read.prems(1-4) lt] obtain s1 where
    t: "transmitRequest s = Some (loopbackBuffer s ! (unat (registerPointer s) - 128), s1)" "i2cOk s1"
      "transmitPointerValid s1" "transmitLoopback s1" "unat (registerPointer s1) = Suc (unat (registerPointer s))"
      "loopbackBuffer s1 = loopbackBuffer s" by blast
  have step: "i2cStep v readIrq s = Some ([ToMaster (loopbackBuffer s ! (unat (registerPointer s) - 128))], s1)"
    using t(1) by (simp add: irq_defs)
  have i: "unat (registerPointer s) - 128 < length (loopbackBuffer s)" using lt Read.prems(1,4) by (simp add: i2cOk_def)
  have d: "drop (unat (registerPointer s) - 128) (loopbackBuffer s) =
      loopbackBuffer s ! (unat (registerPointer s) - 128) # drop (Suc (unat (registerPointer s)) - 128) (loopbackBuffer s)"
    using Cons_nth_drop_Suc [OF i] Read.prems(4) by (simp only: Suc_diff_le)
  from Read.IH [OF t(2-4)] Read.prems(4,5) t(5,6) obtain out s2 where
    "i2cRun v es s1 = Some (out, s2)" "i2cOk s2"
    "masterBytes out = take (reads es) (drop (Suc (unat (registerPointer s)) - 128) (loopbackBuffer s))" by auto
  with step d show ?case by auto
qed simp

lemma transmit_status:
  assumes "i2cOk s" "transmitPointerValid s" "\<not> transmitLoopback s"
    and "transmitRegisters s = transmitRegisterSnapshot s \<or> transmitRegisters s = 0xFF"
  shows "\<exists>s'. transmitRequest s =
      Some (registers s ! unat (transmitRegisterSnapshot s) ! (unat (registerPointer s) mod 64), s') \<and> i2cOk s' \<and>
    transmitPointerValid s' \<and> \<not> transmitLoopback s' \<and> registerPointer s' = registerPointer s + 1 \<and>
    transmitRegisters s' = transmitRegisterSnapshot s \<and> transmitRegisterSnapshot s' = transmitRegisterSnapshot s \<and>
    registers s' = registers s \<and> activeRegisters s' = activeRegisters s"
proof -
  obtain v s' where t: "transmitRequest s = Some (v, s')" "i2cOk s'" using transmitRequest_ok [OF assms(1)] by blast
  have "transmitRegisterSnapshot s = 0 \<or> transmitRegisterSnapshot s = 1" using assms(1) by (simp add: i2cOk_def)
  have eq: "transmitRegisters s = transmitRegisterSnapshot s" if "\<not> transmitRegisters s > 1"
    using assms(4) that by auto
  show ?thesis
  proof (cases "transmitRegisters s > 1")
    case True
    with t assms(1-3) show ?thesis
      by (auto simp: transmitRequest_def Let_def bind_eq_Some_conv fetch_def unat_and_63 split: if_splits)
  next
    case False
    with t assms(1-3) eq [OF False] show ?thesis
      by (auto simp: transmitRequest_def Let_def bind_eq_Some_conv fetch_def unat_and_63 split: if_splits)
  qed
qed

lemma read_status:
  assumes "readsAndWorker es" "i2cOk s" "transmitPointerValid s" "\<not> transmitLoopback s"
    and "transmitRegisters s = transmitRegisterSnapshot s \<or> transmitRegisters s = 0xFF"
    and "rounds es \<le> (if activeRegisters s = transmitRegisterSnapshot s then 1 else 0)"
  shows "\<exists>out s'. i2cRun v es s = Some (out, s') \<and> i2cOk s' \<and>
    masterBytes out = map (\<lambda>i. registers s ! unat (transmitRegisterSnapshot s) ! ((unat (registerPointer s) + i) mod 64)) [0..<reads es]"
  using assms
proof (induction es arbitrary: s rule: readsAndWorker_induct)
  case (Work t es)
  then have a: "activeRegisters s = transmitRegisterSnapshot s" "rounds es = 0" by (auto split: if_splits)
  from workerRound_ok [OF Work.prems(1), of "replicate 192 NUL" v t] obtain o1 t1 e1 rs where
    w: "workerRound v t (replicate 192 NUL) s = Some (o1, s\<lparr>pendingCount := 0, transmitRegisters := 0xFF,
        transactionCount := t1, errorCount := e1, registers := rs, activeRegisters := activeRegisters s XOR 1\<rparr>)"
      "i2cOk (s\<lparr>pendingCount := 0, transmitRegisters := 0xFF,
        transactionCount := t1, errorCount := e1, registers := rs, activeRegisters := activeRegisters s XOR 1\<rparr>)"
      "rs ! unat (activeRegisters s) = registers s ! unat (activeRegisters s)" by auto
  from Work.IH [OF w(2)] Work.prems(2,3) w(1,3) a show ?case by (auto simp: i2cStep_def)
next
  case (Read es)
  from transmit_status [OF Read.prems(1-4)] obtain s1 where
    t: "transmitRequest s = Some (registers s ! unat (transmitRegisterSnapshot s) ! (unat (registerPointer s) mod 64), s1)"
      "i2cOk s1" "transmitPointerValid s1" "\<not> transmitLoopback s1" "registerPointer s1 = registerPointer s + 1"
      "transmitRegisters s1 = transmitRegisterSnapshot s" "transmitRegisterSnapshot s1 = transmitRegisterSnapshot s"
      "registers s1 = registers s" "activeRegisters s1 = activeRegisters s" by blast
  have step: "i2cStep v readIrq s =
      Some ([ToMaster (registers s ! unat (transmitRegisterSnapshot s) ! (unat (registerPointer s) mod 64))], s1)"
    using t(1) by (simp add: irq_defs)
  have p: "(unat (registerPointer s + 1) + i) mod 64 = (unat (registerPointer s) + Suc i) mod 64" for i
  proof -
    have "unat (registerPointer s + 1) mod 64 = Suc (unat (registerPointer s)) mod 64"
      by (simp add: unat_word_ariths mod_mod_cancel)
    then show ?thesis by (metis add_Suc_shift mod_add_left_eq)
  qed
  from Read.IH [OF t(2-4)] Read.prems(5) t(5-9) obtain out s2 where
    "i2cRun v es s1 = Some (out, s2)" "i2cOk s2"
    "masterBytes out = map (\<lambda>i. registers s ! unat (transmitRegisterSnapshot s) ! ((unat (registerPointer s) + Suc i) mod 64)) [0..<reads es]"
    by (auto simp: p)
  with step show ?case by (auto simp: upt_conv_Cons map_Suc_upt [symmetric] simp del: upt_Suc)
qed simp

section \<open>What the slave promises\<close>

text \<open>The interrupt is enabled only after both the registers are published and the slave answers to its address.\<close>

definition interruptLast :: "i2c_call list \<Rightarrow> bool" where
  "interruptLast calls \<longleftrightarrow> (\<forall>i < length calls. calls ! i = Hwi_enableInterrupt ''INT_I2C_IRQ'' \<longrightarrow>
     RegistersPublished \<in> set (take i calls) \<and> I2CSlaveInit I2C_SLAVE_ADDRESS \<in> set (take i calls))"

lemma start_ok:
  "\<exists>calls s. i2c_slave_start True 0 created version ticks role initialI2c = Some (created, calls, s) \<and>
     i2cOk s \<and> interruptLast calls"
proof -
  let ?s = "initialI2c\<lparr>currentRole := role, transmitRegisters := 0xFF, transmitPointerValid := False,
                transmitLoopback := False, workPosted := 0\<rparr>"
  have "i2cOk ?s" by (simp add: i2cOk_def initialI2c_def)
  from publish_ok [OF this, of version ticks] show ?thesis
    by (auto simp: i2c_slave_start_def i2cInitializeHardware_def Let_def interruptLast_def less_Suc_eq nth_Cons')
qed

text \<open>C32. Memory safety of the slave: \<open>i2c_slave_start\<close> enables the interrupt only when the registers are
  published, and from then on, whatever bytes, requests and stop conditions the master produces, in whatever order they
  mix with the worker and the console, no access leaves the register banks or the 64-byte buffers and the invariant of
  the state holds. The next round of the worker then prints the whole pending record, in a message that fits its 192
  bytes, exactly when dumping is on and a record is pending.\<close>

theorem i2c_slave_memory_safe:
  "\<exists>calls s0 out s. i2c_slave_start True 0 created version ticks role initialI2c = Some (created, calls, s0) \<and>
     interruptLast calls \<and> i2cRun version es s0 = Some (out, s) \<and> i2cOk s \<and>
     (\<exists>s'. workerRound version t (replicate 192 NUL) s =
        Some (if dumpEnabled s \<and> pendingCount s \<noteq> 0 then cli_ok (concat (dumpPieces \<lparr>dumpCount = pendingCount s,
           dumpRegister = pendingRegister s, dumpDirection = pendingDirection s,
           dumpBuffer = take (unat (pendingCount s)) (pendingBuffer s)\<rparr>)) else [], s') \<and>
        pendingCount s' = 0)"
proof -
  from start_ok obtain calls s0 where
    s0: "i2c_slave_start True 0 created version ticks role initialI2c = Some (created, calls, s0)" "i2cOk s0"
      "interruptLast calls" by blast
  from i2cRun_ok [OF s0(2)] obtain out s where r: "i2cRun version es s0 = Some (out, s)" "i2cOk s" by blast
  from workerRound_ok [OF r(2), of "replicate 192 NUL" version t] have
    "\<exists>s'. workerRound version t (replicate 192 NUL) s =
        Some (if dumpEnabled s \<and> pendingCount s \<noteq> 0 then cli_ok (concat (dumpPieces \<lparr>dumpCount = pendingCount s,
           dumpRegister = pendingRegister s, dumpDirection = pendingDirection s,
           dumpBuffer = take (unat (pendingCount s)) (pendingBuffer s)\<rparr>)) else [], s') \<and>
        pendingCount s' = 0" by auto
  with s0(1,3) r show ?thesis by blast
qed

lemma workers_keep:
  assumes "i2cOk s"
  shows "\<exists>out s'. i2cRun v (map Worker ts) s = Some (out, s') \<and> i2cOk s' \<and> loopbackBuffer s' = loopbackBuffer s \<and>
    masterBytes out = []"
  using assms
proof (induction ts arbitrary: s)
  case (Cons t ts)
  from workerRound_ok [OF Cons.prems, of "replicate 192 NUL" v t] obtain o1 s1 where
    w: "workerRound v t (replicate 192 NUL) s = Some (o1, s1)" "i2cOk s1" "loopbackBuffer s1 = loopbackBuffer s" by auto
  with Cons.IH [OF w(2)] show ?case by (auto simp: i2cStep_def)
qed simp

text \<open>C33. The loopback window returns what was written: after a write of \<open>bs\<close> that fits in the window, with nothing
  pending before it, a read from the same register gets \<open>bs\<close>, whatever rounds of the worker come between the two
  transactions and between the bytes of the read.\<close>

theorem loopback_round_trip:
  assumes "i2cOk s" "pendingCount s = 0" "bs \<noteq> []" "length bs \<le> 64" "isLoopbackWrite r (of_nat (length bs))"
    and "readsAndWorker es" "reads es = length bs"
  shows "\<exists>out s'. i2cRun v (writeTransaction r bs @ map Worker ts @ firstIrq r # es) s = Some (out, s') \<and>
    masterBytes out = bs"
proof -
  have n: "unat (of_nat (length bs) :: u8) = length bs" by (rule unat_of_nat_less) (use assms(4) in simp)
  have r: "inLoopback r" "128 \<le> unat r" "unat r + length bs \<le> 192"
    using assms(5) n loopback_index [of r]
    by (auto simp: isLoopbackWrite_def I2C_LOOPBACK_SIZE_def I2C_LOOPBACK_REGISTER_def)
  from write_transaction [OF assms(1-4), of v r] assms(5) obtain s1 where
    s1: "i2cRun v (writeTransaction r bs) s = Some ([], s1)" "i2cOk s1"
      "loopbackBuffer s1 = take (unat r - 128) (loopbackBuffer s) @ bs @ drop (unat r - 128 + length bs) (loopbackBuffer s)"
    by auto
  from workers_keep [OF s1(2), of v ts] obtain o2 s2 where
    s2: "i2cRun v (map Worker ts) s1 = Some (o2, s2)" "i2cOk s2" "loopbackBuffer s2 = loopbackBuffer s1" "masterBytes o2 = []"
    by blast
  let ?s3 = "firstByte r s2"
  have "i2cOk ?s3" "transmitPointerValid ?s3" "transmitLoopback ?s3" "registerPointer ?s3 = r"
    "loopbackBuffer ?s3 = loopbackBuffer s1"
    using firstByte_ok [OF s2(2), of r] r(1) s2(3) by (simp_all add: firstByte_def)
  with read_loopback [OF assms(6), of ?s3 v] r(2,3) assms(7) obtain o3 s4 where
    s4: "i2cRun v es ?s3 = Some (o3, s4)"
      "masterBytes o3 = take (length bs) (drop (unat r - 128) (loopbackBuffer s1))" by auto
  have "length (loopbackBuffer s) = 64" using assms(1) by (simp add: i2cOk_def)
  then have "masterBytes o3 = bs" using s4(2) s1(3) r(3) by (simp add: min_def)
  moreover have "i2cStep v (firstIrq r) s2 = Some ([], ?s3)" by (simp add: irq_defs)
  ultimately show ?thesis using s1(1) s2(1,4) s4(1) by (simp add: i2cRun_append)
qed

theorem loopback_round_trip_witness:
  "\<exists>out s'. i2cRun 7 (writeTransaction 0x82 [1, 2, 3] @ map Worker [10, 20] @
      firstIrq 0x82 # [readIrq, Worker 30, readIrq, Worker 40, readIrq]) initialI2c = Some (out, s') \<and>
    masterBytes out = [1, 2, 3]"
  using loopback_round_trip [of initialI2c "[1, 2, 3]" "0x82" "[readIrq, Worker 30, readIrq, Worker 40, readIrq]" 7 "[10, 20]"]
  by (simp add: i2cOk_def initialI2c_def isLoopbackWrite_def inLoopback_def I2C_LOOPBACK_REGISTER_def
      I2C_LOOPBACK_SIZE_def readIrq_def reads_def)

lemma statusBank_layout:
  "statusBank version role transactions errors ticks =
     [0x49, 0x32, 0x43, 0x53, 1] @ storeUint32Le version @ [role] @ storeUint32Le transactions @
     storeUint32Le errors @ storeUint32Le ticks @ replicate 42 0"
  by (simp add: statusBank_def writeUint32Le_def storeUint32Le_def I2C_REGISTER_COUNT_def Let_def
      replicate_numeral list_update_Cons_numeral)

text \<open>C34. A status read is one snapshot: after a round of the worker at time \<open>ticks\<close>, a read from register \<open>r\<close> below the
  loopback window returns consecutive bytes of the bank which that round published (wrapping at 64), with the
  counters and the clock of that round, even if one more round of the worker happens during the read.\<close>

theorem status_read_is_one_snapshot:
  assumes "i2cOk s" "\<not> inLoopback r" "readsAndWorker es" "rounds es \<le> 1"
  shows "\<exists>out s' transactions errors.
    i2cRun version (Worker ticks # firstIrq r # es) s = Some (out, s') \<and>
    masterBytes out = map (\<lambda>i. ([0x49, 0x32, 0x43, 0x53, 1] @ storeUint32Le version @ [currentRole s] @
        storeUint32Le transactions @ storeUint32Le errors @ storeUint32Le ticks @ replicate 42 0) !
          ((unat r + i) mod 64)) [0..<reads es] \<and>
    i2cRun version [Worker ticks] s \<bind> (\<lambda>(out, s1). Some (transactionCount s1, errorCount s1)) =
      Some (transactions, errors)"
proof -
  from workerRound_ok [OF assms(1), of "replicate 192 NUL" version ticks] obtain o1 t e rs where
    w: "workerRound version ticks (replicate 192 NUL) s = Some (o1, s\<lparr>pendingCount := 0, transmitRegisters := 0xFF,
        transactionCount := t, errorCount := e, registers := rs, activeRegisters := activeRegisters s XOR 1\<rparr>)"
      "i2cOk (s\<lparr>pendingCount := 0, transmitRegisters := 0xFF,
        transactionCount := t, errorCount := e, registers := rs, activeRegisters := activeRegisters s XOR 1\<rparr>)"
      "rs ! unat (activeRegisters s XOR 1) = statusBank version (currentRole s) t e ticks" by auto
  let ?s1 = "s\<lparr>pendingCount := 0, transmitRegisters := 0xFF,
        transactionCount := t, errorCount := e, registers := rs, activeRegisters := activeRegisters s XOR 1\<rparr>"
  let ?s2 = "firstByte r ?s1"
  have f: "i2cOk ?s2" "transmitPointerValid ?s2" "\<not> transmitLoopback ?s2" "transmitRegisters ?s2 = 0xFF"
    "activeRegisters ?s2 = transmitRegisterSnapshot ?s2" "registerPointer ?s2 = r"
    "registers ?s2 ! unat (transmitRegisterSnapshot ?s2) = statusBank version (currentRole s) t e ticks"
    using firstByte_ok [OF w(2), of r] assms(2) w(3) by (simp_all add: firstByte_def)
  from read_status [OF assms(3) f(1-3), of version] f(4-7) assms(4) obtain o2 s3 where
    r: "i2cRun version es ?s2 = Some (o2, s3)"
      "masterBytes o2 = map (\<lambda>i. statusBank version (currentRole s) t e ticks ! ((unat r + i) mod 64)) [0..<reads es]"
    by auto
  have "i2cStep version (firstIrq r) ?s1 = Some ([], ?s2)" by (simp add: irq_defs)
  moreover have "i2cStep version (Worker ticks) s = Some ([ToUart o1], ?s1)" using w(1) by (simp add: i2cStep_def)
  ultimately show ?thesis
    using r unfolding statusBank_layout
    by (intro exI [of _ "ToUart o1 # o2"] exI [of _ s3] exI [of _ t] exI [of _ e]) simp
qed

theorem status_read_is_one_snapshot_witness:
  "\<exists>out s' transactions errors.
    i2cRun 7 (Worker 100 # firstIrq 0x12 # [readIrq, Worker 200, readIrq]) initialI2c = Some (out, s') \<and>
    masterBytes out = map (\<lambda>i. ([0x49, 0x32, 0x43, 0x53, 1] @ storeUint32Le 7 @ [0] @
        storeUint32Le transactions @ storeUint32Le errors @ storeUint32Le 100 @ replicate 42 0) !
          ((unat (0x12 :: u8) + i) mod 64)) [0..<2] \<and>
    i2cRun 7 [Worker 100] initialI2c \<bind> (\<lambda>(out, s1). Some (transactionCount s1, errorCount s1)) =
      Some (transactions, errors)"
proof -
  have h: "i2cOk initialI2c" "\<not> inLoopback 0x12" "readsAndWorker [readIrq, Worker 200, readIrq]"
    "rounds [readIrq, Worker 200, readIrq] \<le> 1" "reads [readIrq, Worker 200, readIrq] = 2" "currentRole initialI2c = 0"
    by (simp_all add: i2cOk_def initialI2c_def inLoopback_def I2C_LOOPBACK_REGISTER_def I2C_LOOPBACK_SIZE_def readIrq_def rounds_def reads_def)
  show ?thesis using status_read_is_one_snapshot [OF h(1-4), of 7 100] unfolding h(5,6) .
qed

text \<open>C35. The worker takes the pending slot without locking the interrupt out. Let a whole write transaction arrive
  inside a round that has read an empty slot (one woken by the 100-tick timeout). The interrupt handler puts the
  record into the slot and counts the transaction; the round then releases the slot, so no later round sees the
  record, and as the round has read a length of zero it prints nothing. If the transaction arrives after the
  round's test for commands, that is all: the record is neither executed nor reported, and no error is counted. If it arrives
  between the reading and the test, the test combines the direction of the previous record, read before, with the new
  record: when the previous record was not a write the record is lost in the same way; when it was a write, the clear command is
  executed, and any other record counts as an error unless the register of the previous record was in the loopback
  window.\<close>

theorem record_lost_between_read_and_release:
  assumes "i2cOk s" "pendingCount s = 0" "bs \<noteq> []" "length bs \<le> 64" "workerRead s = Some d"
  shows "\<exists>s1. i2cRun v (writeTransaction r bs) s = Some ([], s1) \<and>
    pendingCount s1 = of_nat (length bs) \<and> pendingRegister s1 = r \<and> take (length bs) (pendingBuffer s1) = bs \<and>
    dumpCount d = 0 \<and>
    (let s2 = workerRelease s1 in workerCommand d s = s \<and>
       pendingCount s2 = 0 \<and> transactionCount s2 = transactionCount s + 1 \<and> errorCount s2 = errorCount s) \<and>
    (let s2 = workerRelease (workerCommand d s1) in pendingCount s2 = 0 \<and>
       (transactionCount s2, errorCount s2) =
         (if pendingDirection s \<noteq> I2C_DUMP_WRITE then (transactionCount s + 1, errorCount s)
          else if r = I2C_COMMAND_REGISTER \<and> bs = [I2C_COMMAND_CLEAR_STATS] then (0, 0)
          else if inLoopback (pendingRegister s) then (transactionCount s + 1, errorCount s)
          else (transactionCount s + 1, errorCount s + 1)))"
proof -
  from assms(5) have d: "dumpCount d = pendingCount s" "dumpDirection d = pendingDirection s" "dumpRegister d = pendingRegister s"
    by (auto simp: workerRead_def split: if_splits)
  from write_transaction [OF assms(1-4), of v r] obtain s1 where
    s1: "i2cRun v (writeTransaction r bs) s = Some ([], s1)" "pendingCount s1 = of_nat (length bs)" "pendingRegister s1 = r"
    "take (length bs) (pendingBuffer s1) = bs"
    "transactionCount s1 = transactionCount s + 1" "errorCount s1 = errorCount s" by blast
  have n: "unat (of_nat (length bs) :: u8) = length bs" by (rule unat_of_nat_less) (use assms(4) in simp)
  then have count: "((of_nat (length bs) :: u8) = 1) = (length bs = 1)" "(of_nat (length bs) :: u8) \<noteq> 0"
    using assms(3) by (metis unat_1 of_nat_1, metis length_0_conv unat_0)
  have clear: "(length bs = 1 \<and> pendingBuffer s1 ! 0 = c) = (bs = [c])" for c
  proof -
    have "pendingBuffer s1 ! 0 = bs ! 0" using s1(4) assms(3) nth_take [of 0 "length bs" "pendingBuffer s1"] by simp
    then show ?thesis by (cases bs) auto
  qed
  have loop: "isLoopbackWrite (dumpRegister d) (dumpCount d) = inLoopback (pendingRegister s)"
    using d assms(2) by (simp add: isLoopbackWrite_def)
  have before: "workerCommand d s = s" using assms(2) by (simp add: workerCommand_def)
  have test: "workerCommand d s1 = (if pendingDirection s = I2C_DUMP_WRITE \<and> r = I2C_COMMAND_REGISTER \<and> bs = [I2C_COMMAND_CLEAR_STATS]
      then s1\<lparr>transactionCount := 0, errorCount := 0\<rparr>
      else if pendingDirection s = I2C_DUMP_WRITE \<and> \<not> inLoopback (pendingRegister s) then s1\<lparr>errorCount := errorCount s1 + 1\<rparr> else s1)"
    unfolding workerCommand_def d(2) s1(2,3) loop count(1) clear using count(2) by simp
  show ?thesis
    by (intro exI [of _ s1]) (use s1 d(1) assms(2) before in \<open>simp add: test workerRelease_def Let_def\<close>)
qed

text \<open>The clear command is lost as the first transaction, and executed when a write preceded it.\<close>

theorem record_lost_between_read_and_release_witness:
  "let d = \<lparr>dumpCount = 0, dumpRegister = 0, dumpDirection = 0, dumpBuffer = []\<rparr>;
       d' = \<lparr>dumpCount = 0, dumpRegister = 0x80, dumpDirection = I2C_DUMP_WRITE, dumpBuffer = []\<rparr>;
       s' = initialI2c\<lparr>pendingRegister := 0x80, pendingDirection := I2C_DUMP_WRITE, transactionCount := 5, errorCount := 2\<rparr> in
   (\<exists>s1. i2cRun 7 (writeTransaction 0x40 [1]) initialI2c = Some ([], s1) \<and>
      transactionCount (workerRelease (workerCommand d s1)) = 1 \<and> pendingCount (workerRelease (workerCommand d s1)) = 0) \<and>
   (\<exists>s1. i2cRun 7 (writeTransaction 0x40 [1]) s' = Some ([], s1) \<and>
      transactionCount (workerRelease (workerCommand d' s1)) = 0 \<and> transactionCount (workerRelease s1) = 6)"
proof -
  let ?s = "initialI2c\<lparr>pendingRegister := 0x80, pendingDirection := I2C_DUMP_WRITE, transactionCount := 5, errorCount := 2\<rparr>"
  have ok: "i2cOk initialI2c" "i2cOk ?s" by (simp_all add: i2cOk_def initialI2c_def)
  show ?thesis
    using record_lost_between_read_and_release [OF ok(1), of "[1]" _ 7 "0x40"]
      record_lost_between_read_and_release [OF ok(2), of "[1]" _ 7 "0x40"]
    by (simp add: initialI2c_def workerRead_def I2C_DUMP_WRITE_def I2C_COMMAND_REGISTER_def I2C_COMMAND_CLEAR_STATS_def Let_def) blast
qed

end
