(* ===== verification/App_Main.thy ===== *)
theory App_Main
  imports Cli_Task
begin

text \<open>
  How the two programs start and how the application goes back to the bootloader: \<open>main\<close> of the
  application (\<open>main_tirtos.c\<close>) and of the bootloader (\<open>main_nortos.c\<close>), and the \<open>bootloader\<close> command
  (\<open>cli_bootloader.c\<close>). The results of the RTOS calls are parameters; the calls made are listed in their order.
\<close>

section \<open>The application's main\<close>

definition THREADSTACKSIZE :: nat where "THREADSTACKSIZE = 1024"

record main_env =
  i2cSlaveStart :: "FirmwareRole \<Rightarrow> int"
  attrSetdetachstate :: int
  attrSetstacksize :: int
  attrSetstack :: int
  pthreadCreate :: int
  cliStart :: int
  packetPrintStart :: int

datatype main_call =
    Board_initGeneral
  | RfPacketQueueInit
  | I2cSlaveStart FirmwareRole
  | PthreadCreate task_function nat nat
  | CliStart FirmwareRole
  | RfPacketPrintStart
  | BIOS_start

text \<open>Every \<open>while (1);\<close> is \<open>Spinning\<close>. The results are or-ed into \<open>retc\<close> as in the source.\<close>

datatype main_end = Spinning | BiosRunning

definition main :: "main_env \<Rightarrow> BootHandoff \<Rightarrow> main_end \<times> main_call list" where
  "main env handoff =
     (let role = firmware_role_from_metadata handoff;
          calls = [Board_initGeneral] @ (if role = FIRMWARE_ROLE_RX then [RfPacketQueueInit] else []);
          calls = calls @ [I2cSlaveStart role] in
      if i2cSlaveStart env role \<noteq> 0 then (Spinning, calls)
      else
        (let retc = attrSetdetachstate env in
         if retc \<noteq> 0 then (Spinning, calls)
         else
           (let retc = retc OR attrSetstacksize env in
            if retc \<noteq> 0 then (Spinning, calls)
            else if attrSetstack env \<noteq> 0 then (Spinning, calls)
            else
              (let thread = (if role = FIRMWARE_ROLE_TX then fn_firmware_tx_thread else fn_firmware_rx_thread);
                   calls = calls @ [PthreadCreate thread 2 THREADSTACKSIZE] in
               if pthreadCreate env \<noteq> 0 then (Spinning, calls)
               else
                 (let calls = calls @ [CliStart role] in
                  if cliStart env \<noteq> 0 then (Spinning, calls)
                  else if role = FIRMWARE_ROLE_RX \<and> packetPrintStart env \<noteq> 0
                  then (Spinning, calls @ [RfPacketPrintStart])
                  else (BiosRunning,
                    calls @ (if role = FIRMWARE_ROLE_RX then [RfPacketPrintStart] else []) @ [BIOS_start]))))))"

definition rf_packet_print_start :: "int \<Rightarrow> int \<Rightarrow> int \<Rightarrow> int \<Rightarrow> int" where
  "rf_packet_print_start setdetachstate setschedparam setstacksize create =
     (let status = setdetachstate OR setschedparam OR setstacksize in
      if status \<noteq> 0 then -1 else create)"

section \<open>The bootloader's main\<close>

text \<open>It initialises the board and the drivers and runs \<open>mainThread\<close>, which ends in the updater or in the
  application; a return would spin.\<close>

definition bootloaderMain :: "flash_driver \<Rightarrow> bool \<Rightarrow> flash \<Rightarrow> boot_outcome \<times> flash" where
  "bootloaderMain drv uartOpens f = mainThread drv uartOpens f"

section \<open>The bootloader command\<close>

record console =
  consoleFlash :: flash
  systemReset :: bool

definition bootloader_command :: "BlApi \<Rightarrow> string list \<Rightarrow> console \<Rightarrow> string \<times> console" where
  "bootloader_command mem argv st =
     (if length argv \<noteq> 1 then (cli_error ''ARG'' ''usage: bootloader'', st)
      else
        (case bl_request_update mem (consoleFlash st) of (status, f) \<Rightarrow>
           let st = st\<lparr>consoleFlash := f\<rparr> in
           if status \<noteq> 0 then (cli_error ''BOOT'' ''metadata_write_failed'', st)
           else (cli_ok ''rebooting_to_bootloader'', st\<lparr>systemReset := True\<rparr>)))"

definition cli_bootloader_command :: "BlApi \<Rightarrow> console CliCommand" where
  "cli_bootloader_command mem =
     \<lparr>name = ''bootloader'', usage = ''reboot into UART firmware updater'', handler = bootloader_command mem\<rparr>"

section \<open>Properties\<close>

text \<open>C38. The console's way back to the updater. On a console whose table is the one \<open>cliThread\<close> installs, a line whose first word is
  \<open>bootloader\<close> with further words is refused without effect. The bare command answers OK and resets exactly when the update request
  is on record, and then the next start of the bootloader enters the updater with the image fields and role kept;
  otherwise it reports the failure and the application goes on.\<close>

theorem bootloader_command_enters_updater:
  assumes "nor_flash drv" "journal_ok K (consoleFlash st)" "K < 2 ^ 31 - 1"
    and "name tx = ''tx''" "name rx = ''rx''" "\<not> systemReset st"
    and "cli_dispatch (runtimeCommands tx rx (cli_bootloader_command (bootloaderApi drv)) ipc stack role)
      (''bootloader'' # args) st = (out, st')"
  shows "(args \<noteq> [] \<longrightarrow> out = cli_error ''ARG'' ''usage: bootloader'' \<and> st' = st) \<and>
    (args = [] \<and> systemReset st' \<longrightarrow> out = cli_ok ''rebooting_to_bootloader'' \<and>
      (\<exists>m. bootloaderMain drv True (consoleFlash st') = (RunFirmwareUpdate m, consoleFlash st') \<and>
        payload m = payload ((bootMetadata (consoleFlash st))\<lparr>state := BOOT_STATE_UPDATE_REQUESTED\<rparr>))) \<and>
    (args = [] \<and> \<not> systemReset st' \<longrightarrow> out = cli_error ''BOOT'' ''metadata_write_failed'' \<and>
      fst (requestFirmwareUpdate drv (consoleFlash st)) \<noteq> 0)"
proof -
  have d: "bootloader_command (bootloaderApi drv) (''bootloader'' # args) st = (out, st')"
    using assms(4,5,7)
    by (auto simp: cli_dispatch_def runtimeCommands_def cli_bootloader_command_def split: if_splits)
  obtain r f' where r: "requestFirmwareUpdate drv (consoleFlash st) = (r, f')" by fastforce
  have q: "bl_request_update (bootloaderApi drv) (consoleFlash st) = (r, f')"
    using r by (simp add: bl_request_update_def api_def bootloaderApi_def bl_consts)
  have "\<exists>m. mainThread drv True f' = (RunFirmwareUpdate m, f') \<and>
      payload m = payload ((bootMetadata (consoleFlash st))\<lparr>state := BOOT_STATE_UPDATE_REQUESTED\<rparr>)" if "r = 0"
    using requestFirmwareUpdate_effect [OF assms(1-3)] r that by metis
  with d r q assms(6) show ?thesis
    by (auto simp: bootloader_command_def bootloaderMain_def Let_def split: if_splits)
qed

lemma demoConsole_request:
  obtains f' where "requestFirmwareUpdate ideal_driver demoDevice = (0, f')"
proof (rule demoDevice_ready)
  fix m
  assume m: "readBootMetadata demoDevice = Some m" "payload m = payload demoMetadata" "journal_ok 1 demoDevice"
  show thesis
    using that ideal.append_ok [of "m\<lparr>state := BOOT_STATE_UPDATE_REQUESTED\<rparr>" demoDevice] m(1)
    by (cases "appendMetadataRecord ideal_driver (m\<lparr>state := BOOT_STATE_UPDATE_REQUESTED\<rparr>) demoDevice")
      (simp add: requestFirmwareUpdate_def)
qed

theorem bootloader_command_enters_updater_witness:
  "\<exists>st' m. cli_dispatch (runtimeCommands \<lparr>name = ''tx'', usage = [], handler = (\<lambda>_ s. ([], s))\<rparr>
        \<lparr>name = ''rx'', usage = [], handler = (\<lambda>_ s. ([], s))\<rparr>
        (cli_bootloader_command (bootloaderApi ideal_driver)) (\<lambda>_ s. ([], s)) (\<lambda>_ s. ([], s)) FIRMWARE_ROLE_TX)
      [''bootloader''] \<lparr>consoleFlash = demoDevice, systemReset = False\<rparr> = (cli_ok ''rebooting_to_bootloader'', st') \<and>
     bootloaderMain ideal_driver True (consoleFlash st') = (RunFirmwareUpdate m, consoleFlash st')"
proof (rule demoConsole_request)
  fix f' assume f': "requestFirmwareUpdate ideal_driver demoDevice = (0, f')"
  let ?st = "\<lparr>consoleFlash = demoDevice, systemReset = False\<rparr>"
  let ?st' = "\<lparr>consoleFlash = f', systemReset = True\<rparr>"
  let ?tx = "\<lparr>name = ''tx'', usage = [], handler = (\<lambda>_ s. ([], s))\<rparr>"
  let ?rx = "\<lparr>name = ''rx'', usage = [], handler = (\<lambda>_ s. ([], s))\<rparr>"
  have run: "cli_dispatch (runtimeCommands ?tx ?rx
        (cli_bootloader_command (bootloaderApi ideal_driver)) (\<lambda>_ s. ([], s)) (\<lambda>_ s. ([], s)) FIRMWARE_ROLE_TX)
      [''bootloader''] ?st = (cli_ok ''rebooting_to_bootloader'', ?st')"
    using f' by (simp add: cli_dispatch_def runtimeCommands_def cli_bootloader_command_def bootloader_command_def
        bl_request_update_def api_def bootloaderApi_def bl_consts)
  obtain K where "journal_ok K demoDevice" "K < 2 ^ 31 - 1" by (rule demoDevice_ready) simp
  then have h: "journal_ok K (consoleFlash ?st)" "K < 2 ^ 31 - 1" "name ?tx = ''tx''" "name ?rx = ''rx''" "\<not> systemReset ?st" by simp_all
  from bootloader_command_enters_updater [OF ideal.nor_flash_axioms h run]
  obtain m where "bootloaderMain ideal_driver True (consoleFlash ?st') = (RunFirmwareUpdate m, consoleFlash ?st')" by auto
  with run show ?thesis by blast
qed

text \<open>C39. The application that the bootloader starts runs the role on record. After a handover, \<open>main\<close> starts the scheduler exactly
  when every task could be created; then the console has been told the role, the radio task is the transmitter's if the record says
  tx and the receiver's otherwise, and for the receiver the packet queue was set up before any task and its printing task
  exists. In every other case the scheduler is not started, so that no task runs and the boot is never confirmed.\<close>

theorem main_runs_recorded_role:
  assumes "nor_flash drv" "mainThread drv u f = (StartApplication h, f')" "journal_ok K f" "K < 2 ^ 31 - 1"
    and "readBootMetadata f = Some m" "main env h = (e, calls)"
  shows "(e = BiosRunning \<longleftrightarrow> BIOS_start \<in> set calls) \<and>
    (let role = (if appRole m = APP_ROLE_TX then FIRMWARE_ROLE_TX else FIRMWARE_ROLE_RX) in
     (e = BiosRunning \<longleftrightarrow> i2cSlaveStart env role = 0 \<and> attrSetdetachstate env = 0 \<and> attrSetstacksize env = 0 \<and>
        attrSetstack env = 0 \<and> pthreadCreate env = 0 \<and> cliStart env = 0 \<and>
        (role = FIRMWARE_ROLE_RX \<longrightarrow> packetPrintStart env = 0)) \<and>
     (e = BiosRunning \<longrightarrow> calls =
        (if appRole m = APP_ROLE_TX then
           [Board_initGeneral, I2cSlaveStart FIRMWARE_ROLE_TX, PthreadCreate fn_firmware_tx_thread 2 1024,
            CliStart FIRMWARE_ROLE_TX, BIOS_start]
         else
           [Board_initGeneral, RfPacketQueueInit, I2cSlaveStart FIRMWARE_ROLE_RX,
            PthreadCreate fn_firmware_rx_thread 2 1024, CliStart FIRMWARE_ROLE_RX, RfPacketPrintStart, BIOS_start])))"
proof -
  obtain m1 where "readBootMetadata f = Some m1"
    "h = \<lparr>handoffMagic = BOOT_HANDOFF_MAGIC, handoffBootAttemptId = bootAttemptId m1 + 1, handoffAppRole = appRole m1\<rparr>"
    using nor_flash.mainThread_start [OF assms(1-4)] by blast
  with assms(5) have h: "handoffMagic h = BOOT_HANDOFF_MAGIC" "handoffAppRole h = appRole m" by simp_all
  then have r: "firmware_role_from_metadata h = (if appRole m = APP_ROLE_TX then FIRMWARE_ROLE_TX else FIRMWARE_ROLE_RX)"
    by (simp add: firmware_role_from_metadata_def bl_get_startup_role_def bl_consts BOOT_HANDOFF_MAGIC_def APP_ROLE_TX_def)
  show ?thesis
  proof (cases "appRole m = APP_ROLE_TX")
    case True
    with r assms(6) show ?thesis
      by (auto simp: main_def Let_def THREADSTACKSIZE_def split: if_splits)
  next
    case False
    with r assms(6) show ?thesis
      by (auto simp: main_def Let_def THREADSTACKSIZE_def split: if_splits)
  qed
qed

definition demoEnv :: main_env where
  "demoEnv = \<lparr>i2cSlaveStart = (\<lambda>_. 0), attrSetdetachstate = 0, attrSetstacksize = 0, attrSetstack = 0,
     pthreadCreate = 0, cliStart = 0, packetPrintStart = 12\<rparr>"

theorem main_runs_recorded_role_witness:
  "\<exists>h f'. mainThread ideal_driver True demoDevice = (StartApplication h, f') \<and>
     main demoEnv h = (BiosRunning, [Board_initGeneral, I2cSlaveStart FIRMWARE_ROLE_TX,
       PthreadCreate fn_firmware_tx_thread 2 1024, CliStart FIRMWARE_ROLE_TX, BIOS_start])"
proof (rule demoDevice_ready)
  fix m
  assume m: "readBootMetadata demoDevice = Some m" "payload m = payload demoMetadata"
    "journal_ok 1 demoDevice" "\<not> mustUpdate demoDevice m"
  obtain h f' where b: "mainThread ideal_driver True demoDevice = (StartApplication h, f')"
    using ideal.mainThread_starts [OF m(1,4)] by blast
  have r: "appRole m = APP_ROLE_TX" using payload_fields(5) [OF m(2)] by (simp add: demoMetadata_def setDefaultMetadata_def)
  obtain e calls where c: "main demoEnv h = (e, calls)" by fastforce
  from main_runs_recorded_role [OF ideal.nor_flash_axioms b m(3) _ m(1) c] r
  have "e = BiosRunning \<and> calls = [Board_initGeneral, I2cSlaveStart FIRMWARE_ROLE_TX,
       PthreadCreate fn_firmware_tx_thread 2 1024, CliStart FIRMWARE_ROLE_TX, BIOS_start]"
    by (simp add: demoEnv_def)
  with b c show ?thesis by blast
qed

end
