(* ===== verification/Printf_Engine.thy ===== *)
theory Printf_Engine
  imports Packet_Queue "HOL-Library.Monad_Syntax"
begin

text \<open>
  The formatting engine of the run-time library (\<open>_printfi.c\<close>, with \<open>atoi.c\<close> and \<open>memccpy.c\<close>) as \<open>snprintf\<close> runs
  it: flags, field width, precision, length modifiers and the integer, character and string conversions,
  on the 510-byte conversion buffer. The vector extension is not compiled; the floating-point conversions,
  \<open>%n\<close> and \<open>%ls\<close>, which the firmware does not use, are \<open>None\<close>, as is every access outside an array and every
  argument of the wrong type. \<open>int\<close>, \<open>long\<close> and pointers have 32 bits, \<open>long long\<close> and \<open>intmax_t\<close> have 64.
\<close>

section \<open>Data\<close>

datatype arg = AWord u32 | AWide u64 | AString "string option"

definition FORMAT_CONVERSION_BUFSIZE :: nat where "FORMAT_CONVERSION_BUFSIZE = 510"

definition PFMINUS :: u32 where "PFMINUS = 0x01"
definition PFPLUS :: u32 where "PFPLUS = 0x02"
definition PFSPACE :: u32 where "PFSPACE = 0x04"
definition PFPOUND :: u32 where "PFPOUND = 0x08"
definition PFZERO :: u32 where "PFZERO = 0x10"
definition MFH :: u32 where "MFH = 0x20"
definition MFL :: u32 where "MFL = 0x40"
definition MFLD :: u32 where "MFLD = 0x80"
definition MFLL :: u32 where "MFLL = 0x100"
definition MFHH :: u32 where "MFHH = 0x200"
definition MFI40 :: u32 where "MFI40 = 0x400"
definition MFJ :: u32 where "MFJ = 0x800"
definition MFZ :: u32 where "MFZ = 0x1000"
definition MFT :: u32 where "MFT = 0x2000"

lemmas flag_defs = PFMINUS_def PFPLUS_def PFSPACE_def PFPOUND_def PFZERO_def MFH_def MFL_def MFLD_def MFLL_def
  MFHH_def MFI40_def MFJ_def MFZ_def MFT_def

record PFIELD =
  flags :: u32
  fwidth :: int
  precision :: int
  conv :: char

definition SETF :: "u32 \<Rightarrow> PFIELD \<Rightarrow> PFIELD" where
  "SETF b pfield = pfield\<lparr>flags := flags pfield OR b\<rparr>"

definition UNSETF :: "u32 \<Rightarrow> PFIELD \<Rightarrow> PFIELD" where
  "UNSETF b pfield = pfield\<lparr>flags := flags pfield AND NOT b\<rparr>"

definition STCHK :: "PFIELD \<Rightarrow> u32 \<Rightarrow> u32" where
  "STCHK pfield b = flags pfield AND b"

definition HEX_CONV :: "char \<Rightarrow> bool" where
  "HEX_CONV c \<longleftrightarrow> c = CHR ''x'' \<or> c = CHR ''X'' \<or> c = CHR ''p''"

definition SIGNED_CONV :: "char \<Rightarrow> bool" where
  "SIGNED_CONV c \<longleftrightarrow> c \<noteq> CHR ''u'' \<and> c \<noteq> CHR ''o'' \<and> \<not> HEX_CONV c"

section \<open>Digits\<close>

text \<open>The conversion buffer and the pointer \<open>a_it\<close> that writes it backwards. The pointer may rest one before the buffer, so it
  is kept as the number of cells up to and including the one it points to.\<close>

type_synonym field = "char list \<times> nat"

definition putBack :: "char \<Rightarrow> field \<Rightarrow> field option" where
  "putBack c x = (case x of (fld, a) \<Rightarrow>
     if 0 < a \<and> a \<le> length fld then Some (fld[a - 1 := c], a - 1) else None)"

definition divBase :: "u64 \<Rightarrow> u64 \<Rightarrow> u64" where
  "divBase cvt base =
     (if base = 8 then drop_bit 3 cvt
      else if base = 16 then drop_bit 4 cvt
      else if cvt \<le> 0xFFFFFFFF then ucast ((ucast cvt :: u32) div ucast base)
      else cvt div base)"

partial_function (option) ltostrLoop :: "u64 \<Rightarrow> u64 \<Rightarrow> string \<Rightarrow> field \<Rightarrow> field option" where
  "ltostrLoop cvt base bnum x =
     (if cvt = 0 then Some x
      else
        (let quot = divBase cvt base;
             rem = cvt - quot * base in
         do {
           c \<leftarrow> fetch bnum (unat rem);
           x \<leftarrow> putBack c x;
           ltostrLoop quot base bnum x
         }))"

text \<open>The result of \<open>strlen\<close> from an index of the buffer on.\<close>

definition strlenAt :: "char list \<Rightarrow> nat \<Rightarrow> nat option" where
  "strlenAt fld i = (if NUL \<in> set (drop i fld) then Some (length (cString fld i)) else None)"

definition ltostr :: "u64 \<Rightarrow> u64 \<Rightarrow> char \<Rightarrow> field \<Rightarrow> (int \<times> field) option" where
  "ltostr cvt base c x =
     (let bnum = (if c = CHR ''X'' then ''0123456789ABCDEF'' else ''0123456789abcdef'') in
      do {
        x \<leftarrow> (if cvt = 0 then putBack (CHR ''0'') x else Some x);
        (fld, a) \<leftarrow> ltostrLoop cvt base bnum x;
        n \<leftarrow> (if 0 < a then strlenAt fld (a - 1) else None);
        Some (int n - 1, fld, a)
      })"

section \<open>Integer conversions\<close>

definition unsignedConv :: "char \<Rightarrow> bool" where
  "unsignedConv c \<longleftrightarrow> c = CHR ''o'' \<or> c = CHR ''u'' \<or> c = CHR ''x'' \<or> c = CHR ''X''"

fun vaWord :: "arg list \<Rightarrow> (u32 \<times> arg list) option" where
  "vaWord (AWord w # ap) = Some (w, ap)"
| "vaWord ap = None"

fun vaWide :: "arg list \<Rightarrow> (u64 \<times> arg list) option" where
  "vaWide (AWide w # ap) = Some (w, ap)"
| "vaWide ap = None"

text \<open>The length modifier decides the type of the argument; a signed 32-bit one is sign-extended.\<close>

definition getarg32 :: "char \<Rightarrow> (u32 \<Rightarrow> u64) \<Rightarrow> arg list \<Rightarrow> (u64 \<times> arg list) option" where
  "getarg32 c narrow ap =
     (if c = CHR ''d'' \<or> c = CHR ''i'' then do { (w, ap) \<leftarrow> vaWord ap; Some (scast w, ap) }
      else if unsignedConv c then do { (w, ap) \<leftarrow> vaWord ap; Some (narrow w, ap) }
      else Some (0, ap))"

definition getarg64 :: "char \<Rightarrow> arg list \<Rightarrow> (u64 \<times> arg list) option" where
  "getarg64 c ap =
     (if c = CHR ''d'' \<or> c = CHR ''i'' \<or> unsignedConv c then vaWide ap else Some (0, ap))"

definition getarg_diouxp :: "PFIELD \<Rightarrow> arg list \<Rightarrow> (u64 \<times> arg list) option" where
  "getarg_diouxp pfield ap =
     (let c = conv pfield;
          modifier = STCHK pfield (MFH OR MFHH OR MFL OR MFLL OR MFI40 OR MFJ OR MFZ OR MFT) in
      if c = CHR ''p'' then do { (w, ap) \<leftarrow> vaWord ap; Some (ucast w, ap) }
      else if modifier = MFH then getarg32 c (\<lambda>w. ucast (ucast w :: u16)) ap
      else if modifier = MFHH then getarg32 c (\<lambda>w. ucast (ucast w :: u8)) ap
      else if modifier = MFL then getarg32 c (\<lambda>w. ucast w) ap
      else if modifier = MFLL then getarg64 c ap
      else if modifier = MFJ then getarg64 c ap
      else if modifier = MFZ then getarg32 c (\<lambda>w. ucast w) ap
      else if modifier = MFT then getarg32 c (\<lambda>w. ucast w) ap
      else getarg32 c (\<lambda>w. ucast w) ap)"

fun zeroFill :: "nat \<Rightarrow> field \<Rightarrow> field option" where
  "zeroFill 0 x = Some x"
| "zeroFill (Suc n) x = do { x \<leftarrow> putBack (CHR ''0'') x; zeroFill n x }"

definition prefixBase :: "PFIELD \<Rightarrow> field \<Rightarrow> field option" where
  "prefixBase pfield x =
     do {
       x \<leftarrow> (if HEX_CONV (conv pfield) \<and> STCHK pfield PFPOUND \<noteq> 0 then
               do {
                 x \<leftarrow> putBack (if conv pfield = CHR ''p'' then CHR ''x'' else conv pfield) x;
                 putBack (CHR ''0'') x
               }
             else Some x);
       (if conv pfield = CHR ''o'' \<and> STCHK pfield PFPOUND \<noteq> 0 then
          do {
            c \<leftarrow> fetch (fst x) (snd x);
            (if c \<noteq> CHR ''0'' then putBack (CHR ''0'') x else Some x)
          }
        else Some x)
     }"

definition pproc_diouxp :: "PFIELD \<Rightarrow> field \<Rightarrow> arg list \<Rightarrow> (PFIELD \<times> bool \<times> field \<times> arg list) option" where
  "pproc_diouxp pfield x ap =
     (let pfield = (if precision pfield < 0 then pfield\<lparr>precision := 1\<rparr> else UNSETF PFZERO pfield);
          c = conv pfield;
          base = (if HEX_CONV c then 16 else if c = CHR ''o'' then 8 else 10) in
      do {
        (cvt, ap) \<leftarrow> getarg_diouxp pfield ap;
        (if precision pfield = 0 \<and> cvt = 0 \<and> STCHK pfield PFPOUND = 0 then Some (pfield, False, x, ap)
         else
           (let minus_flag = (c = CHR ''d'' \<or> c = CHR ''i'') \<and> cvt <s 0;
                cvt = (if minus_flag then - cvt else cvt) in
            do {
              (digits, x) \<leftarrow> ltostr cvt base c x;
              x \<leftarrow> zeroFill (nat (precision pfield - digits)) x;
              x \<leftarrow> prefixBase pfield x;
              Some (pfield, minus_flag, x, ap)
            }))
      })"

section \<open>One conversion\<close>

text \<open>\<open>memccpy\<close> inside the buffer: the index after the copied terminator.\<close>

fun memccpy :: "nat \<Rightarrow> char list \<Rightarrow> nat \<Rightarrow> nat \<Rightarrow> char \<Rightarrow> (char list \<times> nat option) option" where
  "memccpy 0 fld dest src ch = Some (fld, None)"
| "memccpy (Suc cnt) fld dest src ch =
     do {
       c \<leftarrow> fetch fld src;
       fld \<leftarrow> store fld dest c;
       (if c = ch then Some (fld, Some (dest + 1)) else memccpy cnt fld (dest + 1) (src + 1) ch)
     }"

definition memsetAt :: "char list \<Rightarrow> nat \<Rightarrow> char \<Rightarrow> nat \<Rightarrow> char list option" where
  "memsetAt fld at c n = memcpyTo fld at (replicate n c)"

definition floatConv :: "char \<Rightarrow> bool" where
  "floatConv c \<longleftrightarrow> c \<in> set ''aAgGeEfF''"

text \<open>The conversion itself: field, sign, whether the character is the terminator, buffer and arguments.\<close>

definition convert :: "PFIELD \<Rightarrow> field \<Rightarrow> arg list \<Rightarrow> (PFIELD \<times> bool \<times> bool \<times> field \<times> arg list) option" where
  "convert pfield x ap =
     (let c = conv pfield in
      if c \<in> set ''diuXpox'' then
        do { (pfield, minus_flag, x, ap) \<leftarrow> pproc_diouxp pfield x ap; Some (pfield, minus_flag, False, x, ap) }
      else if floatConv c then None
      else if c = CHR ''c'' then
        do {
          (w, ap) \<leftarrow> vaWord ap;
          x \<leftarrow> putBack (char_of (unat (ucast w :: u8))) x;
          Some (UNSETF PFPLUS pfield, False, (ucast w :: u8) = 0, x, ap)
        }
      else Some (pfield, False, False, x, ap))"

definition putSign :: "PFIELD \<Rightarrow> bool \<Rightarrow> field \<Rightarrow> (bool \<times> field) option" where
  "putSign pfield minus_flag x =
     (if SIGNED_CONV (conv pfield) then
        (let plus_flag = STCHK pfield PFPLUS \<noteq> 0 in
         do {
           x \<leftarrow> (if minus_flag then putBack (CHR ''-'') x
                 else if plus_flag then putBack (CHR ''+'') x else Some x);
           x \<leftarrow> (if \<not> minus_flag \<and> \<not> plus_flag \<and> STCHK pfield PFSPACE \<noteq> 0 then putBack (CHR '' '') x else Some x);
           Some (plus_flag, x)
         })
      else Some (False, x))"

text \<open>The converted text is moved to its place in the field, which begins at \<open>start\<close>.\<close>

definition justify :: "PFIELD \<Rightarrow> bool \<Rightarrow> field \<Rightarrow> (char list \<times> nat) option" where
  "justify pfield str_terminator x =
     (case x of (fld, a) \<Rightarrow>
        let used = int (FORMAT_CONVERSION_BUFSIZE - a);
            start = (if STCHK pfield PFMINUS \<noteq> 0 \<or> used > fwidth pfield then 0 else nat (fwidth pfield - used + 1));
            f_end = nat (fwidth pfield) in
        do {
          (fld, r) \<leftarrow> memccpy FORMAT_CONVERSION_BUFSIZE fld start a NUL;
          a_it \<leftarrow> r;
          (fld, a_it) \<leftarrow> (if str_terminator then do { fld \<leftarrow> store fld a_it NUL; Some (fld, a_it + 1) }
                          else Some (fld, a_it));
          fld \<leftarrow> (if a_it \<le> f_end then
                    do { fld \<leftarrow> memsetAt fld (a_it - 1) (CHR '' '') (f_end - a_it + 1); store fld f_end NUL }
                  else Some fld);
          Some (fld, start)
        })"

text \<open>Leading zeros, with the sign and the base prefix moved in front of them.\<close>

definition padField :: "PFIELD \<Rightarrow> bool \<Rightarrow> bool \<Rightarrow> char list \<Rightarrow> nat \<Rightarrow> char list option" where
  "padField pfield minus_flag plus_flag fld start =
     (if STCHK pfield PFZERO \<noteq> 0 then
        (if start \<noteq> 0 then
           do {
             fld \<leftarrow> memsetAt fld 0 (CHR ''0'') start;
             (fld, swap_ptr, w) \<leftarrow>
               (if minus_flag \<or> plus_flag \<or> STCHK pfield PFSPACE \<noteq> 0 then
                  do {
                    c \<leftarrow> fetch fld start;
                    fld \<leftarrow> store fld 0 c;
                    fld \<leftarrow> store fld start (CHR ''0'');
                    Some (fld, 1, start + 1)
                  }
                else Some (fld, 0, start));
             (if HEX_CONV (conv pfield) \<and> STCHK pfield PFPOUND \<noteq> 0 \<or> conv pfield = CHR ''a'' \<or> conv pfield = CHR ''A'' then
                do {
                  c \<leftarrow> fetch fld (w + 1);
                  fld \<leftarrow> store fld (swap_ptr + 1) c;
                  store fld (w + 1) (CHR ''0'')
                }
              else Some fld)
           }
         else Some fld)
      else memsetAt fld 0 (CHR '' '') start)"

definition setfield :: "PFIELD \<Rightarrow> arg list \<Rightarrow> (string \<times> arg list) option" where
  "setfield pfield ap =
     (if conv pfield = CHR ''%'' then Some (''%'', ap)
      else
        do {
          x \<leftarrow> putBack NUL (replicate FORMAT_CONVERSION_BUFSIZE (CHR '' ''), FORMAT_CONVERSION_BUFSIZE);
          (pfield, minus_flag, str_terminator, x, ap) \<leftarrow> convert pfield x ap;
          (plus_flag, x) \<leftarrow> putSign pfield minus_flag x;
          (fld, start) \<leftarrow> justify pfield str_terminator x;
          fld \<leftarrow> padField pfield minus_flag plus_flag fld start;
          n \<leftarrow> strlenAt fld 0;
          Some (take (n + (if str_terminator then 1 else 0)) fld, ap)
        })"

section \<open>The format string\<close>

fun pproc_fflags :: "PFIELD \<Rightarrow> string \<Rightarrow> PFIELD \<times> string" where
  "pproc_fflags pfield [] = (pfield, [])"
| "pproc_fflags pfield (c # it) =
     (if c = CHR ''-'' then pproc_fflags (SETF PFMINUS pfield) it
      else if c = CHR ''+'' then pproc_fflags (SETF PFPLUS pfield) it
      else if c = CHR '' '' then pproc_fflags (SETF PFSPACE pfield) it
      else if c = CHR ''#'' then pproc_fflags (SETF PFPOUND pfield) it
      else if c = CHR ''0'' then pproc_fflags (SETF PFZERO pfield) it
      else (pfield, c # it))"

definition isDigit :: "char \<Rightarrow> bool" where
  "isDigit c \<longleftrightarrow> 48 \<le> (of_char c :: nat) \<and> (of_char c :: nat) \<le> 57"

definition isSpaceChar :: "char \<Rightarrow> bool" where
  "isSpaceChar c \<longleftrightarrow> (of_char c :: nat) = 32 \<or> 9 \<le> (of_char c :: nat) \<and> (of_char c :: nat) \<le> 13"

fun atoiLoop :: "int \<Rightarrow> string \<Rightarrow> int" where
  "atoiLoop result [] = result"
| "atoiLoop result (c # st) = (if isDigit c then atoiLoop (result * 10 + (int (of_char c) - 48)) st else result)"

definition atoi :: "string \<Rightarrow> int" where
  "atoi st =
     (let st = dropWhile isSpaceChar st in
      case st of
        [] \<Rightarrow> 0
      | c # cs \<Rightarrow> if c = CHR ''-'' then - atoiLoop 0 cs
                  else if c = CHR ''+'' then atoiLoop 0 cs else atoiLoop 0 st)"

text \<open>A decimal number is copied into \<open>tmpstr[10]\<close> with its terminator, so ten digits are too many.\<close>

definition readNumber :: "string \<Rightarrow> (int option \<times> string) option" where
  "readNumber it =
     (let ds = takeWhile isDigit it in
      if length ds \<ge> 10 then None
      else Some (if ds \<noteq> [] then Some (atoi ds) else None, dropWhile isDigit it))"

definition startsWith :: "char \<Rightarrow> string \<Rightarrow> bool" where
  "startsWith c it \<longleftrightarrow> it \<noteq> [] \<and> hd it = c"

definition pproc_fwp :: "PFIELD \<Rightarrow> string \<Rightarrow> arg list \<Rightarrow> (PFIELD \<times> string \<times> arg list) option" where
  "pproc_fwp pfield it ap =
     do {
       (pfield, it, ap) \<leftarrow>
         (if startsWith (CHR ''*'') it then
            do {
              (w, ap) \<leftarrow> vaWord ap;
              Some (if sint w < 0 then SETF PFMINUS (pfield\<lparr>fwidth := - sint w\<rparr>) else pfield\<lparr>fwidth := sint w\<rparr>, tl it, ap)
            }
          else
            do {
              (n, it) \<leftarrow> readNumber it;
              Some (case n of Some v \<Rightarrow> pfield\<lparr>fwidth := v\<rparr> | None \<Rightarrow> pfield, it, ap)
            });
       (if startsWith (CHR ''.'') it then
          (let it = tl it in
           if startsWith (CHR ''*'') it then
             do { (w, ap) \<leftarrow> vaWord ap; Some (pfield\<lparr>precision := sint w\<rparr>, tl it, ap) }
           else
             do {
               (n, it) \<leftarrow> readNumber it;
               Some (pfield\<lparr>precision := (case n of Some v \<Rightarrow> v | None \<Rightarrow> 0)\<rparr>, it, ap)
             })
        else Some (pfield, it, ap))
     }"

definition lengthModifier :: "PFIELD \<Rightarrow> string \<Rightarrow> PFIELD \<times> string" where
  "lengthModifier pfield it =
     (if startsWith (CHR ''L'') it then (SETF MFLD pfield, tl it)
      else if startsWith (CHR ''h'') it then
        (if startsWith (CHR ''h'') (tl it) then (SETF MFHH pfield, tl (tl it)) else (SETF MFH pfield, tl it))
      else if startsWith (CHR ''l'') it then
        (if startsWith (CHR ''l'') (tl it) then (SETF MFLL pfield, tl (tl it)) else (SETF MFL pfield, tl it))
      else if startsWith (CHR ''j'') it then (SETF MFJ pfield, tl it)
      else if startsWith (CHR ''z'') it then (SETF MFZ pfield, tl it)
      else if startsWith (CHR ''t'') it then (SETF MFT pfield, tl it)
      else (pfield, it))"

section \<open>Output\<close>

definition outc :: "char \<Rightarrow> holder \<Rightarrow> holder option" where
  "outc c h =
     (if written h < room h then
        do {
          t \<leftarrow> store (target h) (out_end h) c;
          Some (h\<lparr>target := t, out_end := out_end h + 1, written := written h + 1\<rparr>)
        }
      else Some (h\<lparr>written := written h + 1\<rparr>))"

fun outcs :: "string \<Rightarrow> holder \<Rightarrow> holder option" where
  "outcs [] h = Some h"
| "outcs (c # cs) h = do { h \<leftarrow> outc c h; outcs cs h }"

fun vaString :: "arg list \<Rightarrow> (string option \<times> arg list) option" where
  "vaString (AString s # ap) = Some (s, ap)"
| "vaString ap = None"

definition pproc_str :: "PFIELD \<Rightarrow> arg list \<Rightarrow> holder \<Rightarrow> int \<Rightarrow> (arg list \<times> holder \<times> int) option" where
  "pproc_str pfield ap h count =
     do {
       (s, ap) \<leftarrow> vaString ap;
       (case s of
          None \<Rightarrow> do { h \<leftarrow> outc NUL h; Some (ap, h, count) }
        | Some strbuf \<Rightarrow>
           (let n = int (length strbuf);
                buflen = (if precision pfield \<ge> 0 \<and> precision pfield < n then precision pfield else n);
                len = (if fwidth pfield > buflen then fwidth pfield else buflen);
                blanks = replicate (nat (len - buflen)) (CHR '' '') in
            do {
              h \<leftarrow> (if buflen < len \<and> STCHK pfield PFMINUS = 0 then outcs blanks h else Some h);
              h \<leftarrow> outcs (take (nat buflen) strbuf) h;
              h \<leftarrow> (if buflen < len \<and> STCHK pfield PFMINUS \<noteq> 0 then outcs blanks h else Some h);
              Some (ap, h, count + len)
            }))
     }"

definition field0 :: PFIELD where
  "field0 = \<lparr>flags = 0, fwidth = 0, precision = -1, conv = NUL\<rparr>"

text \<open>What follows a percent sign up to the conversion character; a format that ends early has the
  terminator as its conversion.\<close>

definition parseField :: "string \<Rightarrow> arg list \<Rightarrow> (PFIELD \<times> string \<times> arg list) option" where
  "parseField it ap =
     (case pproc_fflags field0 it of (pfield, it) \<Rightarrow>
        do {
          (pfield, it, ap) \<leftarrow> pproc_fwp pfield it ap;
          (case lengthModifier pfield it of (pfield, it) \<Rightarrow>
             Some (pfield\<lparr>conv := (if it = [] then NUL else hd it)\<rparr>, tl it, ap))
        })"

definition emitField :: "PFIELD \<Rightarrow> arg list \<Rightarrow> holder \<Rightarrow> int \<Rightarrow> (arg list \<times> holder \<times> int) option" where
  "emitField pfield ap h count =
     (if conv pfield = CHR ''n'' then None
      else if conv pfield = CHR ''s'' then
        (if flags pfield AND MFL \<noteq> 0 then None else pproc_str pfield ap h count)
      else
        do {
          (text, ap) \<leftarrow> setfield pfield ap;
          h \<leftarrow> outs text h;
          Some (ap, h, count + int (length text))
        })"

partial_function (option) printfi :: "string \<Rightarrow> arg list \<Rightarrow> holder \<Rightarrow> int \<Rightarrow> (holder \<times> int) option" where
  "printfi format ap h count =
     (if format = [] then Some (h, count)
      else
        (let lit = takeWhile (\<lambda>c. c \<noteq> CHR ''%'') format;
             it = dropWhile (\<lambda>c. c \<noteq> CHR ''%'') format in
         do {
           h \<leftarrow> outcs lit h;
           (if it = [] then Some (h, count + int (length lit))
            else
              do {
                (pfield, it, ap) \<leftarrow> parseField (tl it) ap;
                (ap, h, count) \<leftarrow> emitField pfield ap h (count + int (length lit));
                (if count = -1 then Some (h, count) else printfi it ap h count)
              })
         }))"

definition snprintfEngine :: "char list \<Rightarrow> nat \<Rightarrow> nat \<Rightarrow> string \<Rightarrow> arg list \<Rightarrow> (char list \<times> int) option" where
  "snprintfEngine buf p n format ap =
     do {
       (h, rval) \<leftarrow> printfi format ap \<lparr>target = buf, out_end = p, room = (if n = 0 then 0 else n - 1), written = 0\<rparr> 0;
       (if n \<noteq> 0 then do { b \<leftarrow> store (target h) (out_end h) NUL; Some (b, rval) }
        else Some (target h, rval))
     }"

section \<open>Output character by character\<close>

definition holderOk :: "nat \<Rightarrow> holder \<Rightarrow> bool" where
  "holderOk p h \<longleftrightarrow> out_end h = p + min (room h) (written h) \<and> p + room h \<le> length (target h)"

lemma outs_ok: "holderOk p h \<Longrightarrow> \<exists>h'. outs s h = Some h' \<and> holderOk p h' \<and> written h' = written h + length s"
  by (auto simp: holderOk_def outs_def Let_def min_def)

lemma outc_outs:
  assumes "holderOk p h"
  shows "outc c h = outs [c] h"
proof (cases "written h < room h")
  case True
  with assms have "out_end h < length (target h)" by (auto simp: holderOk_def)
  with True show ?thesis
    by (auto simp: outc_def outs_def Let_def upd_conv_take_nth_drop)
qed (simp add: outc_def outs_def)

lemma outs_Cons:
  assumes "holderOk p h" "outs [c] h = Some h1"
  shows "outs (c # s) h = outs s h1"
proof (cases "written h < room h")
  case True
  with assms have l: "out_end h < length (target h)" by (auto simp: holderOk_def)
  have h1: "h1 = h\<lparr>target := take (out_end h) (target h) @ c # drop (Suc (out_end h)) (target h), out_end := Suc (out_end h),
      written := Suc (written h)\<rparr>"
    using assms(2) True by (auto simp: outs_def Let_def split: if_splits)
  have w: "Suc (written h) \<le> room h" using True by simp
  show ?thesis
  proof (cases "Suc (written h) < room h")
    case lt: True
    with l show ?thesis
      by (auto simp: h1 outs_def Let_def take_Cons' add_ac Suc_diff_Suc True min_def)
  next
    case False
    then have "room h - written h = 1" using True by simp
    with l False True show ?thesis by (simp add: h1 outs_def Let_def)
  qed
next
  case False
  with assms show ?thesis by (auto simp: outs_def)
qed

lemma outcs_outs: "holderOk p h \<Longrightarrow> outcs s h = outs s h"
proof (induction s arbitrary: h)
  case Nil
  then show ?case by (auto simp: outs_def holderOk_def Let_def)
next
  case (Cons c s)
  from outs_ok [OF Cons.prems, of "[c]"] obtain h1 where h1: "outs [c] h = Some h1" "holderOk p h1" by blast
  from Cons.IH [OF h1(2)] h1(1) outs_Cons [OF Cons.prems h1(1)] outc_outs [OF Cons.prems] show ?case by simp
qed

lemma outcs_append: "outcs (a @ b) h = do { h \<leftarrow> outcs a h; outcs b h }"
proof (induction a arbitrary: h)
  case (Cons c a)
  then show ?case by (cases "outc c h") simp_all
qed simp

section \<open>Digits\<close>

fun digitsBase :: "nat \<Rightarrow> nat \<Rightarrow> nat list" where
  "digitsBase b n = (if n = 0 \<or> b < 2 then [] else digitsBase b (n div b) @ [n mod b])"

declare digitsBase.simps [simp del]

definition fieldOf :: "string \<Rightarrow> field" where
  "fieldOf ds = (replicate (509 - length ds) (CHR '' '') @ ds @ [NUL], 509 - length ds)"

lemma putBack_fieldOf: "length ds < 509 \<Longrightarrow> putBack c (fieldOf ds) = Some (fieldOf (c # ds))"
proof -
  assume l: "length ds < 509"
  then obtain n where n: "509 - length ds = Suc n" by (metis Suc_diff_Suc)
  then have "509 - length (c # ds) = n" by simp
  moreover have "replicate (Suc n) (CHR '' '') = replicate n (CHR '' '') @ [CHR '' '']"
    by (simp add: replicate_append_same)
  ultimately show ?thesis using n by (simp add: putBack_def fieldOf_def del: replicate_Suc)
qed

lemma first_field: "putBack NUL (replicate FORMAT_CONVERSION_BUFSIZE (CHR '' ''), FORMAT_CONVERSION_BUFSIZE) = Some (fieldOf [])"
proof -
  have "replicate 510 (CHR '' '') = replicate 509 (CHR '' '') @ [CHR '' '']"
    by (simp add: replicate_append_same [symmetric] numeral_eq_Suc)
  then show ?thesis by (simp add: putBack_def fieldOf_def FORMAT_CONVERSION_BUFSIZE_def)
qed

lemma divBase_div:
  assumes "base \<in> {8, 10, 16}"
  shows "divBase cvt base = cvt div base"
proof -
  have s: "drop_bit 3 cvt = cvt div 8" "drop_bit 4 cvt = cvt div 16" by (simp_all add: drop_bit_eq_div)
  have n: "ucast ((ucast cvt :: u32) div 10) = cvt div 10" if "cvt \<le> 0xFFFFFFFF"
  proof (rule word_unat_eq_iff [THEN iffD2])
    from that have "unat cvt < 2 ^ 32" by (simp add: word_le_nat_alt)
    then have "unat (ucast cvt :: u32) = unat cvt" by (simp add: unsigned_ucast_eq take_bit_nat_eq_self)
    moreover have "take_bit 64 (unat cvt div 10) = unat cvt div 10"
      using unat_u64_less [of cvt] by (intro take_bit_nat_eq_self) auto
    ultimately show "unat (ucast ((ucast cvt :: u32) div 10) :: u64) = unat (cvt div 10)"
      by (simp add: unat_div unsigned_ucast_eq)
  qed
  show ?thesis using assms s n by (auto simp: divBase_def)
qed


lemma length_digitsBase: "n < b ^ k \<Longrightarrow> length (digitsBase b n) \<le> k"
proof (induction k arbitrary: n)
  case 0
  then show ?case by (simp add: digitsBase.simps)
next
  case (Suc k)
  show ?case
  proof (cases "n = 0 \<or> b < 2")
    case False
    then have "n div b < b ^ k" using Suc.prems by (simp add: less_mult_imp_div_less mult.commute)
    from Suc.IH [OF this] False show ?thesis by (subst digitsBase.simps) simp
  qed (simp add: digitsBase.simps)
qed

lemma digitsBase_less: "2 \<le> b \<Longrightarrow> d \<in> set (digitsBase b n) \<Longrightarrow> d < b"
proof (induction b n rule: digitsBase.induct)
  case (1 b n)
  show ?case
  proof (cases "n = 0")
    case False
    with 1 show ?thesis by (subst (asm) digitsBase.simps) auto
  qed (use 1 in \<open>simp add: digitsBase.simps\<close>)
qed

lemma ltostrLoop_digits:
  assumes "base \<in> {8, 10, 16}" "length bnum = 16" "length (digitsBase (unat base) (unat cvt)) + length ds \<le> 509"
  shows "ltostrLoop cvt base bnum (fieldOf ds) =
    Some (fieldOf (map ((!) bnum) (digitsBase (unat base) (unat cvt)) @ ds))"
  using assms(3)
proof (induction "unat cvt" arbitrary: cvt ds rule: less_induct)
  case less
  let ?b = "unat base"
  have b: "2 \<le> ?b" "?b \<le> 16" using assms(1) by auto
  show ?case
  proof (cases "cvt = 0")
    case True
    then show ?thesis by (simp add: ltostrLoop.simps digitsBase.simps)
  next
    case False
    then have n: "unat cvt \<noteq> 0" by (simp add: unat_eq_zero)
    let ?q = "cvt div base"
    have q: "unat ?q = unat cvt div ?b" by (simp add: unat_div)
    have r: "unat (cvt - ?q * base) = unat cvt mod ?b"
      by (metis minus_div_mult_eq_mod unat_mod)
    have dig: "digitsBase ?b (unat cvt) = digitsBase ?b (unat cvt div ?b) @ [unat cvt mod ?b]"
      using n b by (subst digitsBase.simps) simp
    have m: "unat cvt mod ?b < 16" using b mod_less_divisor [of ?b "unat cvt"] by linarith
    have len: "length (digitsBase ?b (unat ?q)) + length ((bnum ! (unat cvt mod ?b)) # ds) \<le> 509" "length ds < 509"
      using less.prems by (simp_all add: q dig)
    have lt: "unat ?q < unat cvt" using n b by (simp add: q)
    from less.hyps [OF lt len(1)] m assms(2) False len(2) show ?thesis
      by (subst ltostrLoop.simps) (simp add: divBase_div [OF assms(1)] Let_def r putBack_fieldOf dig q)
  qed
qed

definition numberText :: "u64 \<Rightarrow> string \<Rightarrow> u64 \<Rightarrow> string" where
  "numberText base bnum cvt = (if cvt = 0 then ''0'' else map ((!) bnum) (digitsBase (unat base) (unat cvt)))"

definition digitsOf :: "char \<Rightarrow> string" where
  "digitsOf c = (if c = CHR ''X'' then ''0123456789ABCDEF'' else ''0123456789abcdef'')"

lemma length_numberText:
  assumes "base \<in> {8, 10, 16}"
  shows "length (numberText base bnum cvt) \<le> 22" "0 < length (numberText base bnum cvt)"
proof -
  have "unat cvt < (unat base) ^ 22"
  proof -
    have "(8 :: nat) ^ 22 \<le> (unat base) ^ 22" using assms by (intro power_mono) auto
    then show ?thesis using unat_u64_less [of cvt] by simp
  qed
  from length_digitsBase [OF this] show "length (numberText base bnum cvt) \<le> 22" by (simp add: numberText_def)
  show "0 < length (numberText base bnum cvt)"
    using assms by (auto simp: numberText_def unat_eq_zero digitsBase.simps [of _ "unat cvt"])
qed

lemma digitsOf_not_NUL: "i < 16 \<Longrightarrow> digitsOf c ! i \<noteq> NUL"
proof -
  have "NUL \<notin> set (digitsOf c)" "length (digitsOf c) = 16" by (auto simp: digitsOf_def NUL_def)
  then show "i < 16 \<Longrightarrow> digitsOf c ! i \<noteq> NUL" by (metis nth_mem)
qed

lemma numberText_not_NUL:
  assumes "base \<in> {8, 10, 16}"
  shows "NUL \<notin> set (numberText base (digitsOf c) cvt)"
proof -
  have "digitsOf c ! d \<noteq> NUL" if "d \<in> set (digitsBase (unat base) (unat cvt))" for d
    using digitsBase_less [OF _ that] assms by (intro digitsOf_not_NUL) auto
  then show ?thesis by (auto simp: numberText_def) (auto simp: NUL_def)
qed

lemma takeWhile_terminated: "NUL \<notin> set ds \<Longrightarrow> takeWhile (\<lambda>c. c \<noteq> NUL) (ds @ NUL # rest) = ds"
  by (induction ds) auto

lemma strlenAt_front: "NUL \<notin> set t \<Longrightarrow> strlenAt (t @ NUL # rest) 0 = Some (length t)"
  by (simp add: strlenAt_def cString_def takeWhile_terminated)

lemma ltostr_text:
  assumes "base \<in> {8, 10, 16}"
  shows "ltostr cvt base c (fieldOf []) =
    Some (int (length (numberText base (digitsOf c) cvt)), fieldOf (numberText base (digitsOf c) cvt))"
proof -
  let ?t = "numberText base (digitsOf c) cvt"
  note len = length_numberText [OF assms, of "digitsOf c" cvt]
  have loop: "ltostrLoop cvt base (digitsOf c) (fieldOf (if cvt = 0 then ''0'' else [])) = Some (fieldOf ?t)"
  proof (cases "cvt = 0")
    case True
    then show ?thesis by (simp add: ltostrLoop.simps numberText_def)
  next
    case False
    then have "length (digitsBase (unat base) (unat cvt)) \<le> 22" using len(1) by (simp add: numberText_def)
    with False ltostrLoop_digits [OF assms, of "digitsOf c" cvt "[]"] show ?thesis by (simp add: numberText_def digitsOf_def)
  qed
  have "0 < 509 - length ?t" using len(1) by linarith
  then obtain n where n: "509 - length ?t = Suc n" by (metis gr0_conv_Suc)
  have "drop n (fst (fieldOf ?t)) = CHR '' '' # ?t @ [NUL]"
    unfolding fieldOf_def fst_conv n by (simp add: replicate_append_same [symmetric])
  then have "strlenAt (fst (fieldOf ?t)) n = Some (Suc (length ?t))"
    using takeWhile_terminated [OF numberText_not_NUL [OF assms, of c cvt], of "[]"]
    by (simp add: strlenAt_def cString_def) (simp add: NUL_def)
  moreover have "fieldOf ?t = (fst (fieldOf ?t), Suc n)" using n by (simp add: fieldOf_def)
  ultimately obtain F where F: "fieldOf ?t = (F, Suc n)" "strlenAt F n = Some (Suc (length ?t))" by metis
  with loop show ?thesis
    by (cases "cvt = 0") (simp_all add: ltostr_def Let_def digitsOf_def [symmetric] putBack_fieldOf)
qed

section \<open>The field\<close>

lemma memccpy_copy:
  assumes "drop s fld = ds @ NUL # rest" "s \<le> length fld" "d \<le> s" "length ds < cnt" "NUL \<notin> set ds"
  shows "memccpy cnt fld d s NUL =
    Some (take d fld @ ds @ NUL # drop (Suc (d + length ds)) fld, Some (Suc (d + length ds)))"
  using assms
proof (induction ds arbitrary: cnt fld d s)
  case Nil
  then obtain n where n: "cnt = Suc n" by (cases cnt) auto
  have s: "s < length fld" "fld ! s = NUL" using Nil.prems(1,2) by (auto simp: nth_via_drop intro: ccontr)
  with Nil.prems n show ?case by (simp add: upd_conv_take_nth_drop)
next
  case (Cons c ds)
  then obtain n where n: "cnt = Suc n" "length ds < n" by (cases cnt) auto
  have s: "s < length fld" "fld ! s = c" using Cons.prems(1,2) by (auto simp: nth_via_drop intro: ccontr)
  have c: "c \<noteq> NUL" "NUL \<notin> set ds" using Cons.prems(5) by auto
  let ?fld = "fld[d := c]"
  have "drop (Suc s) ?fld = ds @ NUL # rest"
  proof -
    have "drop (Suc s) ?fld = drop (Suc s) fld" using Cons.prems(3) by (intro drop_update_cancel) simp
    also have "\<dots> = tl (drop s fld)" by (simp add: drop_Suc tl_drop)
    finally show ?thesis using Cons.prems(1) by simp
  qed
  from Cons.IH [OF this _ _ n(2) c(2), of "Suc d"] s Cons.prems(3) c(1) n show ?case
    by (simp add: take_update_at)
qed

lemma justify_text:
  assumes "length ds < 509" "NUL \<notin> set ds" "STCHK pf PFMINUS = 0" "fwidth pf = int w" "w < 509"
  shows "justify pf False (fieldOf ds) =
    Some (replicate (w - length ds) (CHR '' '') @ ds @ NUL # drop (Suc (w - length ds + length ds)) (fst (fieldOf ds)), w - length ds)"
proof -
  let ?k = "length ds"
  let ?F = "fst (fieldOf ds)"
  have F: "fieldOf ds = (?F, 509 - ?k)" by (simp add: fieldOf_def)
  have "FORMAT_CONVERSION_BUFSIZE - (509 - ?k) = Suc ?k" using assms(1) by (simp add: FORMAT_CONVERSION_BUFSIZE_def)
  then have start: "(if STCHK pf PFMINUS \<noteq> 0 \<or> int (FORMAT_CONVERSION_BUFSIZE - (509 - ?k)) > fwidth pf then 0
      else nat (fwidth pf - int (FORMAT_CONVERSION_BUFSIZE - (509 - ?k)) + 1)) = w - ?k"
    using assms(3,4) by auto
  have d: "drop (509 - ?k) ?F = ds @ NUL # []" by (simp add: fieldOf_def)
  have le: "509 - ?k \<le> length ?F" by (simp add: fieldOf_def)
  have le2: "w - ?k \<le> 509 - ?k" using assms(5) by simp
  have cnt: "?k < FORMAT_CONVERSION_BUFSIZE" using assms(1) by (simp add: FORMAT_CONVERSION_BUFSIZE_def)
  from memccpy_copy [OF d le le2 cnt assms(2)]
  have m: "memccpy FORMAT_CONVERSION_BUFSIZE ?F (w - ?k) (509 - ?k) NUL =
    Some (replicate (w - ?k) (CHR '' '') @ ds @ NUL # drop (Suc (w - ?k + ?k)) ?F, Some (Suc (w - ?k + ?k)))"
    using le2 by (simp add: fieldOf_def min_def)
  have "\<not> Suc (w - ?k + ?k) \<le> nat (fwidth pf)" using assms(4) by simp
  with m start show ?thesis by (subst F) (simp add: justify_def Let_def)
qed

lemma memsetAt_front: "memsetAt (replicate n x @ r) 0 c n = Some (replicate n c @ r)"
  by (simp add: memsetAt_def)

lemma setfield_text:
  assumes "conv pf \<noteq> CHR ''%''" "convert pf (fieldOf []) ap = Some (pf', mf, False, fieldOf ds, ap')"
    and "putSign pf' mf (fieldOf ds) = Some (pl, fieldOf ds')" "NUL \<notin> set ds'" "length ds' < 509"
    and "STCHK pf' PFMINUS = 0" "STCHK pf' PFSPACE = 0" "STCHK pf' PFPOUND = 0" "fwidth pf' = int w" "w < 509"
    and "STCHK pf' PFZERO \<noteq> 0 \<Longrightarrow> \<not> mf \<and> \<not> pl" "conv pf' \<noteq> CHR ''a''" "conv pf' \<noteq> CHR ''A''"
  shows "setfield pf ap =
    Some (replicate (w - length ds') (if STCHK pf' PFZERO \<noteq> 0 then CHR ''0'' else CHR '' '') @ ds', ap')"
proof -
  let ?c = "if STCHK pf' PFZERO \<noteq> 0 then CHR ''0'' else CHR '' ''"
  let ?r = "ds' @ NUL # drop (Suc (w - length ds' + length ds')) (fst (fieldOf ds'))"
  let ?t = "replicate (w - length ds') ?c @ ds'"
  have pad: "padField pf' mf pl (replicate (w - length ds') (CHR '' '') @ ?r) (w - length ds') =
      Some (replicate (w - length ds') ?c @ ?r)"
    using assms(7,8,11-13) by (auto simp: padField_def memsetAt_front)
  have "NUL \<notin> set ?t" using assms(4) by (auto simp: NUL_def)
  then have "strlenAt (?t @ NUL # drop (Suc (w - length ds' + length ds')) (fst (fieldOf ds'))) 0 = Some (length ?t)"
    by (rule strlenAt_front)
  with pad justify_text [OF assms(5,4,6,9,10)] show ?thesis
    using assms(1-3) by (simp add: setfield_def first_field)
qed

section \<open>The conversions the firmware uses\<close>

lemma lower_digit:
  assumes "c \<noteq> CHR ''X''" "d < 16"
  shows "digitsOf c ! d = digitChar d"
proof -
  have "list_all (\<lambda>d. ''0123456789abcdef'' ! d = digitChar d) [0..<16]" by code_simp
  then have "\<forall>d \<in> set [0..<16]. ''0123456789abcdef'' ! d = digitChar d" by (simp only: list_all_iff)
  moreover have "d \<in> set [0..<16]" using assms by simp
  ultimately have "''0123456789abcdef'' ! d = digitChar d" by (rule bspec)
  moreover have "digitsOf c = ''0123456789abcdef''" using assms(1) by (simp add: digitsOf_def)
  ultimately show ?thesis by (simp only:)
qed

lemma upper_digit:
  assumes "d < 16"
  shows "digitsOf (CHR ''X'') ! d = hexUpper d"
proof -
  have "list_all (\<lambda>d. ''0123456789ABCDEF'' ! d = hexUpper d) [0..<16]" by code_simp
  then have "\<forall>d \<in> set [0..<16]. ''0123456789ABCDEF'' ! d = hexUpper d" by (simp only: list_all_iff)
  moreover have "d \<in> set [0..<16]" using assms by simp
  ultimately have "''0123456789ABCDEF'' ! d = hexUpper d" by (rule bspec)
  moreover have "digitsOf (CHR ''X'') = ''0123456789ABCDEF''" by (simp add: digitsOf_def)
  ultimately show ?thesis by (simp only:)
qed

lemma natDigits_digits: "c \<noteq> CHR ''X'' \<Longrightarrow> 0 < n \<Longrightarrow> map ((!) (digitsOf c)) (digitsBase 10 n) = natDigits n"
proof (induction n rule: less_induct)
  case (less n)
  have m: "n mod 10 < 16" by (rule order.strict_trans [of _ 10]) simp_all
  show ?case
  proof (cases "n < 10")
    case True
    with less.prems m show ?thesis
      by (simp add: digitsBase.simps [of 10 n] digitsBase.simps [of 10 0] natDigits.simps [of n] lower_digit)
  next
    case False
    with less m show ?thesis
      by (simp add: digitsBase.simps [of 10 n] natDigits.simps [of n] lower_digit)
  qed
qed

lemma decimal_text:
  assumes "c \<noteq> CHR ''X''"
  shows "numberText 10 (digitsOf c) cvt = natDigits (unat cvt)"
proof (cases "cvt = 0")
  case True
  have "digitChar 0 = CHR ''0''" by code_simp
  with True show ?thesis by (simp add: numberText_def natDigits.simps [of 0])
next
  case False
  with natDigits_digits [OF assms, of "unat cvt"] show ?thesis by (simp add: numberText_def unat_gt_0)
qed

fun hexNat :: "nat \<Rightarrow> nat \<Rightarrow> nat list" where
  "hexNat 0 n = []"
| "hexNat (Suc k) n = hexNat k (n div 16) @ [n mod 16]"

lemma hexNat_0: "hexNat k 0 = replicate k 0"
  by (induction k) (simp_all add: replicate_append_same)

lemma hexNat_pad: "n < 16 ^ k \<Longrightarrow> replicate (k - length (digitsBase 16 n)) 0 @ digitsBase 16 n = hexNat k n"
proof (induction k arbitrary: n)
  case (Suc k)
  show ?case
  proof (cases "n = 0")
    case True
    then show ?thesis using hexNat_0 [of "Suc k"] by (simp add: digitsBase.simps)
  next
    case False
    have "n div 16 < 16 ^ k" using Suc.prems by (simp add: less_mult_imp_div_less mult.commute)
    from Suc.IH [OF this] False show ?thesis by (simp add: digitsBase.simps [of 16 n])
  qed
qed (simp add: digitsBase.simps)

lemma hex_text:
  assumes "unat cvt < 16 ^ k" "0 < k"
  shows "replicate (k - length (numberText 16 (digitsOf c) cvt)) (CHR ''0'') @ numberText 16 (digitsOf c) cvt =
    map ((!) (digitsOf c)) (hexNat k (unat cvt))"
proof -
  have z: "digitsOf c ! 0 = CHR ''0''" by (simp add: digitsOf_def)
  show ?thesis
  proof (cases "cvt = 0")
    case True
    from assms(2) obtain j where "k = Suc j" by (cases k) auto
    with True z show ?thesis by (simp add: numberText_def hexNat_0 replicate_append_same del: hexNat.simps)
  next
    case False
    have "map ((!) (digitsOf c)) (replicate (k - length (digitsBase 16 (unat cvt))) 0 @ digitsBase 16 (unat cvt)) =
        map ((!) (digitsOf c)) (hexNat k (unat cvt))" by (simp only: hexNat_pad [OF assms(1)])
    with False z show ?thesis by (simp add: numberText_def)
  qed
qed

lemma hexNat_hexDigits: "c \<noteq> CHR ''X'' \<Longrightarrow> map ((!) (digitsOf c)) (hexNat k n) = hexDigits k n"
  by (induction k arbitrary: n) (simp_all add: lower_digit)

lemma hexNat_hexByte: "map ((!) (digitsOf (CHR ''X''))) (hexNat 2 (unat (b :: u8))) = hexByte b"
proof -
  have "unat b div 16 < 16" using unat_u8_less [of b] by (simp add: less_mult_imp_div_less)
  then show ?thesis by (simp add: hexByte_def numeral_2_eq_2 upper_digit)
qed

datatype fitem = Lit string | Str string | U u32 | LU u32 | D u32 | X2 u8 | LX8 u32

primrec fmtOf :: "fitem \<Rightarrow> string" where
  "fmtOf (Lit s) = s"
| "fmtOf (Str s) = ''%s''"
| "fmtOf (U w) = ''%u''"
| "fmtOf (LU w) = ''%lu''"
| "fmtOf (D w) = ''%d''"
| "fmtOf (X2 b) = ''%02X''"
| "fmtOf (LX8 w) = ''%08lx''"

primrec argOf :: "fitem \<Rightarrow> arg list" where
  "argOf (Lit s) = []"
| "argOf (Str s) = [AString (Some s)]"
| "argOf (U w) = [AWord w]"
| "argOf (LU w) = [AWord w]"
| "argOf (D w) = [AWord w]"
| "argOf (X2 b) = [AWord (ucast b)]"
| "argOf (LX8 w) = [AWord w]"

primrec pieceOf :: "fitem \<Rightarrow> string" where
  "pieceOf (Lit s) = s"
| "pieceOf (Str s) = s"
| "pieceOf (U w) = natDigits (unat w)"
| "pieceOf (LU w) = natDigits (unat w)"
| "pieceOf (D w) = intDigits (sint w)"
| "pieceOf (X2 b) = hexByte b"
| "pieceOf (LX8 w) = hexDigits 8 (unat w)"

definition itemOk :: "fitem \<Rightarrow> bool" where
  "itemOk i \<longleftrightarrow> (case i of Lit s \<Rightarrow> CHR ''%'' \<notin> set s | _ \<Rightarrow> True)"

lemma field_numbers:
  "parseField (''u'' @ it) ap = Some (\<lparr>flags = 0, fwidth = 0, precision = -1, conv = CHR ''u''\<rparr>, it, ap)"
  "parseField (''d'' @ it) ap = Some (\<lparr>flags = 0, fwidth = 0, precision = -1, conv = CHR ''d''\<rparr>, it, ap)"
  "parseField (''s'' @ it) ap = Some (\<lparr>flags = 0, fwidth = 0, precision = -1, conv = CHR ''s''\<rparr>, it, ap)"
  "parseField (''lu'' @ it) ap = Some (\<lparr>flags = MFL, fwidth = 0, precision = -1, conv = CHR ''u''\<rparr>, it, ap)"
  "parseField (''02X'' @ it) ap = Some (\<lparr>flags = PFZERO, fwidth = 2, precision = -1, conv = CHR ''X''\<rparr>, it, ap)"
  "parseField (''08lx'' @ it) ap = Some (\<lparr>flags = PFZERO OR MFL, fwidth = 8, precision = -1, conv = CHR ''x''\<rparr>, it, ap)"
  by (simp_all add: parseField_def field0_def pproc_fwp_def startsWith_def readNumber_def Let_def isDigit_def
      lengthModifier_def SETF_def atoi_def isSpaceChar_def)

lemma convert_unsigned:
  assumes "conv pf \<in> {CHR ''u'', CHR ''x'', CHR ''X''}" "precision pf = -1" "flags pf \<in> {0, MFL, PFZERO, PFZERO OR MFL}"
  shows "convert pf (fieldOf []) (AWord w # ap) =
    Some (pf\<lparr>precision := 1\<rparr>, False, False,
      fieldOf (numberText (if conv pf = CHR ''u'' then 10 else 16) (digitsOf (conv pf)) (ucast w)), ap)"
proof -
  define b where "b = (if conv pf = CHR ''u'' then 10 else 16 :: u64)"
  have b: "b \<in> {8, 10, 16}" by (simp add: b_def)
  note len = length_numberText(2) [OF b, of "digitsOf (conv pf)" "ucast w"]
  have g: "getarg_diouxp (pf\<lparr>precision := 1\<rparr>) (AWord w # ap) = Some (ucast w, ap)"
    using assms(1,3) by (auto simp: getarg_diouxp_def getarg32_def unsignedConv_def STCHK_def flag_defs)
  have p: "STCHK pf PFPOUND = 0" using assms(3) by (auto simp: STCHK_def flag_defs)
  have z: "nat (1 - int (length (numberText b (digitsOf (conv pf)) (ucast w)))) = 0" using len by linarith
  have hex: "HEX_CONV (conv pf) \<longleftrightarrow> conv pf \<noteq> CHR ''u''" "conv pf \<noteq> CHR ''o''"
    using assms(1) by (auto simp: HEX_CONV_def)
  have pre: "prefixBase (pf\<lparr>precision := 1\<rparr>) x = Some x" for x
    using p by (simp add: prefixBase_def STCHK_def)
  have c: "conv pf \<in> set ''diuXpox''" "conv pf \<noteq> CHR ''d''" "conv pf \<noteq> CHR ''i''" using assms(1) by auto
  have "pproc_diouxp pf (fieldOf []) (AWord w # ap) =
      Some (pf\<lparr>precision := 1\<rparr>, False, fieldOf (numberText b (digitsOf (conv pf)) (ucast w)), ap)"
    using assms(2) c(2,3) g z ltostr_text [OF b, of "ucast w" "conv pf"] pre hex
    by (cases "conv pf = CHR ''u''") (simp_all add: pproc_diouxp_def Let_def b_def)
  with c(1) show ?thesis by (simp add: convert_def Let_def b_def)
qed

lemma setfield_unsigned:
  assumes "conv pf \<in> {CHR ''u'', CHR ''x'', CHR ''X''}" "precision pf = -1" "flags pf \<in> {0, MFL, PFZERO, PFZERO OR MFL}"
    and "fwidth pf = int k" "k < 509"
    and "t = numberText (if conv pf = CHR ''u'' then 10 else 16) (digitsOf (conv pf)) (ucast w)"
  shows "setfield pf (AWord w # ap) =
    Some (replicate (k - length t) (if STCHK pf PFZERO \<noteq> 0 then CHR ''0'' else CHR '' '') @ t, ap)"
proof -
  have b: "(if conv pf = CHR ''u'' then 10 else 16) \<in> {8, 10, 16 :: u64}" by simp
  have "NUL \<notin> set t" unfolding assms(6) by (rule numberText_not_NUL [OF b])
  moreover have "length t \<le> 22" unfolding assms(6) by (rule length_numberText(1) [OF b])
  ultimately have t: "NUL \<notin> set t" "length t < 509" by simp_all
  have st: "STCHK (pf\<lparr>precision := 1\<rparr>) m = STCHK pf m" for m by (simp add: STCHK_def)
  have fl: "STCHK pf PFMINUS = 0" "STCHK pf PFSPACE = 0" "STCHK pf PFPOUND = 0"
    using assms(3) by (auto simp: STCHK_def flag_defs)
  have sgn: "putSign (pf\<lparr>precision := 1\<rparr>) False (fieldOf t) = Some (False, fieldOf t)"
    using assms(1) by (auto simp: putSign_def SIGNED_CONV_def HEX_CONV_def)
  have c: "conv pf \<noteq> CHR ''%''" "conv (pf\<lparr>precision := 1\<rparr>) \<noteq> CHR ''a''" "conv (pf\<lparr>precision := 1\<rparr>) \<noteq> CHR ''A''"
    using assms(1) by auto
  show ?thesis
    using setfield_text [OF c(1) convert_unsigned [OF assms(1-3), of w ap, folded assms(6)] sgn t] fl assms(4,5) c(2,3)
    by (simp add: st)
qed


lemma scast_word: "sint (scast (w :: u32) :: u64) = sint w"
proof -
  have "sint w < 2 ^ 31" "- (2 ^ 31) \<le> sint w" using sint_less [of w] sint_ge [of w] by simp_all
  then have "signed_take_bit 63 (sint w) = sint w" by (intro signed_take_bit_int_eq_self) simp_all
  then show ?thesis by (simp add: signed_scast_eq)
qed

lemma unat_nonneg: "0 \<le> sint (w :: u32) \<Longrightarrow> unat (scast w :: u64) = nat (sint w)"
proof -
  assume w: "0 \<le> sint w"
  have "uint (scast w :: u64) = take_bit 64 (sint w)" by (simp add: uint_sint scast_word)
  moreover have "take_bit 64 (sint w) = sint w" using w sint_less [of w] by (intro take_bit_int_eq_self) simp_all
  ultimately show ?thesis by (simp add: unat_eq_nat_uint)
qed

lemma unat_negated: "sint (w :: u32) < 0 \<Longrightarrow> unat (- (scast w :: u64)) = nat (- sint w)"
proof -
  assume w: "sint w < 0"
  have "word_of_int (sint (scast w :: u64)) = (scast w :: u64)" by simp
  then have "- (scast w :: u64) = word_of_int (- sint w)" by (simp only: scast_word of_int_minus)
  then have "uint (- (scast w :: u64)) = take_bit 64 (- sint w)" by (simp only: uint_word_of_int_eq) simp
  moreover have "take_bit 64 (- sint w) = - sint w" using w sint_ge [of w] by (intro take_bit_int_eq_self) simp_all
  ultimately show ?thesis by (simp only: unat_eq_nat_uint)
qed

lemma setfield_signed:
  "setfield \<lparr>flags = 0, fwidth = 0, precision = -1, conv = CHR ''d''\<rparr> (AWord w # ap) = Some (intDigits (sint w), ap)"
proof -
  let ?pf = "\<lparr>flags = 0, fwidth = 0, precision = -1, conv = CHR ''d''\<rparr>"
  let ?pf' = "\<lparr>flags = 0, fwidth = 0, precision = 1, conv = CHR ''d''\<rparr>"
  define neg where "neg = (sint w < 0)"
  define cvt where "cvt = (if neg then - (scast w :: u64) else scast w)"
  let ?t = "natDigits (unat cvt)"
  have b: "(10 :: u64) \<in> {8, 10, 16}" by simp
  have t: "numberText 10 (digitsOf (CHR ''d'')) cvt = ?t" by (rule decimal_text) simp
  note len = length_numberText [OF b, of "digitsOf (CHR ''d'')" cvt, unfolded t]
  have z: "nat (1 - int (length ?t)) = 0" using len(2) by linarith
  have conv: "convert ?pf (fieldOf []) (AWord w # ap) = Some (?pf', neg, False, fieldOf ?t, ap)"
    using ltostr_text [OF b, of cvt "CHR ''d''", unfolded t] z
    by (simp add: convert_def pproc_diouxp_def getarg_diouxp_def getarg32_def Let_def HEX_CONV_def STCHK_def flag_defs
        prefixBase_def word_sless_alt scast_word neg_def cvt_def)
  have t': "(if neg then CHR ''-'' # ?t else ?t) = intDigits (sint w)"
    using unat_nonneg [of w] unat_negated [of w] by (auto simp: intDigits_def neg_def cvt_def)
  have sgn: "putSign ?pf' neg (fieldOf ?t) = Some (False, fieldOf (intDigits (sint w)))"
    using t' len(1) by (auto simp: putSign_def SIGNED_CONV_def HEX_CONV_def STCHK_def Let_def putBack_fieldOf)
  have l: "length (intDigits (sint w)) < 509" using t' len(1) by (auto split: if_splits dest!: arg_cong [where f = length])
  show ?thesis
    using setfield_text [OF _ conv sgn intDigits_not_NUL l, of 0] by (simp add: STCHK_def)
qed

section \<open>Whole formats\<close>

lemma printfi_lit:
  assumes "CHR ''%'' \<notin> set l"
  shows "printfi (l @ F) ap h c = do { h \<leftarrow> outcs l h; printfi F ap h (c + int (length l)) }"
proof (cases "l = []")
  case False
  from assms have tw: "takeWhile (\<lambda>c. c \<noteq> CHR ''%'') (l @ F) = l @ takeWhile (\<lambda>c. c \<noteq> CHR ''%'') F"
    "dropWhile (\<lambda>c. c \<noteq> CHR ''%'') (l @ F) = dropWhile (\<lambda>c. c \<noteq> CHR ''%'') F"
    by (auto intro!: takeWhile_append2 dropWhile_append2)
  show ?thesis
  proof (cases "outcs l h")
    case None
    then show ?thesis using False by (subst printfi.simps) (simp add: tw Let_def outcs_append)
  next
    case (Some h1)
    show ?thesis
    proof (cases "F = []")
      case True
      have "takeWhile (\<lambda>c. c \<noteq> CHR ''%'') l = l" "dropWhile (\<lambda>c. c \<noteq> CHR ''%'') l = []"
        using tw True by simp_all
      then show ?thesis unfolding True append_Nil2 printfi.simps [of l] Let_def
        using Some False by (simp only:) (simp add: printfi.simps)
    next
      case F: False
      with Some False show ?thesis
        unfolding printfi.simps [of "l @ F"] printfi.simps [of F] tw Let_def outcs_append length_append of_nat_add add.assoc
        by simp
    qed
  qed
qed simp


lemma printfi_percent:
  "printfi (CHR ''%'' # it) ap h c =
     do { (pfield, it, ap) \<leftarrow> parseField it ap; (ap, h, c) \<leftarrow> emitField pfield ap h c;
          (if c = -1 then Some (h, c) else printfi it ap h c) }"
  by (subst printfi.simps) (simp add: Let_def)

text \<open>One conversion adds one piece of text.\<close>

definition emits :: "string \<Rightarrow> arg list \<Rightarrow> string \<Rightarrow> bool" where
  "emits spec a t \<longleftrightarrow> (\<forall>it ap. \<exists>pf. parseField (spec @ it) (a @ ap) = Some (pf, it, a @ ap) \<and>
     (\<forall>p h c. holderOk p h \<longrightarrow> emitField pf (a @ ap) h c = do { h \<leftarrow> outs t h; Some (ap, h, c + int (length t)) }))"

lemma emits_number:
  assumes "\<And>it ap. parseField (spec @ it) ap = Some (pf, it, ap)" "\<And>ap. setfield pf (a @ ap) = Some (t, ap)"
    and "conv pf \<noteq> CHR ''n''" "conv pf \<noteq> CHR ''s''"
  shows "emits spec a t"
  using assms by (simp add: emits_def emitField_def)

lemma emits_string: "emits ''s'' [AString (Some s)] s"
  using field_numbers(3) outcs_outs
  by (auto simp: emits_def emitField_def pproc_str_def Let_def)

lemma emits_items:
  "emits ''u'' [AWord w] (natDigits (unat w))"
  "emits ''lu'' [AWord w] (natDigits (unat w))"
  "emits ''d'' [AWord w] (intDigits (sint w))"
  "emits ''02X'' [AWord (ucast b)] (hexByte b)"
  "emits ''08lx'' [AWord w] (hexDigits 8 (unat w))"
proof -
  have u: "unat (ucast w :: u64) = unat w" for w :: u32 by (simp add: unsigned_ucast_eq take_bit_nat_eq_self unat_u32_less [THEN order.strict_trans])
  have dec: "setfield \<lparr>flags = f, fwidth = 0, precision = -1, conv = CHR ''u''\<rparr> (AWord w # ap) = Some (natDigits (unat w), ap)"
    if "f \<in> {0, MFL}" for f ap
    using setfield_unsigned [of "\<lparr>flags = f, fwidth = 0, precision = -1, conv = CHR ''u''\<rparr>" 0 _ w ap] that
    by (auto simp: decimal_text u)
  show "emits ''u'' [AWord w] (natDigits (unat w))" "emits ''lu'' [AWord w] (natDigits (unat w))"
    by (rule emits_number [OF field_numbers(1)] emits_number [OF field_numbers(4)]; simp add: dec)+
  show "emits ''d'' [AWord w] (intDigits (sint w))"
    by (rule emits_number [OF field_numbers(2)]) (simp_all add: setfield_signed)
  have hx: "unat (ucast w :: u64) < 16 ^ 8" using unat_u32_less [of w] by (simp add: u)
  have "setfield \<lparr>flags = PFZERO OR MFL, fwidth = 8, precision = -1, conv = CHR ''x''\<rparr> (AWord w # ap) =
      Some (hexDigits 8 (unat w), ap)" for ap
    using setfield_unsigned [of "\<lparr>flags = PFZERO OR MFL, fwidth = 8, precision = -1, conv = CHR ''x''\<rparr>" 8 _ w ap]
      hex_text [OF hx, of "CHR ''x''"] hexNat_hexDigits [of "CHR ''x''" 8 "unat w"]
    by (simp add: STCHK_def flag_defs u)
  then show "emits ''08lx'' [AWord w] (hexDigits 8 (unat w))"
    by (intro emits_number [OF field_numbers(6)]) simp_all
  have "unat (ucast b :: u32) = unat b"
    by (simp add: unsigned_ucast_eq take_bit_nat_eq_self unat_u8_less [THEN order.strict_trans])
  then have ub: "unat (ucast (ucast b :: u32) :: u64) = unat b" by (simp only: u)
  then have hb: "unat (ucast (ucast b :: u32) :: u64) < 16 ^ 2" using unat_u8_less [of b] by simp
  have "setfield \<lparr>flags = PFZERO, fwidth = 2, precision = -1, conv = CHR ''X''\<rparr> (AWord (ucast b) # ap) =
      Some (hexByte b, ap)" for ap
    using setfield_unsigned [of "\<lparr>flags = PFZERO, fwidth = 2, precision = -1, conv = CHR ''X''\<rparr>" 2 _ "ucast b" ap]
      hex_text [OF hb, of "CHR ''X''"] hexNat_hexByte [of b]
    by (simp add: STCHK_def flag_defs ub)
  then show "emits ''02X'' [AWord (ucast b)] (hexByte b)"
    by (intro emits_number [OF field_numbers(5)]) simp_all
qed

lemma printfi_emits:
  assumes "emits spec a t" "holderOk p h" "0 \<le> c"
  shows "printfi (CHR ''%'' # spec @ it) (a @ ap) h c = do { h \<leftarrow> outs t h; printfi it ap h (c + int (length t)) }"
proof -
  from assms(1) obtain pf where pf: "parseField (spec @ it) (a @ ap) = Some (pf, it, a @ ap)"
    "\<And>p h c. holderOk p h \<Longrightarrow> emitField pf (a @ ap) h c = do { h \<leftarrow> outs t h; Some (ap, h, c + int (length t)) }"
    unfolding emits_def by blast
  obtain h1 where "outs t h = Some h1" using outs_ok [OF assms(2)] by blast
  with pf(1) pf(2) [OF assms(2)] assms(3) show ?thesis by (simp add: printfi_percent)
qed

lemma printfi_items:
  assumes "\<forall>i \<in> set its. itemOk i" "holderOk p h" "0 \<le> c"
  shows "printfi (concat (map fmtOf its)) (concat (map argOf its)) h c =
    do { h \<leftarrow> outsAll (map pieceOf its) h; Some (h, c + int (length (concat (map pieceOf its)))) }"
  using assms
proof (induction its arbitrary: h c)
  case Nil
  then show ?case by (simp add: printfi.simps)
next
  case (Cons i its)
  let ?F = "concat (map fmtOf its)" and ?A = "concat (map argOf its)"
  obtain h1 where h1: "outs (pieceOf i) h = Some h1" "holderOk p h1" using outs_ok [OF Cons.prems(2)] by blast
  have step: "printfi (fmtOf i @ ?F) (argOf i @ ?A) h c = printfi ?F ?A h1 (c + int (length (pieceOf i)))"
  proof (cases i)
    case (Lit s)
    with Cons.prems(1) have "CHR ''%'' \<notin> set s" by (simp add: itemOk_def)
    with Lit printfi_lit [of s ?F ?A h c] outcs_outs [OF Cons.prems(2), of s] h1(1) show ?thesis by simp
  next
    case (Str s)
    with printfi_emits [OF emits_string [of s] Cons.prems(2,3), of ?F ?A] h1(1) show ?thesis by simp
  next
    case (U w)
    with printfi_emits [OF emits_items(1) Cons.prems(2,3), of ?F w ?A] h1(1) show ?thesis by simp
  next
    case (LU w)
    with printfi_emits [OF emits_items(2) Cons.prems(2,3), of ?F w ?A] h1(1) show ?thesis by simp
  next
    case (D w)
    with printfi_emits [OF emits_items(3) Cons.prems(2,3), of ?F w ?A] h1(1) show ?thesis by simp
  next
    case (X2 b)
    with printfi_emits [OF emits_items(4) Cons.prems(2,3), of ?F b ?A] h1(1) show ?thesis by simp
  next
    case (LX8 w)
    with printfi_emits [OF emits_items(5) Cons.prems(2,3), of ?F w ?A] h1(1) show ?thesis by simp
  qed
  with Cons.IH [OF _ h1(2)] Cons.prems(1,3) h1(1) show ?case by (simp add: add.assoc)
qed


lemma engine_items:
  assumes "\<forall>i \<in> set its. itemOk i" "p + (n - 1) \<le> length buf"
  shows "snprintfEngine buf p n (concat (map fmtOf its)) (concat (map argOf its)) =
    map_option (\<lambda>(b, w). (b, int w)) (snprintf buf p n (map pieceOf its))"
proof -
  let ?h = "\<lparr>target = buf, out_end = p, room = (if n = 0 then 0 else n - 1), written = 0\<rparr>"
  have ok: "holderOk p ?h" using assms(2) by (cases n) (simp_all add: holderOk_def)
  have "out_end ?h = p + min (room ?h) (written ?h)" "p + room ?h \<le> length (target ?h)" using ok by (simp_all add: holderOk_def)
  from outsAll_effect [OF this, of "map pieceOf its"] obtain h' where
    h': "outsAll (map pieceOf its) ?h = Some h'" "written h' = length (concat (map pieceOf its))" by auto
  with printfi_items [OF assms(1) ok, of 0] show ?thesis
    by (auto simp: snprintfEngine_def snprintf_def split: option.splits)
qed

text \<open>C40. The text of the firmware's messages is what the library's formatting engine produces: for a format put together from literal
  text and the conversions \<open>%s\<close>, \<open>%u\<close>, \<open>%lu\<close>, \<open>%d\<close>, \<open>%02X\<close> and \<open>%08lx\<close>, the engine, run on the format string and the
  arguments, leaves the array and returns the count of the \<open>snprintf\<close> of the other theories on the pieces of text, without
  leaving its conversion buffer. In particular the format of the statistics line produces \<open>statsPieces\<close>.\<close>

theorem engine_produces_pieces:
  assumes "\<forall>i \<in> set its. itemOk i" "p + (n - 1) \<le> length buf" "length line = 160" "rssiOk s"
  shows "snprintfEngine buf p n (concat (map fmtOf its)) (concat (map argOf its)) =
      map_option (\<lambda>(b, w). (b, int w)) (snprintf buf p n (map pieceOf its)) \<and>
    snprintfEngine line 0 160
      (''RFSTAT rx=%lu enq=%lu appdrop=%lu rxfu=%lu crc=%lu coll=%lu rssi=%d[%d,%d] n=%lu'' @ crlf)
      [AWord (radioReceived s), AWord (radioQueued s), AWord (appQueueDropped s), AWord (rxBufferFull s),
       AWord (crcErrors s), AWord (collisions s), AWord (word_of_int (rssiLast s)), AWord (word_of_int (rssiMin s)),
       AWord (word_of_int (rssiMax s)), AWord (rssiSamples s)] =
      map_option (\<lambda>(b, w). (b, int w)) (snprintf line 0 160 (statsPieces s))"
proof -
  let ?w = "\<lambda>i. word_of_int i :: u32"
  let ?its = "[Lit ''RFSTAT rx='', LU (radioReceived s), Lit '' enq='', LU (radioQueued s),
     Lit '' appdrop='', LU (appQueueDropped s), Lit '' rxfu='', LU (rxBufferFull s),
     Lit '' crc='', LU (crcErrors s), Lit '' coll='', LU (collisions s),
     Lit '' rssi='', D (?w (rssiLast s)), Lit ''['', D (?w (rssiMin s)), Lit '','', D (?w (rssiMax s)),
     Lit ''] n='', LU (rssiSamples s), Lit crlf]"
  have "signed_take_bit 31 i = i" if "i \<in> {-128..127}" for i :: int
    using that by (intro signed_take_bit_int_eq_self) auto
  then have sint: "sint (?w i) = i" if "i \<in> {-128..127}" for i using that by (simp add: sint_sbintrunc')
  have "map pieceOf ?its = statsPieces s"
    using assms(4) sint by (simp add: statsPieces_def rssiOk_def)
  moreover have "\<forall>i \<in> set ?its. itemOk i" by (simp add: itemOk_def crlf_def)
  ultimately show ?thesis
    using engine_items [OF assms(1,2)] engine_items [of ?its 0 160 line] assms(3) by simp
qed

theorem engine_produces_pieces_witness:
  "snprintfEngine (replicate 12 NUL) 0 12 ''seq=%u'' [AWord 4242] = Some (''seq=4242'' @ replicate 4 NUL, 8)"
proof -
  have "snprintf (replicate 12 NUL) 0 12 (map pieceOf [Lit ''seq='', U 4242]) = Some (''seq=4242'' @ replicate 4 NUL, 8)"
  proof -
    have "map digitChar [4, 2] = ''42''" by code_simp
    then have "natDigits 4242 = ''4242''" by (simp add: natDigits.simps)
    then show ?thesis by (simp add: snprintf_def outs_def Let_def replicate_numeral)
  qed
  then show ?thesis
    using engine_produces_pieces [of "[Lit ''seq='', U 4242]" 0 12 "replicate 12 NUL" "replicate 160 NUL" initialStats]
    by (simp add: itemOk_def rssiOk_def initialStats_def)
qed

end
