(* ===== verification/Spec2Isabelle.thy ===== *)
theory Spec2Isabelle
  imports Rts_Start Mem_Alloc Rtos_Config Board_Functions Update_Recovery Cli_Task Radio_Threads I2c_Slave Startup_Fix App_Main Printf_Engine
begin

text \<open>
  Verification of the CC1310 firmware and of its serial bootloader.

  \<^bold>\<open>The program.\<close> Two images share the flash of a CC1310. The bootloader (\<open>src/bootloader/bootloader.c\<close>) runs first. It
  keeps a journal of records (state, image size and checksum, role, boot counters) in two flash pages, decides on every reset
  whether to start the application or to stay in its serial updater, receives images in COBS-framed messages, and
  exports a table of functions through which the application confirms a boot or asks for an update. The application
  (\<open>src/firmware\<close>) runs on TI-RTOS as an RF transmitter or receiver, with a command line on the UART, a queue of received
  packets and an I2C slave. It reports readiness from two tasks, and the second report confirms the boot.

  \<^bold>\<open>Conventions.\<close> Machine integers are words of their width, so wrap-around is the machine's. C arrays are lists; an
  access outside the array is \<open>None\<close>, so a theorem that a function returns \<open>Some\<close> is a memory-safety theorem. State is
  a record passed and returned. Drivers (flash, UART, RF core, mailboxes, pins, RTOS calls) are parameters; where a theorem needs more
  of them than their type, a locale states it (\<open>nor_flash\<close>, \<open>reliable_flash\<close>, \<open>metadata_register\<close>, \<open>message_link\<close>, \<open>mailbox\<close>), as the contracts between
  components are (\<open>image_handler\<close>, \<open>allocator\<close>, \<open>memory_module\<close>), and each locale is interpreted on a definition of the model. Endless loops are given the finite input they consume, or are
  one round of the loop; the loops whose end depends on the data they walk over (the formatting engine, the decompressors, the lists and packets of
  the heap) are partial functions into \<open>option\<close>, shown to return. There is no fuel.

  \<^bold>\<open>Boot.\<close>
  \<^item> \<open>Crc\<close>, \<open>Cobs\<close>: \<open>calculateCrc32\<close>, \<open>calculateCrc16\<close>, \<open>cobsEncode\<close>, \<open>cobsDecode\<close>. Shift-register checksums against polynomial
    references and their tables of values; encoding and decoding are inverse and stay in their arrays.
  \<^item> \<open>Flash_Device\<close>: flash cells, the contract of the flash driver (erase to ones, program clears bits, either may fail part-way).
  \<^item> \<open>Metadata\<close>, \<open>Journal\<close>: the record layout, validity, the newest-record search and \<open>appendMetadataRecord\<close>. An append
    is atomic whatever the driver does, for free slots and for the rotation of a page, provided that half-done bytes do not carry their own
    checksum by accident (C1, C2); a completed append is what the next read returns (the \<open>metadata_register\<close> locale).
  \<^item> \<open>Boot_Decision\<close>: \<open>isApplicationImageValid\<close>, \<open>mainThread\<close>, \<open>confirmApplicationBoot\<close>, \<open>requestFirmwareUpdate\<close>,
    \<open>startApplication\<close>: what is started, the limit of three unconfirmed boots, confirmation, the register state at the jump (C3 to C6).
  \<^item> \<open>Protocol_Frame\<close>, \<open>Firmware_Update\<close>, \<open>Update_Session\<close>: frames on the serial line and the message loop. Round trip, safety on any byte
    stream, resynchronisation; a complete session installs the image, COMPLETE is sent only for a recorded image, and how blocks and refused
    requests are handled (C9 to C13, C16, C17).
  \<^item> \<open>Update_Recovery\<close>: the same loop when flash calls fail or the power is lost at any point, on any input. Once READY was sent the next boot
    stays in the updater or finds, after an END, the record of an image whose CRC matches (C14); the bootloader's code never changes, and the
    configuration page does not without a refused BEGIN (C15).
  \<^item> \<open>Boot_Client\<close>: the application's calls into the bootloader and the readiness protocol of its two tasks, over all interleavings (C18, C19).
  \<^item> \<open>Startup_Fix\<close>, \<open>App_Main\<close>: the relocated image from its reset handler to the RTOS (vectors, heap, module start-up),
    both \<open>main\<close> functions and the \<open>bootloader\<close> command (C36 to C39).

  \<^bold>\<open>Run-time library\<close> (\<open>src/toolchains/ti-cgt-arm_18.12.5.LTS/lib/src\<close>), on a memory of bytes.
  \<^item> \<open>Rts_Codec\<close>: the handlers of initialisation records (\<open>__TI_zero_init\<close>, \<open>__TI_decompress_none\<close>, \<open>__TI_decompress_lzss\<close>,
    \<open>__TI_decompress_rle\<close>), each against the encoder-side view of its stream: on the encoding of an image the handler returns and
    writes that image. The locale \<open>image_handler\<close> states this contract and is interpreted on all of them.
  \<^item> \<open>Rts_Start\<close>: \<open>_c_int00\<close>, \<open>_args_main\<close>, \<open>__TI_auto_init\<close>, the walks over the init tables and \<open>copy_in\<close>: from well-formed tables the
    entry code ends, and calls \<open>main\<close> with every section initialised (C7).
  \<^item> \<open>Rts_Heap\<close>: the allocator of \<open>memory.c\<close>, its packets and free list stored in the heap itself. \<open>Heap_Links\<close> shows that the list operations
    implement insertion into and removal from a sorted list of packets, \<open>Heap_Packets\<close> the invariant (the packets tile the heap, no two
    free ones are adjacent, the list holds exactly the free ones in order of size) and \<open>split\<close>, \<open>Heap_Alloc\<close> the search and \<open>aligned_alloc\<close>,
    \<open>Heap_Operations\<close> the other entry points. \<open>Heap_Contract\<close> gives the contract that a client uses, as the locale
    \<open>allocator\<close> with \<open>malloc\<close> and \<open>aligned_alloc\<close> as its interpretations: every sequence of proper requests returns, keeps the
    blocks held disjoint and their contents unchanged (C22), and a request fails only when no free packet fits it (C26).

  \<^bold>\<open>Generated configuration and board\<close> (\<open>src/firmware/boot_build/release_boot_cfg.c\<close>, \<open>CC1310_LAUNCHXL.c\<close>, \<open>CC1310_LAUNCHXL_fxns.c\<close>).
  \<^item> \<open>Mem_Alloc\<close>: \<open>malloc\<close>, \<open>memalign\<close>, \<open>calloc\<close>, \<open>free\<close> and \<open>realloc\<close> of the RTOS image, on top of the RTOS's \<open>Memory\<close> module, whose contract is
    the locale \<open>memory_module\<close>; the allocator of the run-time library with a ledger of sizes is an instance. Blocks and headers stay disjoint and every
    region is given back exactly as it was obtained (C30).
  \<^item> \<open>Rtos_Config\<close>: start, exit and error hooks of the kernel, and the lock it installs in the run-time library (\<open>_lock.c\<close>), which excludes
    in every interleaving (C8).
  \<^item> \<open>Board_Functions\<close>: the board initialisation of both images and the software-driven transfer to the external flash, against the view of the
    flash chip (C23).

  \<^bold>\<open>Console.\<close>
  \<^item> \<open>C_Strings\<close>, \<open>Printf_Engine\<close>: \<open>strtok\<close>, \<open>strspn\<close>, \<open>strcspn\<close> and \<open>snprintf\<close> of the run-time library on arrays, and the formatting engine
    behind \<open>snprintf\<close>; the latter implements the concatenation of pieces that the message theories use (C40).
  \<^item> \<open>Cli_Core\<close>, \<open>Cli_Task\<close>: tokenizer, dispatcher, line reader and built-in commands; the in-place tokenizer implements dispatch over the
    words of a line, the character loop implements dispatch over lines (C20, C21), and the messages fit.

  \<^bold>\<open>Radio and I2C.\<close>
  \<^item> \<open>Rf_Queue\<close>, \<open>Packet_Queue\<close>: the ring of data entries of the RF core and the packet queue with its counters, printing task and the
    \<open>rx\<close> command (C29, C24, C25).
  \<^item> \<open>Rf_Settings\<close>, \<open>Radio_Tx\<close>, \<open>Radio_Rx\<close>, \<open>Radio_Threads\<close>: the exported radio settings, the \<open>tx\<close> command and its packets, the
    receive callback, the two radio threads, and a packet from one board's command to the other board's queue (C27, C28, C31).
  \<^item> \<open>I2c_Slave\<close>: the interrupt handler, the register banks, the worker and the \<open>ipc\<close> command, for every sequence of interrupts, rounds and
    commands (C32 to C35).

  \<open>Prelude\<close> holds the shared types, byte order, array accesses and word lemmas.

  \<^bold>\<open>Not modelled.\<close> The RTOS and the tables, delegating proxies and extended print formats of its generated configuration, the vendor's drivers and their LaunchPad tables,
  floating-point and wide-character formatting, the rest of the run-time library (floating point, locale and file input and output, which the firmware does not call),
  the lock and the debug output of the heap, timing, and the hardware beyond what the parameters say. The transmitter's continuous
  test mode is compiled out. The Python tools, the analysis data and the build files are outside the C program.
\<close>

end
